(* ===== verification/Prelude.thy ===== *)
theory Prelude
  imports Main "HOL-Library.Word"
begin

text \<open>
  Shared vocabulary of the netmalloc development: the machine types of the target
  (x86\_64, so \<open>unsigned long\<close> has 64 bits), the ways a kernel thread can die, the
  result type of operations that may die, and lemma collections used everywhere.
\<close>

section \<open>Machine types\<close>

type_synonym u8 = "8 word"
type_synonym u16 = "16 word"
type_synonym u32 = "32 word"
type_synonym u64 = "64 word"

text \<open>\<open>pid_t\<close> is a C \<open>int\<close>; the code only compares and transmits it.\<close>

type_synonym pid_t = u32

section \<open>Fatal errors and the result type\<close>

text \<open>
  The C code runs in the kernel, where a wild pointer is not an error code but the end
  of the thread (an oops). Every dereference that the code does not guard can therefore
  yield a \<open>kfault\<close>; ordinary failures (\<open>-ENOMEM\<close>, \<open>NULL\<close>) are values of the
  operation's result, as in the code.
\<close>

datatype kfault =
    NullDeref      \<comment> \<open>a NULL pointer is dereferenced\<close>
  | UseAfterFree   \<comment> \<open>a pointer to a freed object is dereferenced\<close>
  | BadFree        \<comment> \<open>kfree of memory that kmalloc did not return\<close>
  | WriteProtected \<comment> \<open>a write to a page that is mapped read-only\<close>

definition kbind :: "'e + 'a \<Rightarrow> ('a \<Rightarrow> 'e + 'b) \<Rightarrow> 'e + 'b" where
  "kbind x f = (case x of Inl e \<Rightarrow> Inl e | Inr a \<Rightarrow> f a)"

lemma kbind_Inl [simp]: "kbind (Inl e) f = Inl e"
  by (simp add: kbind_def)

lemma kbind_Inr [simp]: "kbind (Inr a) f = f a"
  by (simp add: kbind_def)

lemma kbind_eq_Inr: "kbind x f = Inr b \<longleftrightarrow> (\<exists>a. x = Inr a \<and> f a = Inr b)"
  by (cases x) auto

lemma kbind_InrE:
  assumes "kbind x f = Inr b"
  obtains a where "x = Inr a" "f a = Inr b"
  using assms by (auto simp: kbind_eq_Inr)

lemma kbind_assoc: "kbind (kbind x f) g = kbind x (\<lambda>a. kbind (f a) g)"
  by (cases x) auto

text \<open>Reading through a pointer: a freed object has left the heap.\<close>

definition deref :: "('p \<Rightarrow> 'o option) \<Rightarrow> 'p \<Rightarrow> kfault + 'o" where
  "deref h p = (case h p of None \<Rightarrow> Inl UseAfterFree | Some ob \<Rightarrow> Inr ob)"

text \<open>Reading through a pointer that may also be NULL.\<close>

definition deref_null :: "('p \<Rightarrow> 'o option) \<Rightarrow> 'p option \<Rightarrow> kfault + 'o" where
  "deref_null h p = (case p of None \<Rightarrow> Inl NullDeref | Some q \<Rightarrow> deref h q)"

lemma deref_Inr [simp]: "deref h p = Inr ob \<longleftrightarrow> h p = Some ob"
  by (auto simp: deref_def split: option.splits)

lemma deref_Some [simp]: "h p = Some ob \<Longrightarrow> deref h p = Inr ob"
  by simp

lemma deref_null_Inr [simp]: "deref_null h p = Inr ob \<longleftrightarrow> (\<exists>q. p = Some q \<and> h q = Some ob)"
  by (auto simp: deref_null_def split: option.splits)

lemma deref_null_None [simp]: "deref_null h None = Inl NullDeref"
  by (simp add: deref_null_def)

lemma deref_null_Some [simp]: "deref_null h (Some p) = deref h p"
  by (simp add: deref_null_def)

section \<open>Word arithmetic\<close>

lemma unat_plus_no_wrap:
  "unat a + unat b < 2 ^ LENGTH('l) \<Longrightarrow> unat (a + b) = unat a + unat (b :: 'l::len word)"
  by (simp add: unat_word_ariths)

lemma unat_minus_no_wrap:
  "b \<le> a \<Longrightarrow> unat (a - b) = unat a - unat (b :: 'l::len word)"
  by (simp add: unat_sub)

lemma unat64_bound: "unat (x :: u64) < 18446744073709551616"
  using unsigned_less [of x] by simp

section \<open>Lists\<close>

lemma sum_list_append_mid:
  "sum_list (map f (xs @ x # ys)) = sum_list (map f xs) + f x + sum_list (map f ys)"
  for f :: "'a \<Rightarrow> 'b::comm_monoid_add"
  by (simp add: ac_simps)

text \<open>
  The first element of a list that satisfies a predicate, removed: the shape of every
  \<open>list_for_each_entry\<close> loop that unlinks one entry and breaks.
\<close>

fun remove_first :: "('a \<Rightarrow> bool) \<Rightarrow> 'a list \<Rightarrow> 'a list" where
  "remove_first P [] = []"
| "remove_first P (x # xs) = (if P x then xs else x # remove_first P xs)"

lemma set_remove_first_subset: "set (remove_first P xs) \<subseteq> set xs"
  by (induction xs) auto

lemma remove_first_id: "(\<And>x. x \<in> set xs \<Longrightarrow> \<not> P x) \<Longrightarrow> remove_first P xs = xs"
  by (induction xs) auto

lemma remove_first_filter:
  assumes "distinct (map f xs)"
  shows "remove_first (\<lambda>x. f x = k) xs = filter (\<lambda>x. f x \<noteq> k) xs"
  using assms
proof (induction xs)
  case (Cons x xs)
  show ?case
  proof (cases "f x = k")
    case True
    with Cons.prems have "k \<notin> f ` set xs" by auto
    then have "filter (\<lambda>x. f x \<noteq> k) xs = xs"
      by (auto intro!: filter_True)
    with True show ?thesis by simp
  next
    case False
    with Cons show ?thesis by simp
  qed
qed simp

lemma distinct_remove_first: "distinct (map f xs) \<Longrightarrow> distinct (map f (remove_first P xs))"
  by (induction xs) (use set_remove_first_subset in fastforce)+

end
