(* ===== verification/Kutils.thy ===== *)
theory Kutils
  imports Prelude
begin

text \<open>
  \<open>src/src/kutils.h\<close>: the alignment helpers every size and address computation of the
  module goes through, on 64-bit words with C's wrap-around.  The page size constants
  are those of the target (\<open>PAGE_SHIFT\<close> 12); \<open>VMA_SHIFT\<close> is defined by
  \<open>generic_malloc.h\<close> from \<open>PAGE_SHIFT\<close>.
\<close>

definition PAGE_SHIFT :: nat where
  "PAGE_SHIFT = 12"

definition PAGE_SIZE :: u64 where
  "PAGE_SIZE = 4096"

definition VMA_SHIFT :: nat where
  "VMA_SHIFT = PAGE_SHIFT + 1"

definition align_floor :: "u64 \<Rightarrow> nat \<Rightarrow> u64" where
  "align_floor x shift =
     (if x mod push_bit shift 1 \<noteq> 0 then push_bit shift (drop_bit shift x) else x)"

definition align_ceil :: "u64 \<Rightarrow> nat \<Rightarrow> u64" where
  "align_ceil x shift =
     (if x mod push_bit shift 1 \<noteq> 0 then align_floor (x + push_bit shift 1) shift else x)"

section \<open>Alignment in terms of naturals\<close>

lemma unat_pow_64:
  assumes "s < 64"
  shows "unat (2 ^ s :: u64) = 2 ^ s"
proof -
  have "(2 ^ s :: nat) < 2 ^ 64"
    using assms by (intro power_strict_increasing) auto
  then have "unat (of_nat (2 ^ s) :: u64) = 2 ^ s"
    by (simp only: unat_of_nat len_of_numeral_defs) simp
  then show ?thesis by simp
qed

lemma unat_push_bit_1: "s < 64 \<Longrightarrow> unat (push_bit s 1 :: u64) = 2 ^ s"
  by (simp add: push_bit_eq_mult unat_pow_64)

lemma unat_shift_down_up:
  assumes s: "s < 64"
  shows "unat (push_bit s (drop_bit s x) :: u64) = unat x div 2 ^ s * 2 ^ s"
proof -
  have eq: "unat (drop_bit s x) = unat x div 2 ^ s"
    by (subst unat_drop_bit_eq) (rule drop_bit_eq_div)
  have "unat x div 2 ^ s * 2 ^ s < 2 ^ 64"
    using unat64_bound [of x] le_less_trans [OF div_times_less_eq_dividend] by auto
  then show ?thesis
    using s by (simp only: push_bit_eq_mult unat_word_ariths eq) (simp add: unat_pow_64)
qed

lemma mod_push_bit_eq_0: "s < 64 \<Longrightarrow> (x :: u64) mod push_bit s 1 = 0 \<longleftrightarrow> 2 ^ s dvd unat x"
  by (simp add: word_unat_eq_iff unat_mod unat_push_bit_1 mod_eq_0_iff_dvd del: push_bit_of_1)

lemma unat_align_floor:
  assumes "s < 64"
  shows "unat (align_floor x s) = unat x div 2 ^ s * 2 ^ s"
proof (cases "x mod push_bit s 1 = 0")
  case True
  with assms have "2 ^ s dvd unat x" by (simp only: mod_push_bit_eq_0)
  with True show ?thesis by (simp only: align_floor_def) simp
next
  case False
  with assms show ?thesis by (simp only: align_floor_def unat_shift_down_up if_True not_False_eq_True)
qed

text \<open>The reference for \<open>align_ceil\<close> on naturals: the next multiple of \<open>2 ^ s\<close>.\<close>

definition round_up :: "nat \<Rightarrow> nat \<Rightarrow> nat" where
  "round_up s n = (if 2 ^ s dvd n then n else (n div 2 ^ s + 1) * 2 ^ s)"

lemma round_up_dvd [simp, intro]: "2 ^ s dvd round_up s n"
  by (simp add: round_up_def)

lemma round_up_ge: "n \<le> round_up s n"
proof -
  have "n \<le> n div 2 ^ s * 2 ^ s + 2 ^ s"
    using div_mult_mod_eq [of n "2 ^ s"] mod_less_divisor [of "2 ^ s" n]
    by (metis add_le_cancel_left less_imp_le zero_less_numeral zero_less_power)
  then show ?thesis by (simp add: round_up_def)
qed

lemma round_up_less: "round_up s n < n + 2 ^ s"
proof (cases "2 ^ s dvd n")
  case False
  then have "0 < n mod 2 ^ s" by (simp add: mod_greater_zero_iff_not_dvd)
  then show ?thesis
    using False div_mult_mod_eq [of n "2 ^ s"] by (simp add: round_up_def)
qed (simp add: round_up_def)

lemma round_up_least:
  assumes "2 ^ s dvd m" and "n \<le> m"
  shows "round_up s n \<le> m"
proof -
  from assms(1) obtain k where k: "m = k * 2 ^ s" by (metis dvd_def mult.commute)
  obtain j where j: "round_up s n = j * 2 ^ s" by (metis dvd_def mult.commute round_up_dvd)
  have "j * 2 ^ s < (k + 1) * 2 ^ s"
    using round_up_less [of s n] assms(2) by (simp add: k j)
  then have "j \<le> k" by (simp only: mult_less_cancel2) simp
  then show ?thesis by (simp add: k j)
qed

lemma mod_div_times:
  fixes m p q :: nat
  assumes "0 < p"
  shows "(m mod (p * q)) div p * p = (m div p * p) mod (p * q)"
proof -
  have "(m mod (p * q)) div p = (m div p) mod q"
    using assms by (subst mod_mult2_eq) simp
  moreover have "(m div p) mod q * p = (m div p * p) mod (q * p)"
    by (rule mult_mod_left)
  ultimately show ?thesis by (simp only: mult.commute [of q])
qed

lemma unat_align_ceil_mod:
  assumes s: "s < 64"
  shows "unat (align_ceil x s) = round_up s (unat x) mod 2 ^ 64"
proof (cases "2 ^ s dvd unat x")
  case True
  then have "align_ceil x s = x"
    using s by (simp add: align_ceil_def mod_push_bit_eq_0 del: push_bit_of_1)
  then show ?thesis using True unat64_bound [of x] by (simp add: round_up_def)
next
  case False
  define n where "n = unat x"
  have split: "(2::nat) ^ 64 = 2 ^ s * 2 ^ (64 - s)"
    using s by (simp flip: power_add)
  have "align_ceil x s = align_floor (x + 2 ^ s) s"
    using s False by (simp add: align_ceil_def mod_push_bit_eq_0 [unfolded push_bit_of_1])
  then have "unat (align_ceil x s) = ((n + 2 ^ s) mod 2 ^ 64) div 2 ^ s * 2 ^ s"
    using s by (simp only: unat_align_floor unat_word_ariths unat_pow_64 n_def) simp
  also have "\<dots> = ((n + 2 ^ s) div 2 ^ s * 2 ^ s) mod 2 ^ 64"
    unfolding split by (rule mod_div_times) simp
  also have "(n + 2 ^ s) div 2 ^ s * 2 ^ s = round_up s n"
    using False by (simp add: round_up_def n_def div_add_self2)
  finally show ?thesis by (simp add: n_def)
qed

lemma unat_align_ceil:
  assumes "s < 64" and "round_up s (unat x) < 2 ^ 64"
  shows "unat (align_ceil x s) = round_up s (unat x)"
  using assms by (simp only: unat_align_ceil_mod mod_less)

text \<open>Rounding to pages, and the bounds the region arithmetic needs.\<close>

lemma align_floor_le: "s < 64 \<Longrightarrow> align_floor x s \<le> x"
  by (simp add: word_le_nat_alt unat_align_floor)

lemma round_up_fits:
  assumes "s < 64" and "n + 2 ^ s \<le> 2 ^ 64"
  shows "round_up s n < 2 ^ 64"
  using round_up_less [of s n] assms by linarith

lemma dvd_floor_le_iff:
  fixes a n p :: nat
  assumes "p dvd a" and "0 < p"
  shows "a \<le> n div p * p \<longleftrightarrow> a \<le> n"
proof
  assume "a \<le> n div p * p"
  then show "a \<le> n" using div_times_less_eq_dividend [of n p] by linarith
next
  assume "a \<le> n"
  then have "a div p \<le> n div p" by (rule div_le_mono)
  then have "a div p * p \<le> n div p * p" by simp
  with assms show "a \<le> n div p * p" by simp
qed

lemma less_round_up_iff:
  assumes "2 ^ s dvd a"
  shows "a < round_up s n \<longleftrightarrow> a < n"
  using round_up_least [OF assms, of n] round_up_ge [of n s] by (auto simp: not_less [symmetric])

lemma unat_align_floor_page: "unat (align_floor x PAGE_SHIFT) = unat x div 4096 * 4096"
  using unat_align_floor [of PAGE_SHIFT x] by (simp add: PAGE_SHIFT_def)

lemma unat_align_ceil_page:
  "unat x \<le> 18446744073709547520 \<Longrightarrow> unat (align_ceil x PAGE_SHIFT) = round_up 12 (unat x)"
  using unat_align_ceil [of 12 x] round_up_fits [of 12 "unat x"] by (simp add: PAGE_SHIFT_def)

section \<open>Properties\<close>

text \<open>
  \<open>align_floor\<close> rounds down: its result is a multiple of \<open>1 << shift\<close>, it is at most
  the argument and the argument lies less than one alignment unit above it.  The shift is
  one for which the C expression \<open>1 << shift\<close> (an \<open>int\<close>) is defined.
\<close>

theorem align_floor_spec:
  assumes "shift < 31"
  shows "2 ^ shift dvd unat (align_floor x shift) \<and>
         unat (align_floor x shift) \<le> unat x \<and>
         unat x < unat (align_floor x shift) + 2 ^ shift"
proof -
  have "unat x < unat x div 2 ^ shift * 2 ^ shift + 2 ^ shift"
    using mod_less_divisor [of "2 ^ shift" "unat x"] div_mult_mod_eq [of "unat x" "2 ^ shift"]
    by (metis add_less_cancel_left zero_less_numeral zero_less_power)
  with assms show ?thesis by (simp add: unat_align_floor)
qed

theorem align_floor_spec_witness:
  "unat (align_floor 8191 12) \<le> 8191 \<and> 8191 < unat (align_floor 8191 12) + 4096"
  using align_floor_spec [of 12 8191] by simp

text \<open>
  \<open>align_ceil\<close> rounds up to the least multiple of \<open>1 << shift\<close> that is not below its
  argument, except when that multiple is \<open>2 ^ 64\<close>: then the addition wraps and the result
  is \<open>0\<close>.
\<close>

theorem align_ceil_spec:
  assumes "shift < 31"
  shows "if unat x \<le> 2 ^ 64 - 2 ^ shift
         then 2 ^ shift dvd unat (align_ceil x shift) \<and> unat x \<le> unat (align_ceil x shift) \<and>
              (\<forall>m. 2 ^ shift dvd m \<and> unat x \<le> m \<longrightarrow> unat (align_ceil x shift) \<le> m)
         else align_ceil x shift = 0"
proof (cases "unat x \<le> 2 ^ 64 - 2 ^ shift")
  case True
  have p: "(2::nat) ^ shift \<le> 2 ^ 64" using assms by (intro power_increasing) auto
  with True assms have "unat (align_ceil x shift) = round_up shift (unat x)"
    by (intro unat_align_ceil round_up_fits) auto
  with True show ?thesis by (simp add: round_up_ge round_up_least)
next
  case False
  have d: "(2::nat) ^ shift dvd 2 ^ 64" using assms by (intro le_imp_power_dvd) simp
  then have d': "(2::nat) ^ shift dvd 2 ^ 64 - 2 ^ shift" by (intro dvd_diff_nat) auto
  have "\<not> round_up shift (unat x) \<le> 2 ^ 64 - 2 ^ shift"
    using False round_up_ge [of "unat x" shift] by linarith
  moreover have "round_up shift (unat x) \<le> 2 ^ 64"
    using d unat64_bound [of x] by (intro round_up_least) auto
  ultimately have "2 ^ 64 - round_up shift (unat x) < 2 ^ shift"
    by linarith
  moreover have "2 ^ shift dvd 2 ^ 64 - round_up shift (unat x)"
    using d by (intro dvd_diff_nat) auto
  ultimately have "2 ^ 64 - round_up shift (unat x) = 0"
    using dvd_imp_le by fastforce
  with \<open>round_up shift (unat x) \<le> 2 ^ 64\<close> have "round_up shift (unat x) = 2 ^ 64"
    by linarith
  then show ?thesis
    using False assms by (simp add: word_unat_eq_iff unat_align_ceil_mod)
qed

theorem align_ceil_spec_witness:
  "4096 dvd unat (align_ceil 5000 12) \<and> unat (align_ceil 5000 12) = 8192"
  using align_ceil_spec [of 12 5000] by (auto simp: align_ceil_def align_floor_def)

end
