(* ===== verification/Kernel.thy ===== *)
theory Kernel
  imports Kutils
begin

text \<open>
  The kernel as the module sees it.  Nothing of it is under \<open>src/\<close>, so its functions are
  parameters of the model, the fields of a record \<open>kenv\<close>: what each of them answers during
  one call of the module.  Results the kernel may choose freely (does an allocation
  succeed, is a symbol exported) are fields of their own.  What its documentation promises
  is stated by the predicates \<open>insert_vm_ok\<close>, \<open>munmap_ok\<close>, \<open>paging_ok\<close>, which theorems
  take as hypotheses where they need them; \<open>linux_ref\<close> is one environment that keeps
  all of them, used to evaluate examples.
\<close>

section \<open>Objects of the memory manager\<close>

text \<open>Pointers to kernel objects are numbers; the objects live in maps indexed by them.\<close>

type_synonym vid = nat    \<comment> \<open>\<open>struct vm_area_struct *\<close>\<close>
type_synonym mmid = nat   \<comment> \<open>\<open>struct mm_struct *\<close>\<close>
type_synonym frame = nat  \<comment> \<open>a page of memory, \<open>struct page *\<close>\<close>

text \<open>The content of a page: one byte for each of the 4096 offsets.\<close>

type_synonym page = "12 word \<Rightarrow> u8"

definition zero_page :: page where
  "zero_page = (\<lambda>_. 0)"

datatype vm_flag = VM_READ | VM_WRITE | VM_EXEC | VM_MIXEDMAP

text \<open>The fields of \<open>struct vm_area_struct\<close> that the module reads or writes.\<close>

record vm_area =
  vm_mm :: mmid
  vm_start :: u64
  vm_end :: u64
  vm_flags :: "vm_flag set"
  vm_ops :: nat

text \<open>
  The VMA objects, and for each address space its list \<open>mm->mmap\<close> (the \<open>vm_next\<close>
  chain).  A pointer outside the domain of \<open>vmas\<close> is dangling.
\<close>

record vmem =
  vmas :: "vid \<Rightarrow> vm_area option"
  mmap :: "mmid \<Rightarrow> vid list"
  next_vid :: vid

text \<open>User page tables: the frame mapped at a page address of an address space.\<close>

type_synonym ptab = "mmid \<times> u64 \<Rightarrow> frame option"

text \<open>The fields of \<open>struct task_struct\<close> in use.\<close>

record task =
  t_pid :: pid_t
  t_mm :: mmid

text \<open>
  A well-formed address space: live VMAs in address order that do not overlap, none below
  the first page.
\<close>

definition before :: "vmem \<Rightarrow> vid \<Rightarrow> vid \<Rightarrow> bool" where
  "before V u w \<longleftrightarrow>
     (\<forall>a b. vmas V u = Some a \<longrightarrow> vmas V w = Some b \<longrightarrow> vm_end a \<le> vm_start b)"

definition mm_wf :: "vmem \<Rightarrow> mmid \<Rightarrow> bool" where
  "mm_wf V m \<longleftrightarrow> distinct (mmap V m) \<and> sorted_wrt (before V) (mmap V m) \<and>
     (\<forall>v\<in>set (mmap V m). \<exists>a. vmas V v = Some a \<and> vm_mm a = m \<and> v < next_vid V \<and>
        PAGE_SIZE \<le> vm_start a \<and> vm_start a \<le> vm_end a)"

lemma mm_wfD:
  assumes "mm_wf V m" and "v \<in> set (mmap V m)"
  obtains a where "vmas V v = Some a" "vm_mm a = m" "v < next_vid V"
    "PAGE_SIZE \<le> vm_start a" "vm_start a \<le> vm_end a"
  using assms unfolding mm_wf_def by blast

lemma sorted_wrt_two:
  assumes "sorted_wrt R xs" and "x \<in> set xs" and "y \<in> set xs" and "x \<noteq> y"
  shows "R x y \<or> R y x"
  using assms by (induction xs) auto

text \<open>Two VMAs of one address space do not overlap.\<close>

lemma mm_wf_disjoint:
  assumes "mm_wf V m" and "u \<in> set (mmap V m)" and "v \<in> set (mmap V m)" and "u \<noteq> v"
    and "vmas V u = Some a" and "vmas V v = Some b"
  shows "vm_end a \<le> vm_start b \<or> vm_end b \<le> vm_start a"
proof -
  from assms(1) have "sorted_wrt (before V) (mmap V m)" by (simp add: mm_wf_def)
  from sorted_wrt_two [OF this assms(2,3,4)] show ?thesis
    using assms(5,6) by (auto simp: before_def)
qed

section \<open>The kernel functions\<close>

text \<open>The places where the module allocates memory (once per call and argument).\<close>

datatype alloc_site =
    AllocArea | AllocSplitRegion | AllocTailRegion | AllocVma
  | AllocStoredPage pid_t u64
  | AllocMappedBuffer | AllocBufferPage | AllocCachePage
  | AllocKernelList | AllocKernelBuffer pid_t u64 | AllocKernelPage pid_t u64
  | AllocAddressDup

record kenv =
  kmalloc_ok :: "alloc_site \<Rightarrow> bool"
  kallsyms_ok :: "string \<Rightarrow> bool"
  insert_vm_struct :: "vmem \<Rightarrow> mmid \<Rightarrow> vid \<Rightarrow> vid list option"
  do_munmap :: "vmem \<Rightarrow> ptab \<Rightarrow> mmid \<Rightarrow> u64 \<Rightarrow> u64 \<Rightarrow> vid list \<times> vid list \<times> ptab"
  get_user_pages :: "ptab \<Rightarrow> mmid \<Rightarrow> u64 \<Rightarrow> frame option"
  kmap_ok :: "frame \<Rightarrow> bool"
  vm_insert_page :: "ptab \<Rightarrow> mmid \<Rightarrow> u64 \<Rightarrow> frame \<Rightarrow> ptab option"
  zap_page_range :: "ptab \<Rightarrow> mmid \<Rightarrow> u64 \<Rightarrow> u64 \<Rightarrow> ptab"
  junk_int :: int   \<comment> \<open>what an uninitialised \<open>int\<close> field of a fresh object holds\<close>
  junk_long :: u64  \<comment> \<open>what an uninitialised \<open>long\<close> field of a fresh object holds\<close>

text \<open>
  \<open>insert_vm_struct\<close> answers the new \<open>mmap\<close> list, or \<open>None\<close> for an error code: a VMA is
  linked at its place in the address order, and only where it overlaps nothing.
\<close>

definition insert_vm_ok :: "kenv \<Rightarrow> bool" where
  "insert_vm_ok E \<longleftrightarrow> (\<forall>V m v l a. insert_vm_struct E V m v = Some l \<longrightarrow> vmas V v = Some a \<longrightarrow>
     (\<exists>pre post. mmap V m = pre @ post \<and> l = pre @ v # post \<and>
        (\<forall>u\<in>set pre. \<forall>b. vmas V u = Some b \<longrightarrow> vm_end b \<le> vm_start a) \<and>
        (\<forall>u\<in>set post. \<forall>b. vmas V u = Some b \<longrightarrow> vm_end a \<le> vm_start b)))"

text \<open>
  \<open>do_munmap\<close> answers the remaining \<open>mmap\<close> list, the VMAs it closes and frees (it calls
  \<open>vm_ops->close\<close> for each) and the page table without the pages of the range.  On the
  exact range of one VMA it removes that VMA.
\<close>

definition page_range :: "u64 \<Rightarrow> u64 \<Rightarrow> u64 \<Rightarrow> bool" where
  "page_range start len a \<longleftrightarrow> start \<le> a \<and> unat a < unat start + unat len"

definition unmap_range :: "ptab \<Rightarrow> mmid \<Rightarrow> u64 \<Rightarrow> u64 \<Rightarrow> ptab" where
  "unmap_range pt m start len =
     (\<lambda>(n, a). if n = m \<and> page_range start len a then None else pt (n, a))"

definition munmap_ok :: "kenv \<Rightarrow> bool" where
  "munmap_ok E \<longleftrightarrow> (\<forall>V pt m v a. mm_wf V m \<longrightarrow> v \<in> set (mmap V m) \<longrightarrow> vmas V v = Some a \<longrightarrow>
     vm_start a < vm_end a \<longrightarrow>
     do_munmap E V pt m (vm_start a) (vm_end a - vm_start a) =
       (remove1 v (mmap V m), [v], unmap_range pt m (vm_start a) (vm_end a - vm_start a)))"

text \<open>
  \<open>get_user_pages\<close> finds the frame mapped at an address; \<open>vm_insert_page\<close> maps a frame
  and refuses an address that is already mapped; \<open>zap_page_range\<close> unmaps.
\<close>

definition paging_ok :: "kenv \<Rightarrow> bool" where
  "paging_ok E \<longleftrightarrow>
     (\<forall>pt m a f. pt (m, a) = Some f \<longrightarrow> get_user_pages E pt m a = Some f) \<and>
     (\<forall>pt m a f pt'. vm_insert_page E pt m a f = Some pt' \<longrightarrow>
        pt (m, a) = None \<and> pt' = pt((m, a) \<mapsto> f)) \<and>
     (\<forall>pt m a. zap_page_range E pt m a PAGE_SIZE = pt((m, a) := None))"

section \<open>A reference environment\<close>

definition place_vma :: "(vid \<Rightarrow> vm_area option) \<Rightarrow> vm_area \<Rightarrow> vid list \<Rightarrow> vid list" where
  "place_vma h a = takeWhile (\<lambda>u. case h u of None \<Rightarrow> False | Some b \<Rightarrow> vm_end b \<le> vm_start a)"

definition ref_insert :: "vmem \<Rightarrow> mmid \<Rightarrow> vid \<Rightarrow> vid list option" where
  "ref_insert V m v =
     (case vmas V v of None \<Rightarrow> None | Some a \<Rightarrow>
        (let pre = place_vma (vmas V) a (mmap V m); post = drop (length pre) (mmap V m) in
         if list_all (\<lambda>u. case vmas V u of None \<Rightarrow> True | Some b \<Rightarrow> vm_end a \<le> vm_start b) post
         then Some (pre @ v # post) else None))"

definition ref_munmap :: "vmem \<Rightarrow> ptab \<Rightarrow> mmid \<Rightarrow> u64 \<Rightarrow> u64 \<Rightarrow> vid list \<times> vid list \<times> ptab" where
  "ref_munmap V pt m start len =
     (let gone = (\<lambda>v. case vmas V v of None \<Rightarrow> False | Some a \<Rightarrow>
                       start \<le> vm_start a \<and> vm_end a \<le> start + len \<and> vm_start a < vm_end a)
      in (filter (\<lambda>v. \<not> gone v) (mmap V m), filter gone (mmap V m), unmap_range pt m start len))"

definition linux_ref :: kenv where
  "linux_ref = \<lparr>kmalloc_ok = (\<lambda>_. True), kallsyms_ok = (\<lambda>_. True),
     insert_vm_struct = ref_insert, do_munmap = ref_munmap,
     get_user_pages = (\<lambda>pt m a. pt (m, a)), kmap_ok = (\<lambda>_. True),
     vm_insert_page = (\<lambda>pt m a f. if pt (m, a) = None then Some (pt((m, a) \<mapsto> f)) else None),
     zap_page_range = (\<lambda>pt m a _. pt((m, a) := None)),
     junk_int = 0, junk_long = 0\<rparr>"

lemma linux_ref_paging_ok: "paging_ok linux_ref"
  by (auto simp: paging_ok_def linux_ref_def split: if_splits)

lemma linux_ref_insert_vm_ok: "insert_vm_ok linux_ref"
  unfolding insert_vm_ok_def
proof (intro allI impI)
  fix V m v l a
  assume ins: "insert_vm_struct linux_ref V m v = Some l" and v: "vmas V v = Some a"
  define pre where "pre = place_vma (vmas V) a (mmap V m)"
  define post where "post = drop (length pre) (mmap V m)"
  have "mmap V m = pre @ post"
    by (simp add: pre_def post_def place_vma_def dropWhile_eq_drop [symmetric])
  moreover have "l = pre @ v # post"
    and "\<forall>u\<in>set post. \<forall>b. vmas V u = Some b \<longrightarrow> vm_end a \<le> vm_start b"
    using ins v by (auto simp: linux_ref_def ref_insert_def Let_def pre_def post_def list_all_iff
        split: if_splits)
  moreover have "\<forall>u\<in>set pre. \<forall>b. vmas V u = Some b \<longrightarrow> vm_end b \<le> vm_start a"
    by (auto simp: pre_def place_vma_def dest!: set_takeWhileD)
  ultimately show "\<exists>pre post. mmap V m = pre @ post \<and> l = pre @ v # post \<and>
        (\<forall>u\<in>set pre. \<forall>b. vmas V u = Some b \<longrightarrow> vm_end b \<le> vm_start a) \<and>
        (\<forall>u\<in>set post. \<forall>b. vmas V u = Some b \<longrightarrow> vm_end a \<le> vm_start b)"
    by blast
qed

lemma filter_eq_single: "distinct xs \<Longrightarrow> v \<in> set xs \<Longrightarrow> filter (\<lambda>u. u = v) xs = [v]"
  by (induction xs) (auto simp: filter_empty_conv)

lemma linux_ref_munmap_ok: "munmap_ok linux_ref"
  unfolding munmap_ok_def
proof (intro allI impI)
  fix V pt m v a
  assume wf: "mm_wf V m" and v: "v \<in> set (mmap V m)" "vmas V v = Some a" "vm_start a < vm_end a"
  define gone where "gone = (\<lambda>u. case vmas V u of None \<Rightarrow> False | Some b \<Rightarrow>
    vm_start a \<le> vm_start b \<and> vm_end b \<le> vm_start a + (vm_end a - vm_start a) \<and>
    vm_start b < vm_end b)"
  have gone: "gone u \<longleftrightarrow> u = v" if "u \<in> set (mmap V m)" for u
    using mm_wf_disjoint [OF wf that v(1)] v that by (fastforce simp: gone_def split: option.splits)
  from wf have "distinct (mmap V m)" by (simp add: mm_wf_def)
  then have "filter gone (mmap V m) = [v]" and "filter (\<lambda>u. \<not> gone u) (mmap V m) = remove1 v (mmap V m)"
    using gone v(1)
    by (simp_all add: filter_eq_single distinct_remove1_removeAll removeAll_filter_not_eq
        cong: filter_cong) (auto intro!: filter_cong)
  then show "do_munmap linux_ref V pt m (vm_start a) (vm_end a - vm_start a) =
      (remove1 v (mmap V m), [v], unmap_range pt m (vm_start a) (vm_end a - vm_start a))"
    by (simp add: linux_ref_def ref_munmap_def gone_def)
qed

end
