(* ===== verification/Vma.thy ===== *)
theory Vma
  imports Kernel
begin

text \<open>
  \<open>src/src/vma.c\<close>: finding room in an address space, creating a VMA there, and the
  questions the other components ask about a VMA.
\<close>

section \<open>Operations\<close>

fun get_free_space_loop :: "(vid \<Rightarrow> vm_area option) \<Rightarrow> u64 \<Rightarrow> vid list \<Rightarrow> u64 \<Rightarrow> kfault + u64" where
  "get_free_space_loop h sz [] fend = Inr fend"
| "get_free_space_loop h sz (v # vs) fend =
     kbind (deref h v) (\<lambda>area.
       if vm_start area - fend \<ge> sz then Inr fend
       else get_free_space_loop h sz vs (vm_end area))"

definition get_free_space :: "vmem \<Rightarrow> mmid \<Rightarrow> u64 \<Rightarrow> kfault + u64" where
  "get_free_space V mm sz = get_free_space_loop (vmas V) sz (mmap V mm) PAGE_SIZE"

definition ENOMEM :: int where
  "ENOMEM = 12"

text \<open>The error code, the memory manager's state and the new object, \<open>*vma\<close>.\<close>

definition create_vm_area_struct ::
  "kenv \<Rightarrow> vmem \<Rightarrow> task \<Rightarrow> task \<Rightarrow> nat \<Rightarrow> u64 \<Rightarrow> kfault + int \<times> vmem \<times> vid option" where
  "create_vm_area_struct E V current task ops sz =
     (if \<not> kmalloc_ok E AllocVma then Inr (- ENOMEM, V, None)
      else kbind (get_free_space V (t_mm current) sz) (\<lambda>start.
        let v = next_vid V;
            a = \<lparr>vm_mm = t_mm task, vm_start = start, vm_end = start + sz,
                 vm_flags = {VM_READ, VM_WRITE, VM_EXEC, VM_MIXEDMAP}, vm_ops = ops\<rparr>
        in Inr (0, V\<lparr>vmas := (vmas V)(v \<mapsto> a), next_vid := Suc v\<rparr>, Some v)))"

text \<open>The \<open>vm_next\<close> field: the successor in the list of the VMA's address space.\<close>

fun succ_in :: "'a \<Rightarrow> 'a list \<Rightarrow> 'a option" where
  "succ_in x (y # z # zs) = (if y = x then Some z else succ_in x (z # zs))"
| "succ_in x ys = None"

definition vm_next :: "vmem \<Rightarrow> vid \<Rightarrow> kfault + vid option" where
  "vm_next V v = kbind (deref (vmas V) v) (\<lambda>a. Inr (succ_in v (mmap V (vm_mm a))))"

definition is_last_vma :: "vmem \<Rightarrow> vid option \<Rightarrow> kfault + bool" where
  "is_last_vma V p =
     (case p of None \<Rightarrow> Inl NullDeref | Some v \<Rightarrow> kbind (vm_next V v) (\<lambda>n. Inr (n = None)))"

fun vma_listed :: "vid \<Rightarrow> vid list \<Rightarrow> bool" where
  "vma_listed v [] = False"
| "vma_listed v (area # areas) = (if v = area then True else vma_listed v areas)"

definition is_existing_vma :: "vmem \<Rightarrow> vid option \<Rightarrow> kfault + bool" where
  "is_existing_vma V p =
     (case p of None \<Rightarrow> Inl NullDeref
      | Some v \<Rightarrow> kbind (deref (vmas V) v) (\<lambda>a. Inr (vma_listed v (mmap V (vm_mm a)))))"

text \<open>
  \<open>remove_vma\<close> up to the return of \<open>do_munmap\<close> inside the kernel: the VMAs it closes are
  unlinked and reported, their \<open>close\<close> handlers run in \<open>GenericMalloc\<close>.
\<close>

definition remove_vma ::
  "kenv \<Rightarrow> vmem \<Rightarrow> ptab \<Rightarrow> vid option \<Rightarrow> kfault + vmem \<times> ptab \<times> vid list" where
  "remove_vma E V pt p =
     (if \<not> kallsyms_ok E ''do_munmap'' then Inr (V, pt, [])
      else kbind (deref_null (vmas V) p) (\<lambda>a.
        case do_munmap E V pt (vm_mm a) (vm_start a) (vm_end a - vm_start a) of
          (l, closed, pt') \<Rightarrow> Inr (V\<lparr>mmap := (mmap V)(vm_mm a := l)\<rparr>, pt', closed)))"

definition add_vma ::
  "kenv \<Rightarrow> vmem \<Rightarrow> task \<Rightarrow> task \<Rightarrow> nat \<Rightarrow> u64 \<Rightarrow> kfault + vmem \<times> vid option" where
  "add_vma E V current task ops sz =
     (if \<not> kallsyms_ok E ''insert_vm_struct'' then Inr (V, None)
      else kbind (create_vm_area_struct E V current task ops sz) (\<lambda>(err, V', vma).
        if err < 0 then Inr (V', None)
        else (case vma of None \<Rightarrow> Inl NullDeref
              | Some v \<Rightarrow>
                  (case insert_vm_struct E V' (t_mm current) v of
                     None \<Rightarrow> Inr (V'\<lparr>vmas := (vmas V')(v := None)\<rparr>, None)
                   | Some l \<Rightarrow> Inr (V'\<lparr>mmap := (mmap V')(t_mm current := l)\<rparr>, Some v)))))"

section \<open>Finding room\<close>

lemma vma_listed_iff [simp]: "vma_listed v l \<longleftrightarrow> v \<in> set l"
  by (induction l) auto

lemma succ_in_None_iff: "distinct xs \<Longrightarrow> x \<in> set xs \<Longrightarrow> succ_in x xs = None \<longleftrightarrow> last xs = x"
  by (induction x xs rule: succ_in.induct) auto

lemma succ_in_Cons:
  "succ_in x (y # zs) = (if zs = [] then None else if y = x then Some (hd zs) else succ_in x zs)"
  by (cases zs) auto

lemma succ_in_mid: "x \<notin> set pre \<Longrightarrow> succ_in x (pre @ x # y # post) = Some y"
  by (induction pre) (auto simp: succ_in_Cons)

lemma succ_in_Some:
  "succ_in x xs = Some y \<Longrightarrow> \<exists>pre post. xs = pre @ x # y # post"
proof (induction x xs rule: succ_in.induct)
  case (1 x y' z zs)
  show ?case
  proof (cases "y' = x")
    case True
    with 1 show ?thesis by - (rule exI [of _ "[]"], rule exI [of _ zs], auto)
  next
    case False
    with 1 obtain pre post where "z # zs = pre @ x # y # post" by auto
    then show ?thesis
      by - (rule exI [of _ "y' # pre"], rule exI [of _ post], auto)
  qed
qed auto

text \<open>
  One scan: every VMA passed lies below the answer, and the VMA it stops at leaves room.
\<close>

lemma get_free_space_loop_split:
  assumes "get_free_space_loop h sz vs e = Inr g"
  shows "\<exists>pre post. vs = pre @ post \<and>
    g = (if pre = [] then e else vm_end (the (h (last pre)))) \<and>
    (case post of [] \<Rightarrow> True | w # _ \<Rightarrow> \<exists>a. h w = Some a \<and> sz \<le> vm_start a - g)"
  using assms
proof (induction vs arbitrary: e)
  case (Cons v vs)
  then obtain a where a: "h v = Some a" by (auto elim!: kbind_InrE)
  show ?case
  proof (cases "sz \<le> vm_start a - e")
    case True
    with Cons.prems a show ?thesis by - (rule exI [of _ "[]"], rule exI [of _ "v # vs"], auto)
  next
    case False
    with Cons.prems a have "get_free_space_loop h sz vs (vm_end a) = Inr g" by simp
    from Cons.IH [OF this] obtain pre post where "vs = pre @ post"
      and "g = (if pre = [] then vm_end a else vm_end (the (h (last pre))))"
      and "case post of [] \<Rightarrow> True | w # _ \<Rightarrow> \<exists>a. h w = Some a \<and> sz \<le> vm_start a - g"
      by blast
    with a show ?thesis
      by - (rule exI [of _ "v # pre"], rule exI [of _ post], auto split: list.splits)
  qed
qed simp

lemma get_free_space_loop_returns:
  "\<forall>v\<in>set vs. h v \<noteq> None \<Longrightarrow> \<exists>g. get_free_space_loop h sz vs e = Inr g"
  by (induction vs arbitrary: e) auto

lemma mm_wf_live: "mm_wf V m \<Longrightarrow> \<forall>v\<in>set (mmap V m). vmas V v \<noteq> None"
  unfolding mm_wf_def by blast

lemma get_free_space_no_overlap:
  assumes wf: "mm_wf V m" and g: "get_free_space V m sz = Inr g"
    and v: "v \<in> set (mmap V m)" "vmas V v = Some a"
  shows "vm_end a \<le> g \<or> unat g + unat sz \<le> unat (vm_start a)"
proof -
  from get_free_space_loop_split [OF g [unfolded get_free_space_def]]
  obtain pre post where l: "mmap V m = pre @ post"
    and geq: "g = (if pre = [] then PAGE_SIZE else vm_end (the (vmas V (last pre))))"
    and post: "case post of [] \<Rightarrow> True | w # _ \<Rightarrow> \<exists>a. vmas V w = Some a \<and> sz \<le> vm_start a - g"
    by blast
  have srt: "sorted_wrt (before V) (pre @ post)" using wf by (simp add: mm_wf_def l)
  from v(1) consider "v \<in> set pre" | "v \<in> set post" by (auto simp: l)
  then show ?thesis
  proof cases
    case 1
    then have "pre \<noteq> []" and lp: "last pre \<in> set (mmap V m)"
      by (auto simp: l intro!: last_in_set)
    from mm_wfD [OF wf lp] obtain b where b: "vmas V (last pre) = Some b" "vm_start b \<le> vm_end b" .
    with \<open>pre \<noteq> []\<close> geq have gb: "g = vm_end b" by simp
    have "v = last pre \<or> before V v (last pre)"
      using srt 1 by (cases pre rule: rev_cases) (auto simp: sorted_wrt_append)
    then show ?thesis using v(2) b gb by (auto simp: before_def)
  next
    case 2
    then obtain w ws where w: "post = w # ws" by (cases post) auto
    with post obtain c where c: "vmas V w = Some c" "sz \<le> vm_start c - g" by auto
    from w l have wl: "w \<in> set (mmap V m)" by simp
    from mm_wfD [OF wf wl] c(1) have cw: "PAGE_SIZE \<le> vm_start c" "vm_start c \<le> vm_end c" by auto
    have "g \<le> vm_start c"
    proof (cases "pre = []")
      case False
      then have "last pre \<in> set (mmap V m)" by (simp add: l)
      from mm_wfD [OF wf this] obtain b where b: "vmas V (last pre) = Some b" .
      moreover have "before V (last pre) w"
        using srt False w by (auto simp: sorted_wrt_append)
      ultimately show ?thesis using c(1) False geq by (simp add: before_def)
    qed (use cw geq in simp)
    with c(2) have room: "unat g + unat sz \<le> unat (vm_start c)"
      by (simp add: word_le_nat_alt unat_sub)
    have "v = w \<or> before V w v" using srt 2 w by (auto simp: sorted_wrt_append)
    then have "vm_start c \<le> vm_start a"
      using c(1) v(2) cw by (auto simp: before_def)
    with room show ?thesis by (simp add: word_le_nat_alt)
  qed
qed

lemma get_free_space_ge:
  assumes wf: "mm_wf V m" and g: "get_free_space V m sz = Inr g"
  shows "PAGE_SIZE \<le> g"
proof -
  from get_free_space_loop_split [OF g [unfolded get_free_space_def]]
  obtain pre post where l: "mmap V m = pre @ post"
    and geq: "g = (if pre = [] then PAGE_SIZE else vm_end (the (vmas V (last pre))))"
    by blast
  show ?thesis
  proof (cases "pre = []")
    case False
    then have "last pre \<in> set (mmap V m)" by (simp add: l)
    from mm_wfD [OF wf this] obtain b
      where "vmas V (last pre) = Some b" "PAGE_SIZE \<le> vm_start b" "vm_start b \<le> vm_end b" .
    with False geq show ?thesis by simp
  qed (use geq in simp)
qed

lemma get_free_space_loop_first:
  assumes "sorted_wrt (before V) vs"
    and "\<forall>v\<in>set vs. \<exists>a. vmas V v = Some a \<and> e \<le> vm_start a \<and> vm_start a \<le> vm_end a"
    and "get_free_space_loop (vmas V) sz vs e = Inr g" and "e \<le> h" and "h < g"
  shows "\<exists>v\<in>set vs. \<exists>a. vmas V v = Some a \<and> h < vm_end a \<and> unat (vm_start a) < unat h + unat sz"
  using assms
proof (induction vs arbitrary: e)
  case (Cons v vs)
  from Cons.prems(2) obtain a where a: "vmas V v = Some a" "e \<le> vm_start a" "vm_start a \<le> vm_end a"
    by auto
  have small: "\<not> sz \<le> vm_start a - e"
    using Cons.prems(3-5) a by (auto split: if_splits)
  with a(2) have room: "unat (vm_start a) < unat e + unat sz"
    by (simp add: word_le_nat_alt unat_sub)
  show ?case
  proof (cases "h < vm_end a")
    case True
    with a room Cons.prems(4) show ?thesis by (auto simp: word_le_nat_alt)
  next
    case False
    have "\<forall>u\<in>set vs. \<exists>b. vmas V u = Some b \<and> vm_end a \<le> vm_start b \<and> vm_start b \<le> vm_end b"
    proof
      fix u
      assume u: "u \<in> set vs"
      with Cons.prems(2) obtain b where b: "vmas V u = Some b" "vm_start b \<le> vm_end b" by auto
      moreover have "before V v u" using Cons.prems(1) u by simp
      ultimately show "\<exists>b. vmas V u = Some b \<and> vm_end a \<le> vm_start b \<and> vm_start b \<le> vm_end b"
        using a(1) by (auto simp: before_def)
    qed
    moreover have "get_free_space_loop (vmas V) sz vs (vm_end a) = Inr g"
      using Cons.prems(3) a(1) small by simp
    ultimately show ?thesis
      using Cons.IH [of "vm_end a"] Cons.prems(1,5) False by auto
  qed
qed simp

text \<open>
  C33. \<open>get_free_space\<close> always answers on a well-formed address space, and its answer is the
  lowest address (above the first page) where \<open>size\<close> bytes collide with no VMA: every VMA
  ends at or before it, or starts at or after its end; below it every placement collides.
\<close>

theorem get_free_space_first_fit:
  assumes "mm_wf V m"
  shows "\<exists>g. get_free_space V m sz = Inr g \<and> PAGE_SIZE \<le> g \<and>
    (\<forall>v\<in>set (mmap V m). \<forall>a. vmas V v = Some a \<longrightarrow>
        vm_end a \<le> g \<or> unat g + unat sz \<le> unat (vm_start a)) \<and>
    (\<forall>h. PAGE_SIZE \<le> h \<and> h < g \<longrightarrow> (\<exists>v\<in>set (mmap V m). \<exists>a. vmas V v = Some a \<and>
        h < vm_end a \<and> unat (vm_start a) < unat h + unat sz))"
proof -
  obtain g where g: "get_free_space V m sz = Inr g"
    using get_free_space_loop_returns [OF mm_wf_live [OF assms]] by (auto simp: get_free_space_def)
  have "\<exists>v\<in>set (mmap V m). \<exists>a. vmas V v = Some a \<and> h < vm_end a \<and>
      unat (vm_start a) < unat h + unat sz" if "PAGE_SIZE \<le> h" "h < g" for h
    using get_free_space_loop_first [OF _ _ g [unfolded get_free_space_def] that] assms
    unfolding mm_wf_def by blast
  then show ?thesis
    using g get_free_space_no_overlap [OF assms g] get_free_space_ge [OF assms g] by blast
qed

theorem get_free_space_first_fit_witness:
  "\<exists>g. get_free_space \<lparr>vmas = [0 \<mapsto> \<lparr>vm_mm = 0, vm_start = 8192, vm_end = 16384, vm_flags = {}, vm_ops = 0\<rparr>],
      mmap = (\<lambda>_. [0]), next_vid = 1\<rparr> 0 8192 = Inr g \<and> PAGE_SIZE \<le> g"
  using get_free_space_first_fit [of "\<lparr>vmas = [0 \<mapsto> \<lparr>vm_mm = 0, vm_start = 8192, vm_end = 16384,
      vm_flags = {}, vm_ops = 0\<rparr>], mmap = (\<lambda>_. [0]), next_vid = 1\<rparr>" 0 8192]
  by (auto simp: mm_wf_def PAGE_SIZE_def)

section \<open>Creating a VMA\<close>

text \<open>Every pointer below \<open>next_vid\<close>: a fresh object is distinct from all live ones.\<close>

definition vids_fresh :: "vmem \<Rightarrow> bool" where
  "vids_fresh V \<longleftrightarrow> (\<forall>v. vmas V v \<noteq> None \<longrightarrow> v < next_vid V)"

text \<open>All address spaces are in order.\<close>

definition spaces_ok :: "vmem \<Rightarrow> bool" where
  "spaces_ok V \<longleftrightarrow> vids_fresh V \<and> (\<forall>m. mm_wf V m)"

lemma mm_wf_cong:
  assumes "mm_wf V m" and "mmap V' m = mmap V m" and "next_vid V \<le> next_vid V'"
    and "\<And>u. u \<in> set (mmap V m) \<Longrightarrow> vmas V' u = vmas V u"
  shows "mm_wf V' m"
proof -
  have "sorted_wrt (before V) (mmap V m)" using assms(1) by (simp add: mm_wf_def)
  then have "sorted_wrt (before V') (mmap V m)"
    by (rule sorted_wrt_mono_rel [rotated]) (simp add: before_def assms(4))
  moreover have "\<exists>b. vmas V' u = Some b \<and> vm_mm b = m \<and> u < next_vid V' \<and> PAGE_SIZE \<le> vm_start b \<and>
      vm_start b \<le> vm_end b" if u: "u \<in> set (mmap V m)" for u
  proof -
    from mm_wfD [OF assms(1) u] obtain b where "vmas V u = Some b" "vm_mm b = m" "u < next_vid V"
      "PAGE_SIZE \<le> vm_start b" "vm_start b \<le> vm_end b" .
    with assms(3,4) u show ?thesis by auto
  qed
  ultimately show ?thesis using assms(1,2) by (simp add: mm_wf_def)
qed

lemma add_vma_Some:
  assumes "add_vma E V cur task ops sz = Inr (V', Some v)"
  obtains g l a where "get_free_space V (t_mm cur) sz = Inr g" "v = next_vid V"
    "a = \<lparr>vm_mm = t_mm task, vm_start = g, vm_end = g + sz,
          vm_flags = {VM_READ, VM_WRITE, VM_EXEC, VM_MIXEDMAP}, vm_ops = ops\<rparr>"
    "insert_vm_struct E (V\<lparr>vmas := (vmas V)(v \<mapsto> a), next_vid := Suc v\<rparr>) (t_mm cur) v = Some l"
    "V' = V\<lparr>vmas := (vmas V)(v \<mapsto> a), next_vid := Suc v, mmap := (mmap V)(t_mm cur := l)\<rparr>"
  using assms
  by (auto simp: add_vma_def create_vm_area_struct_def kbind_eq_Inr Let_def ENOMEM_def
      split: if_splits option.splits)

lemma add_vma_None:
  assumes "add_vma E V cur task ops sz = Inr (V', None)"
  shows "mmap V' = mmap V \<and> (\<forall>u. u \<noteq> next_vid V \<longrightarrow> vmas V' u = vmas V u)"
  using assms
  by (auto simp: add_vma_def create_vm_area_struct_def kbind_eq_Inr Let_def ENOMEM_def
      split: if_splits option.splits)

lemma mm_wf_insert:
  assumes wf: "mm_wf V m" and fresh: "vids_fresh V" and v: "v = next_vid V"
    and l: "mmap V m = pre @ post"
    and a: "vm_mm a = m" "PAGE_SIZE \<le> vm_start a" "vm_start a \<le> vm_end a"
    and pre: "\<forall>u\<in>set pre. \<forall>b. vmas V u = Some b \<longrightarrow> vm_end b \<le> vm_start a"
    and post: "\<forall>u\<in>set post. \<forall>b. vmas V u = Some b \<longrightarrow> vm_end a \<le> vm_start b"
    and V': "vmas V' = (vmas V)(v \<mapsto> a)" "mmap V' m = pre @ v # post" "next_vid V' = Suc v"
  shows "mm_wf V' m"
proof -
  have notin: "v \<notin> set (mmap V m)"
    using wf v by (auto simp: mm_wf_def)
  have old: "before V' u w = before V u w" if "u \<noteq> v" "w \<noteq> v" for u w
    using that by (simp add: before_def V')
  have "sorted_wrt (before V) (pre @ post)" using wf l by (simp add: mm_wf_def)
  then have "sorted_wrt (before V') (pre @ post)"
    by (rule sorted_wrt_mono_rel [rotated]) (use notin l old in \<open>metis UnCI set_append\<close>)
  moreover have "\<forall>u\<in>set pre. before V' u v" and "\<forall>w\<in>set post. before V' v w"
    using pre post notin l by (auto simp: before_def V')
  ultimately have "sorted_wrt (before V') (mmap V' m)"
    by (auto simp: V' sorted_wrt_append)
  moreover have "distinct (mmap V' m)"
    using wf notin by (auto simp: mm_wf_def l V')
  moreover have "\<exists>b. vmas V' u = Some b \<and> vm_mm b = m \<and> u < next_vid V' \<and> PAGE_SIZE \<le> vm_start b \<and>
      vm_start b \<le> vm_end b" if "u \<in> set (mmap V' m)" for u
  proof (cases "u = v")
    case False
    with that have "u \<in> set (mmap V m)" by (auto simp: V' l)
    from mm_wfD [OF wf this] obtain b where "vmas V u = Some b" "vm_mm b = m" "u < next_vid V"
      "PAGE_SIZE \<le> vm_start b" "vm_start b \<le> vm_end b" .
    with False v show ?thesis by (simp add: V')
  qed (use a v in \<open>simp add: V'\<close>)
  ultimately show ?thesis by (simp add: mm_wf_def)
qed

lemma add_vma_facts:
  assumes "add_vma E V cur task ops sz = Inr (V', Some v)"
    and "insert_vm_ok E" and "mm_wf V (t_mm cur)" and "vids_fresh V" and "t_mm task = t_mm cur"
    and nowrap: "\<And>g. get_free_space V (t_mm cur) sz = Inr g \<Longrightarrow> unat g + unat sz < 2 ^ 64"
  obtains g a pre post where "get_free_space V (t_mm cur) sz = Inr g"
    "a = \<lparr>vm_mm = t_mm cur, vm_start = g, vm_end = g + sz,
          vm_flags = {VM_READ, VM_WRITE, VM_EXEC, VM_MIXEDMAP}, vm_ops = ops\<rparr>"
    "unat (vm_end a) = unat g + unat sz" "v = next_vid V" "vmas V v = None"
    "mmap V (t_mm cur) = pre @ post"
    "V' = V\<lparr>vmas := (vmas V)(v \<mapsto> a), next_vid := Suc v, mmap := (mmap V)(t_mm cur := pre @ v # post)\<rparr>"
    "mm_wf V' (t_mm cur)" "vids_fresh V'"
proof -
  from assms(1) obtain g l a where g: "get_free_space V (t_mm cur) sz = Inr g"
    and v: "v = next_vid V"
    and a: "a = \<lparr>vm_mm = t_mm task, vm_start = g, vm_end = g + sz,
          vm_flags = {VM_READ, VM_WRITE, VM_EXEC, VM_MIXEDMAP}, vm_ops = ops\<rparr>"
    and ins: "insert_vm_struct E (V\<lparr>vmas := (vmas V)(v \<mapsto> a), next_vid := Suc v\<rparr>) (t_mm cur) v = Some l"
    and V': "V' = V\<lparr>vmas := (vmas V)(v \<mapsto> a), next_vid := Suc v, mmap := (mmap V)(t_mm cur := l)\<rparr>"
    by (rule add_vma_Some)
  have ng: "unat g + unat sz < 2 ^ 64" by (rule nowrap [OF g])
  then have ende: "unat (vm_end a) = unat g + unat sz" by (simp add: a unat_plus_no_wrap)
  have notin: "v \<notin> set (mmap V (t_mm cur))" and fresh: "vmas V v = None"
    using assms(3,4) v by (auto simp: mm_wf_def vids_fresh_def)
  from assms(2) [unfolded insert_vm_ok_def, rule_format, OF ins, of a]
  obtain pre post where l: "mmap V (t_mm cur) = pre @ post" "l = pre @ v # post"
    and pre: "\<forall>u\<in>set pre. \<forall>b. ((vmas V)(v \<mapsto> a)) u = Some b \<longrightarrow> vm_end b \<le> vm_start a"
    and post: "\<forall>u\<in>set post. \<forall>b. ((vmas V)(v \<mapsto> a)) u = Some b \<longrightarrow> vm_end a \<le> vm_start b"
    by auto
  have pre': "\<forall>u\<in>set pre. \<forall>b. vmas V u = Some b \<longrightarrow> vm_end b \<le> vm_start a"
    and post': "\<forall>u\<in>set post. \<forall>b. vmas V u = Some b \<longrightarrow> vm_end a \<le> vm_start b"
    using pre post notin l by (auto split: if_splits)
  have "mm_wf V' (t_mm cur)"
    by (rule mm_wf_insert [OF assms(3,4) v l(1) _ _ _ pre' post'])
      (use assms(5) get_free_space_ge [OF assms(3) g] ende in
        \<open>simp_all add: a V' l(2) word_le_nat_alt\<close>)
  moreover have "vids_fresh V'" using assms(4) v by (auto simp: vids_fresh_def V' less_Suc_eq)
  ultimately show ?thesis
    using that [OF g _ ende v fresh l(1)] assms(5) by (simp add: V' a l(2))
qed

lemma add_vma_spaces_ok:
  assumes "add_vma E V cur task ops sz = Inr (V', Some v)"
    and "insert_vm_ok E" and "spaces_ok V" and "t_mm task = t_mm cur"
    and "\<And>g. get_free_space V (t_mm cur) sz = Inr g \<Longrightarrow> unat g + unat sz < 2 ^ 64"
  shows "spaces_ok V'" and "vmas V v = None" and "v \<in> set (mmap V' (t_mm cur))"
    and "\<And>u. u \<noteq> v \<Longrightarrow> vmas V' u = vmas V u" and "\<And>m. set (mmap V m) \<subseteq> set (mmap V' m)"
    and "\<exists>a. vmas V' v = Some a \<and> vm_mm a = t_mm cur \<and> vm_end a - vm_start a = sz"
proof -
  have wf: "\<And>m. mm_wf V m" "vids_fresh V" using assms(3) by (simp_all add: spaces_ok_def)
  obtain g a pre post where f:
    "a = \<lparr>vm_mm = t_mm cur, vm_start = g, vm_end = g + sz,
          vm_flags = {VM_READ, VM_WRITE, VM_EXEC, VM_MIXEDMAP}, vm_ops = ops\<rparr>"
    "v = next_vid V" "vmas V v = None" "mmap V (t_mm cur) = pre @ post"
    "V' = V\<lparr>vmas := (vmas V)(v \<mapsto> a), next_vid := Suc v, mmap := (mmap V)(t_mm cur := pre @ v # post)\<rparr>"
    "mm_wf V' (t_mm cur)" "vids_fresh V'"
    by (rule add_vma_facts [OF assms(1,2) wf(1,2) assms(4,5)])
  have "mm_wf V' m" for m
  proof (cases "m = t_mm cur")
    case False
    have "v \<notin> set (mmap V m)" using wf(1) [of m] f(3) by (auto simp: mm_wf_def)
    then show ?thesis using False f(2) by (intro mm_wf_cong [OF wf(1) [of m]]) (auto simp: f(5))
  qed (use f(6) in simp)
  then show "spaces_ok V'" using f(7) by (simp add: spaces_ok_def)
  show "vmas V v = None" by (rule f(3))
  show "\<And>u. u \<noteq> v \<Longrightarrow> vmas V' u = vmas V u" "v \<in> set (mmap V' (t_mm cur))"
    "\<And>m. set (mmap V m) \<subseteq> set (mmap V' m)"
    "\<exists>a. vmas V' v = Some a \<and> vm_mm a = t_mm cur \<and> vm_end a - vm_start a = sz"
    using f(4) by (auto simp: f(5) f(1))
qed

text \<open>
  A VMA that \<open>add_vma\<close> created and the kernel accepted: it starts at the free address,
  has the size asked for, is readable, writable and executable with the module's handlers,
  overlaps no VMA of the process, and the address space stays well formed, all other VMAs
  being unchanged.
\<close>

theorem add_vma_creates:
  assumes "add_vma E V cur task ops sz = Inr (V', Some v)"
    and "insert_vm_ok E" and "mm_wf V (t_mm cur)" and "vids_fresh V" and "t_mm task = t_mm cur"
    and nowrap: "\<And>g. get_free_space V (t_mm cur) sz = Inr g \<Longrightarrow> unat g + unat sz < 2 ^ 64"
  shows "mm_wf V' (t_mm cur) \<and> vids_fresh V' \<and>
    set (mmap V' (t_mm cur)) = insert v (set (mmap V (t_mm cur))) \<and> vmas V v = None \<and>
    (\<forall>u. u \<noteq> v \<longrightarrow> vmas V' u = vmas V u) \<and> (\<forall>m. m \<noteq> t_mm cur \<longrightarrow> mmap V' m = mmap V m) \<and>
    (\<exists>a. vmas V' v = Some a \<and> Inr (vm_start a) = get_free_space V (t_mm cur) sz \<and>
       unat (vm_end a) = unat (vm_start a) + unat sz \<and>
       vm_flags a = {VM_READ, VM_WRITE, VM_EXEC, VM_MIXEDMAP} \<and> vm_ops a = ops)"
proof -
  obtain g a pre post where f: "get_free_space V (t_mm cur) sz = Inr g"
    "a = \<lparr>vm_mm = t_mm cur, vm_start = g, vm_end = g + sz,
          vm_flags = {VM_READ, VM_WRITE, VM_EXEC, VM_MIXEDMAP}, vm_ops = ops\<rparr>"
    "unat (vm_end a) = unat g + unat sz" "vmas V v = None" "mmap V (t_mm cur) = pre @ post"
    "V' = V\<lparr>vmas := (vmas V)(v \<mapsto> a), next_vid := Suc v, mmap := (mmap V)(t_mm cur := pre @ v # post)\<rparr>"
    "mm_wf V' (t_mm cur)" "vids_fresh V'"
    by (rule add_vma_facts [OF assms(1-5) nowrap])
  then show ?thesis by (auto simp: f(2))
qed

definition empty_mm :: vmem where
  "empty_mm = \<lparr>vmas = Map.empty, mmap = (\<lambda>_. []), next_vid = 0\<rparr>"

lemma empty_mm_wf: "mm_wf empty_mm m" "vids_fresh empty_mm"
  by (simp_all add: mm_wf_def vids_fresh_def empty_mm_def)

lemma empty_mm_free: "get_free_space empty_mm m sz = Inr PAGE_SIZE"
  by (simp add: get_free_space_def empty_mm_def)

theorem add_vma_creates_witness:
  "\<exists>V'. add_vma linux_ref empty_mm \<lparr>t_pid = 7, t_mm = 0\<rparr> \<lparr>t_pid = 7, t_mm = 0\<rparr> 1 8192 = Inr (V', Some 0)
     \<and> mm_wf V' 0 \<and> mmap V' 0 = [0]"
proof -
  define V' where "V' = \<lparr>vmas = [0 \<mapsto> \<lparr>vm_mm = 0, vm_start = 4096, vm_end = 12288,
    vm_flags = {VM_READ, VM_WRITE, VM_EXEC, VM_MIXEDMAP}, vm_ops = 1\<rparr>],
    mmap = (\<lambda>_. [])(0 := [0]), next_vid = 1\<rparr>"
  have eq: "add_vma linux_ref empty_mm \<lparr>t_pid = 7, t_mm = 0\<rparr> \<lparr>t_pid = 7, t_mm = 0\<rparr> 1 8192 = Inr (V', Some 0)"
    by (simp add: add_vma_def create_vm_area_struct_def linux_ref_def empty_mm_free)
      (simp add: empty_mm_def ref_insert_def place_vma_def PAGE_SIZE_def V'_def)
  have "mm_wf V' 0"
    using add_vma_creates [OF eq linux_ref_insert_vm_ok] empty_mm_wf
    by (simp add: empty_mm_free PAGE_SIZE_def)
  with eq show ?thesis by (auto simp: V'_def)
qed

text \<open>
  When \<open>add_vma\<close> answers \<open>NULL\<close>, no address space has changed: every \<open>mmap\<close> list is as
  before, and so is every VMA that was live.
\<close>

theorem add_vma_fails_clean:
  assumes "add_vma E V cur task ops sz = Inr (V', None)" and "vids_fresh V"
  shows "mmap V' = mmap V \<and> (\<forall>u. vmas V u \<noteq> None \<longrightarrow> vmas V' u = vmas V u)"
  using add_vma_None [OF assms(1)] assms(2) by (auto simp: vids_fresh_def)

theorem add_vma_fails_clean_witness:
  "\<exists>V'. add_vma (linux_ref\<lparr>insert_vm_struct := \<lambda>_ _ _. None\<rparr>) empty_mm \<lparr>t_pid = 7, t_mm = 0\<rparr>
      \<lparr>t_pid = 7, t_mm = 0\<rparr> 1 8192 = Inr (V', None) \<and> mmap V' = mmap empty_mm"
proof -
  have "\<exists>V'. add_vma (linux_ref\<lparr>insert_vm_struct := \<lambda>_ _ _. None\<rparr>) empty_mm \<lparr>t_pid = 7, t_mm = 0\<rparr>
      \<lparr>t_pid = 7, t_mm = 0\<rparr> 1 8192 = Inr (V', None)"
    by (simp add: add_vma_def create_vm_area_struct_def linux_ref_def empty_mm_free Let_def)
  then show ?thesis using add_vma_fails_clean empty_mm_wf(2) by blast
qed

section \<open>Questions about a VMA\<close>

lemma is_existing_vma_live:
  "vmas V v = Some a \<Longrightarrow> is_existing_vma V (Some v) = Inr (v \<in> set (mmap V (vm_mm a)))"
  by (simp add: is_existing_vma_def)

lemma is_last_vma_live:
  "vmas V v = Some a \<Longrightarrow> is_last_vma V (Some v) = Inr (succ_in v (mmap V (vm_mm a)) = None)"
  by (simp add: is_last_vma_def vm_next_def)

lemma remove_vma_exact:
  assumes "munmap_ok E" and "mm_wf V m" and "v \<in> set (mmap V m)" and "vmas V v = Some a"
    and "vm_start a < vm_end a" and "kallsyms_ok E ''do_munmap''"
  shows "remove_vma E V pt (Some v) = Inr (V\<lparr>mmap := (mmap V)(m := remove1 v (mmap V m))\<rparr>,
    unmap_range pt m (vm_start a) (vm_end a - vm_start a), [v])"
proof -
  from mm_wfD [OF assms(2,3)] assms(4) have "vm_mm a = m" by auto
  with assms show ?thesis
    unfolding munmap_ok_def remove_vma_def by (auto simp: Let_def)
qed

end
