(* ===== verification/Region.thy ===== *)
theory Region
  imports Vma
begin

text \<open>
  \<open>src/src/area.c\<close>, the part that works inside one area: its list of regions, taking a
  region out of it for a request and merging a freed one with its neighbours.

  An intrusive list \<open>struct list_head\<close> is a HOL list.  A \<open>struct region_struct *\<close> into a
  list is a cursor, the triple of the regions before it, the region, and the regions after
  it; the head of the list (which C embeds in the area as a \<open>region_struct\<close> of its own,
  with uninitialised \<open>free\<close> and \<open>size\<close>) is the empty prefix.
\<close>

section \<open>Data\<close>

record region_struct =
  r_free :: int
  r_size :: u64
  virtual_start :: u64

record area_struct =
  a_vma :: "vid option"
  a_pid :: pid_t
  a_size :: u64
  free_space :: u64
  head :: region_struct
  regions :: "region_struct list"

type_synonym cursor = "region_struct list \<times> region_struct \<times> region_struct list"

section \<open>Operations on the regions of an area\<close>

definition add_region_after ::
  "bool \<Rightarrow> vmem \<Rightarrow> area_struct \<Rightarrow> region_struct list \<Rightarrow> region_struct list \<Rightarrow> u64
     \<Rightarrow> kfault + area_struct \<times> region_struct option" where
  "add_region_after ok V area upto_prev post sz =
     (if \<not> ok then Inr (area, None)
      else
        kbind (if upto_prev = [] then kbind (deref_null (vmas V) (a_vma area)) (\<lambda>vma. Inr (vm_start vma))
               else Inr (virtual_start (last upto_prev) + r_size (last upto_prev)))
          (\<lambda>start.
             let region = \<lparr>r_free = 0, r_size = sz, virtual_start = start\<rparr>
             in Inr (area\<lparr>free_space := free_space area - sz, regions := upto_prev @ region # post\<rparr>,
                     Some region)))"

definition merge_next :: "region_struct \<Rightarrow> region_struct list \<Rightarrow> region_struct \<times> region_struct list" where
  "merge_next region post =
     (case post of
        [] \<Rightarrow> (region, [])
      | next # rest \<Rightarrow>
          if r_free next = 1 then (region\<lparr>r_size := r_size region + r_size next\<rparr>, rest)
          else (region, post))"

definition remove_if_last ::
  "region_struct list \<Rightarrow> region_struct \<Rightarrow> region_struct list \<Rightarrow> region_struct list" where
  "remove_if_last pre region post = (if post = [] then pre else pre @ region # post)"

text \<open>
  The test \<open>region != first\<close> in front of the merge with \<open>prev\<close> compares the region itself
  with the list head and always succeeds, so for the first region \<open>prev\<close> is the head and
  its uninitialised \<open>free\<close> decides.  When it happens to be 1, the region is unlinked and
  the head takes its place; if no region is left, the head itself is freed, an address
  inside the area that \<open>kmalloc\<close> never returned.
\<close>

definition merge_neighbors_region ::
  "area_struct \<Rightarrow> region_struct list \<Rightarrow> region_struct \<Rightarrow> region_struct list \<Rightarrow> kfault + area_struct" where
  "merge_neighbors_region area pre region post =
     (case merge_next region post of (region', post') \<Rightarrow>
        if pre = [] then
          (if r_free (head area) = 1 then
             (if post' = [] then Inl BadFree
              else Inr (area\<lparr>head := (head area)\<lparr>r_size := r_size (head area) + r_size region'\<rparr>,
                              regions := post'\<rparr>))
           else Inr (area\<lparr>regions := remove_if_last [] region' post'\<rparr>))
        else if r_free (last pre) = 1 then
          Inr (area\<lparr>regions := remove_if_last (butlast pre)
                  ((last pre)\<lparr>r_size := r_size (last pre) + r_size region'\<rparr>) post'\<rparr>)
        else Inr (area\<lparr>regions := remove_if_last pre region' post'\<rparr>))"

fun get_free_region_loop ::
  "kenv \<Rightarrow> vmem \<Rightarrow> area_struct \<Rightarrow> u64 \<Rightarrow> region_struct list \<Rightarrow> region_struct list
     \<Rightarrow> kfault + area_struct \<times> region_struct option" where
  "get_free_region_loop E V area sz pre [] = Inr (area, None)"
| "get_free_region_loop E V area sz pre (region # post) =
     (if r_size region = sz \<and> r_free region = 1 then
        (let region' = region\<lparr>r_free := 0\<rparr>
         in Inr (area\<lparr>regions := pre @ region' # post\<rparr>, Some region'))
      else if r_size region > sz \<and> r_free region = 1 then
        (let region' = region\<lparr>r_free := 0, r_size := sz\<rparr>;
             area1 = area\<lparr>free_space := free_space area - sz, regions := pre @ region' # post\<rparr>
         in kbind (add_region_after (kmalloc_ok E AllocSplitRegion) V area1 (pre @ [region']) post
                     (r_size region - sz))
              (\<lambda>(area2, split).
                 case split of
                   None \<Rightarrow> Inr (area2, None)
                 | Some s \<Rightarrow>
                     kbind (merge_neighbors_region (area2\<lparr>free_space := free_space area2 + r_size s\<rparr>)
                              (pre @ [region']) (s\<lparr>r_free := 1\<rparr>) post)
                       (\<lambda>area3. Inr (area3, Some region'))))
      else get_free_region_loop E V area sz (pre @ [region]) post)"

definition get_free_region ::
  "kenv \<Rightarrow> vmem \<Rightarrow> area_struct \<Rightarrow> u64 \<Rightarrow> kfault + area_struct \<times> region_struct option" where
  "get_free_region E V area sz = get_free_region_loop E V area sz [] (regions area)"

definition add_region ::
  "kenv \<Rightarrow> vmem \<Rightarrow> area_struct \<Rightarrow> u64 \<Rightarrow> kfault + area_struct \<times> region_struct option" where
  "add_region E V area sz =
     kbind (get_free_region E V area sz) (\<lambda>(area', region).
       case region of
         Some r \<Rightarrow> Inr (area', Some r)
       | None \<Rightarrow> add_region_after (kmalloc_ok E AllocTailRegion) V area' (regions area') [] sz)"

text \<open>The first region that starts at the address, as a cursor.\<close>

definition get_region :: "area_struct \<Rightarrow> u64 \<Rightarrow> cursor option" where
  "get_region area address =
     (case dropWhile (\<lambda>r. virtual_start r \<noteq> address) (regions area) of
        [] \<Rightarrow> None
      | region # post \<Rightarrow>
          Some (takeWhile (\<lambda>r. virtual_start r \<noteq> address) (regions area), region, post))"

section \<open>Well-formed region lists\<close>

text \<open>
  What the operations keep true of the regions of an area whose VMA starts at \<open>b\<close>:
  the flags are 0 or 1; the regions follow each other without gap from \<open>b\<close> on; no two
  neighbours are both free; the last region is in use.
\<close>

fun tiled :: "u64 \<Rightarrow> region_struct list \<Rightarrow> bool" where
  "tiled b [] = True"
| "tiled b (r # rs) = (virtual_start r = b \<and> tiled (b + r_size r) rs)"

definition flags_ok :: "region_struct list \<Rightarrow> bool" where
  "flags_ok rs = list_all (\<lambda>r. r_free r = 0 \<or> r_free r = 1) rs"

definition coalesced :: "region_struct list \<Rightarrow> bool" where
  "coalesced rs = successively (\<lambda>x y. \<not> (r_free x = 1 \<and> r_free y = 1)) rs"

definition tail_used :: "region_struct list \<Rightarrow> bool" where
  "tail_used rs = (rs = [] \<or> r_free (last rs) = 0)"

definition regions_wf :: "u64 \<Rightarrow> region_struct list \<Rightarrow> bool" where
  "regions_wf b rs \<longleftrightarrow> flags_ok rs \<and> tiled b rs \<and> coalesced rs \<and> tail_used rs"

definition used :: "region_struct list \<Rightarrow> region_struct list" where
  "used rs = filter (\<lambda>r. r_free r = 0) rs"

text \<open>The sizes of all regions, on words; \<open>bytes\<close> is the same sum without wrap-around.\<close>

definition span :: "region_struct list \<Rightarrow> u64" where
  "span rs = sum_list (map r_size rs)"

definition bytes :: "region_struct list \<Rightarrow> nat" where
  "bytes rs = sum_list (map (\<lambda>r. unat (r_size r)) rs)"

lemma span_simps [simp]:
  "span [] = 0" "span (r # rs) = r_size r + span rs" "span (xs @ ys) = span xs + span ys"
  by (simp_all add: span_def)

lemma bytes_simps [simp]:
  "bytes [] = 0" "bytes (r # rs) = unat (r_size r) + bytes rs" "bytes (xs @ ys) = bytes xs + bytes ys"
  by (simp_all add: bytes_def)

lemma used_simps [simp]:
  "used [] = []" "used (r # rs) = (if r_free r = 0 then r # used rs else used rs)"
  "used (xs @ ys) = used xs @ used ys"
  by (simp_all add: used_def)

lemma flags_ok_simps [simp]:
  "flags_ok []" "flags_ok (r # rs) \<longleftrightarrow> (r_free r = 0 \<or> r_free r = 1) \<and> flags_ok rs"
  "flags_ok (xs @ ys) \<longleftrightarrow> flags_ok xs \<and> flags_ok ys"
  by (simp_all add: flags_ok_def)

lemma flags_ok_hd: "flags_ok rs \<Longrightarrow> rs \<noteq> [] \<Longrightarrow> r_free (hd rs) \<noteq> 1 \<Longrightarrow> r_free (hd rs) = 0"
  by (cases rs) auto

lemma tiled_append [simp]: "tiled b (xs @ ys) \<longleftrightarrow> tiled b xs \<and> tiled (b + span xs) ys"
  by (induction xs arbitrary: b) (auto simp: add.assoc)

lemma coalesced_simps [simp]:
  "coalesced []" "coalesced [r]"
  "coalesced (r # x # rs) \<longleftrightarrow> \<not> (r_free r = 1 \<and> r_free x = 1) \<and> coalesced (x # rs)"
  by (simp_all add: coalesced_def)

lemma coalesced_append:
  "coalesced (xs @ ys) \<longleftrightarrow> coalesced xs \<and> coalesced ys \<and>
     (xs = [] \<or> ys = [] \<or> \<not> (r_free (last xs) = 1 \<and> r_free (hd ys) = 1))"
  by (auto simp: coalesced_def successively_append_iff)

lemma coalesced_Cons:
  "coalesced (r # ys) \<longleftrightarrow> coalesced ys \<and> (ys = [] \<or> \<not> (r_free r = 1 \<and> r_free (hd ys) = 1))"
  by (cases ys) auto

lemma tail_used_simps [simp]:
  "tail_used []" "tail_used (xs @ r # ys) \<longleftrightarrow> (if ys = [] then r_free r = 0 else tail_used ys)"
  "tail_used [r] \<longleftrightarrow> r_free r = 0"
  by (auto simp: tail_used_def)

named_theorems region_list

lemmas [region_list] = regions_wf_def coalesced_append coalesced_Cons

text \<open>The end of the last region, where the next one will start.\<close>

lemma tiled_end: "tiled b rs \<Longrightarrow> rs \<noteq> [] \<Longrightarrow> virtual_start (last rs) + r_size (last rs) = b + span rs"
  by (cases rs rule: rev_cases) (auto simp: add.assoc)

section \<open>Merging\<close>

text \<open>
  The situation in which \<open>merge_neighbors_region\<close> is called: a free region between two
  lists that are in order by themselves.
\<close>

definition mergeable :: "u64 \<Rightarrow> region_struct list \<Rightarrow> region_struct \<Rightarrow> region_struct list \<Rightarrow> bool" where
  "mergeable b pre r post \<longleftrightarrow> r_free r = 1 \<and> flags_ok (pre @ post) \<and> tiled b (pre @ r # post) \<and>
     coalesced pre \<and> coalesced post \<and> tail_used post"

lemma merge_next_mergeable:
  assumes "mergeable b pre r post" and "merge_next r post = (r', post')"
  shows "mergeable b pre r' post' \<and> (post' = [] \<or> r_free (hd post') = 0) \<and>
    used post' = used post \<and> (post' = [] \<longrightarrow> post = [])"
  using assms flags_ok_hd [of post']
  by (cases post) (auto simp: mergeable_def merge_next_def region_list tail_used_def add.assoc
      split: if_splits)

lemma remove_if_last_wf:
  assumes "mergeable b pre r post"
    and "pre = [] \<or> r_free (last pre) = 0" and "post = [] \<or> r_free (hd post) = 0"
  shows "regions_wf b (remove_if_last pre r post) \<and> used (remove_if_last pre r post) = used (pre @ post)"
proof (cases "post = []")
  case True
  with assms show ?thesis
    by (auto simp: remove_if_last_def mergeable_def regions_wf_def tail_used_def)
next
  case False
  with assms show ?thesis
    by (auto simp: remove_if_last_def mergeable_def region_list)
qed

lemma mergeable_prev:
  assumes "mergeable b (ps @ [p]) r post" and "r_free p = 1"
  shows "mergeable b ps (p\<lparr>r_size := r_size p + r_size r\<rparr>) post \<and> (ps = [] \<or> r_free (last ps) = 0)"
  using assms by (auto simp: mergeable_def region_list add.assoc flags_ok_def list_all_iff)

lemma merge_neighbors_region_wf:
  assumes m: "mergeable b pre r post" and h: "r_free (head area) \<noteq> 1"
  shows "\<exists>rs. merge_neighbors_region area pre r post = Inr (area\<lparr>regions := rs\<rparr>) \<and>
    regions_wf b rs \<and> used rs = used (pre @ post)"
proof -
  obtain r' post' where mn: "merge_next r post = (r', post')" by fastforce
  from merge_next_mergeable [OF m mn] have m': "mergeable b pre r' post'"
    and post': "post' = [] \<or> r_free (hd post') = 0" and u: "used post' = used post" by auto
  have fin: "\<exists>rs. Inr (area\<lparr>regions := rs'\<rparr>) = Inr (area\<lparr>regions := rs\<rparr>) \<and> regions_wf b rs \<and>
      used rs = used (pre @ post)" if "regions_wf b rs' \<and> used rs' = used (pre @ post)" for rs'
    using that by blast
  show ?thesis
  proof (cases pre rule: rev_cases)
    case Nil
    with remove_if_last_wf [OF m' _ post'] u
    have "regions_wf b (remove_if_last [] r' post') \<and> used (remove_if_last [] r' post') = used (pre @ post)"
      by simp
    from fin [OF this] show ?thesis
      using Nil h mn by (simp add: merge_neighbors_region_def)
  next
    case (snoc ps p)
    show ?thesis
    proof (cases "r_free p = 1")
      case True
      define p' where "p' = p\<lparr>r_size := r_size p + r_size r'\<rparr>"
      from mergeable_prev [OF m' [unfolded snoc] True, folded p'_def] remove_if_last_wf [OF _ _ post'] snoc True u
      have "regions_wf b (remove_if_last ps p' post') \<and> used (remove_if_last ps p' post') = used (pre @ post)"
        unfolding p'_def [symmetric] by fastforce
      from fin [OF this] show ?thesis
        using snoc True mn by (simp add: merge_neighbors_region_def p'_def)
    next
      case False
      with m' snoc have "r_free p = 0" by (auto simp: mergeable_def)
      with remove_if_last_wf [OF m' _ post'] snoc u
      have "regions_wf b (remove_if_last pre r' post') \<and> used (remove_if_last pre r' post') = used (pre @ post)"
        by simp
      from fin [OF this] show ?thesis
        using snoc False mn by (simp add: merge_neighbors_region_def)
    qed
  qed
qed

section \<open>Allocating a region\<close>

text \<open>The free regions that a request of \<open>sz\<close> bytes can use.\<close>

definition fits :: "u64 \<Rightarrow> region_struct \<Rightarrow> bool" where
  "fits sz r \<longleftrightarrow> r_free r = 1 \<and> sz \<le> r_size r"

lemma get_free_region_loop_none:
  "\<forall>r\<in>set rs. \<not> fits sz r \<Longrightarrow> get_free_region_loop E V area sz pre rs = Inr (area, None)"
  by (induction rs arbitrary: pre) (auto simp: fits_def)

lemma get_free_region_loop_skip:
  "\<forall>r\<in>set xs. \<not> fits sz r \<Longrightarrow>
     get_free_region_loop E V area sz pre (xs @ ys) = get_free_region_loop E V area sz (pre @ xs) ys"
  by (induction xs arbitrary: pre) (auto simp: fits_def)

lemma get_free_region_none:
  "\<forall>r\<in>set (regions area). \<not> fits sz r \<Longrightarrow> get_free_region E V area sz = Inr (area, None)"
  by (simp add: get_free_region_def get_free_region_loop_none)

lemma get_free_region_exact:
  assumes "regions area = pre @ r # post" and "\<forall>x\<in>set pre. \<not> fits sz x"
    and "r_free r = 1" and "r_size r = sz"
  shows "get_free_region E V area sz =
    Inr (area\<lparr>regions := pre @ r\<lparr>r_free := 0\<rparr> # post\<rparr>, Some (r\<lparr>r_free := 0\<rparr>))"
  using assms by (simp add: get_free_region_def get_free_region_loop_skip Let_def)

text \<open>
  Splitting: behind a free region of a well-formed list comes a used one, so the rest of the
  region becomes a free region of its own and nothing is merged or trimmed.
\<close>

lemma get_free_region_split:
  assumes "regions area = pre @ r # post" and "\<forall>x\<in>set pre. \<not> fits sz x"
    and "r_free r = 1" and "sz < r_size r"
    and wf: "regions_wf b (regions area)" and ok: "kmalloc_ok E AllocSplitRegion"
  shows "get_free_region E V area sz =
    Inr (area\<lparr>free_space := free_space area - sz,
              regions := pre @ r\<lparr>r_free := 0, r_size := sz\<rparr>
                           # \<lparr>r_free = 1, r_size = r_size r - sz, virtual_start = virtual_start r + sz\<rparr> # post\<rparr>,
         Some (r\<lparr>r_free := 0, r_size := sz\<rparr>))"
proof -
  from wf assms(1,3) have "post \<noteq> []" and "r_free (hd post) \<noteq> 1"
    by (auto simp: region_list)
  then obtain n ns where post: "post = n # ns" and n: "r_free n \<noteq> 1" by (cases post) auto
  have "r_size r \<noteq> sz" using assms(4) by auto
  then have "get_free_region E V area sz = get_free_region_loop E V area sz pre (r # post)"
    using assms(1,2) by (simp add: get_free_region_def get_free_region_loop_skip)
  then show ?thesis
    using assms(3,4) ok n \<open>r_size r \<noteq> sz\<close>
    by (simp add: post add_region_after_def merge_neighbors_region_def merge_next_def
        remove_if_last_def Let_def)
qed

lemma add_region_tail:
  assumes "\<forall>r\<in>set (regions area). \<not> fits sz r" and "tiled b (regions area)"
    and "a_vma area = Some v" and "vmas V v = Some vma" and "vm_start vma = b"
    and "kmalloc_ok E AllocTailRegion"
  shows "add_region E V area sz =
    Inr (area\<lparr>free_space := free_space area - sz,
              regions := regions area @ [\<lparr>r_free = 0, r_size = sz, virtual_start = b + span (regions area)\<rparr>]\<rparr>,
         Some \<lparr>r_free = 0, r_size = sz, virtual_start = b + span (regions area)\<rparr>)"
  using assms tiled_end [OF assms(2)]
  by (simp add: add_region_def get_free_region_none add_region_after_def Let_def)

text \<open>The three ways a request is served, and what each does to the region list.\<close>

lemma fits_split:
  obtains "\<forall>r\<in>set rs. \<not> fits sz r"
  | pre r post where "rs = pre @ r # post" "\<forall>x\<in>set pre. \<not> fits sz x" "r_free r = 1" "r_size r = sz"
  | pre r post where "rs = pre @ r # post" "\<forall>x\<in>set pre. \<not> fits sz x" "r_free r = 1" "sz < r_size r"
proof (cases "\<exists>r\<in>set rs. fits sz r")
  case True
  from split_list_first_prop [OF this] obtain pre r post
    where rs: "rs = pre @ r # post" "fits sz r" "\<forall>x\<in>set pre. \<not> fits sz x" by blast
  show ?thesis
  proof (cases "r_size r = sz")
    case True
    with rs that(2) show ?thesis by (auto simp: fits_def)
  next
    case False
    then have "sz < r_size r" using rs(2) by (auto simp: fits_def)
    with rs that(3) show ?thesis by (auto simp: fits_def)
  qed
qed (use that(1) in blast)

lemma regions_wf_exact:
  "regions_wf b (pre @ r # post) \<Longrightarrow> r_free r = 1 \<Longrightarrow> regions_wf b (pre @ r\<lparr>r_free := 0\<rparr> # post)"
  by (auto simp: region_list)

lemma regions_wf_split:
  assumes "regions_wf b (pre @ r # post)" and "r_free r = 1"
  shows "regions_wf b (pre @ r\<lparr>r_free := 0, r_size := sz\<rparr>
    # \<lparr>r_free = 1, r_size = r_size r - sz, virtual_start = virtual_start r + sz\<rparr> # post)"
  using assms by (cases post) (auto simp: region_list tail_used_def add.assoc)

lemma regions_wf_snoc:
  assumes "regions_wf b rs"
  shows "regions_wf b (rs @ [\<lparr>r_free = 0, r_size = sz, virtual_start = b + span rs\<rparr>])"
  using assms by (auto simp: region_list tail_used_def)

lemma add_region_wf:
  assumes wf: "regions_wf b (regions area)"
    and v: "a_vma area = Some v" "vmas V v = Some vma" "vm_start vma = b"
    and ok: "kmalloc_ok E AllocSplitRegion" "kmalloc_ok E AllocTailRegion"
  obtains rs fs r xs ys where
    "add_region E V area sz = Inr (area\<lparr>free_space := fs, regions := rs\<rparr>, Some r)"
    "regions_wf b rs" "r_free r = 0" "r_size r = sz" "r \<in> set rs"
    "used (regions area) = xs @ ys" "used rs = xs @ r # ys"
    "(\<exists>x\<in>set (regions area). fits sz x \<and> virtual_start r = virtual_start x) \<or>
       virtual_start r = b + span (regions area)"
proof (cases rule: fits_split [of "regions area" sz])
  case 1
  from wf have t: "tiled b (regions area)" by (simp add: regions_wf_def)
  from that [OF add_region_tail [OF 1 t v ok(2)] regions_wf_snoc [OF wf], of "used (regions area)" "[]"]
  show ?thesis by simp
next
  case (2 pre r post)
  let ?r = "r\<lparr>r_free := 0\<rparr>"
  have "add_region E V area sz = Inr (area\<lparr>free_space := free_space area, regions := pre @ ?r # post\<rparr>, Some ?r)"
    using get_free_region_exact [OF 2] by (simp add: add_region_def)
  from that [OF this regions_wf_exact [OF wf [unfolded 2(1)] 2(3)], of "used pre" "used post"] 2
  show ?thesis by (auto simp: fits_def)
next
  case (3 pre r post)
  let ?r = "r\<lparr>r_free := 0, r_size := sz\<rparr>"
  let ?s = "\<lparr>r_free = 1, r_size = r_size r - sz, virtual_start = virtual_start r + sz\<rparr>"
  have "add_region E V area sz =
      Inr (area\<lparr>free_space := free_space area - sz, regions := pre @ ?r # ?s # post\<rparr>, Some ?r)"
    using get_free_region_split [OF 3 wf ok(1)] by (simp add: add_region_def)
  from that [OF this regions_wf_split [OF wf [unfolded 3(1)] 3(3)], of "used pre" "used post"] 3
  show ?thesis by (auto simp: fits_def less_imp_le [OF 3(4)])
qed

section \<open>Giving a region back\<close>

lemma get_region_Some:
  assumes "get_region area address = Some (pre, r, post)"
  shows "regions area = pre @ r # post" and "virtual_start r = address"
    and "\<forall>x\<in>set pre. virtual_start x \<noteq> address"
proof -
  from assms obtain rest where dw: "dropWhile (\<lambda>r. virtual_start r \<noteq> address) (regions area) = r # post"
    and pre: "pre = takeWhile (\<lambda>r. virtual_start r \<noteq> address) (regions area)"
    by (auto simp: get_region_def split: list.splits)
  show "regions area = pre @ r # post"
    by (metis dw pre takeWhile_dropWhile_id)
  show "virtual_start r = address"
    using hd_dropWhile [of "\<lambda>r. virtual_start r \<noteq> address" "regions area"] dw by auto
  show "\<forall>x\<in>set pre. virtual_start x \<noteq> address"
    using set_takeWhileD pre by fastforce
qed

lemma get_region_None:
  "get_region area address = None \<longleftrightarrow> (\<forall>r\<in>set (regions area). virtual_start r \<noteq> address)"
proof -
  have "get_region area address = None \<longleftrightarrow>
      dropWhile (\<lambda>r. virtual_start r \<noteq> address) (regions area) = []"
    by (simp add: get_region_def del: dropWhile_eq_Nil_conv split: list.split)
  then show ?thesis by (simp only: dropWhile_eq_Nil_conv)
qed

lemma regions_wf_mergeable:
  "regions_wf b (pre @ r # post) \<Longrightarrow> mergeable b pre (r\<lparr>r_free := 1\<rparr>) post"
  by (auto simp: mergeable_def region_list tail_used_def split: if_splits)

lemma release_wf:
  assumes "regions_wf b (pre @ r # post)" and "r_free (head area) \<noteq> 1"
  obtains rs where
    "merge_neighbors_region area pre (r\<lparr>r_free := 1\<rparr>) post = Inr (area\<lparr>regions := rs\<rparr>)"
    "regions_wf b rs" "used rs = used pre @ used post"
  using merge_neighbors_region_wf [OF regions_wf_mergeable [OF assms(1)] assms(2)] by auto

section \<open>Regions do not overlap\<close>

definition r_end :: "region_struct \<Rightarrow> nat" where
  "r_end r = unat (virtual_start r) + unat (r_size r)"

text \<open>In a tiled list whose total size fits into the address space, regions are disjoint.\<close>

lemma tiled_bounds:
  assumes "tiled b rs" and "unat b + bytes rs < 2 ^ 64" and "r \<in> set rs"
  shows "unat b \<le> unat (virtual_start r) \<and> r_end r \<le> unat b + bytes rs"
  using assms
proof (induction rs arbitrary: b)
  case (Cons x xs)
  have nb: "unat (b + r_size x) = unat b + unat (r_size x)"
    using Cons.prems(2) by (intro unat_plus_no_wrap) simp
  show ?case
  proof (cases "r = x")
    case True
    with Cons.prems show ?thesis by (auto simp: r_end_def)
  next
    case False
    with Cons.prems have "r \<in> set xs" "tiled (b + r_size x) xs"
      "unat (b + r_size x) + bytes xs < 2 ^ 64"
      by (auto simp: nb)
    then have "unat (b + r_size x) \<le> unat (virtual_start r) \<and>
        r_end r \<le> unat (b + r_size x) + bytes xs"
      using Cons.IH by blast
    with nb show ?thesis by simp
  qed
qed simp

lemma tiled_sorted:
  assumes "tiled b rs" and "unat b + bytes rs < 2 ^ 64"
  shows "sorted_wrt (\<lambda>x y. r_end x \<le> unat (virtual_start y)) rs"
  using assms
proof (induction rs arbitrary: b)
  case (Cons x xs)
  have nb: "unat (b + r_size x) = unat b + unat (r_size x)"
    using Cons.prems(2) by (intro unat_plus_no_wrap) simp
  have "r_end x \<le> unat (virtual_start y)" if "y \<in> set xs" for y
    using tiled_bounds [of "b + r_size x" xs y] Cons.prems nb that by (auto simp: r_end_def)
  then show ?case using Cons nb by auto
qed simp

lemma sorted_wrt_filter_used: "sorted_wrt R rs \<Longrightarrow> sorted_wrt R (used rs)"
  unfolding used_def by (rule sorted_wrt_filter)

lemma tiled_span_bytes: "unat b + bytes rs < 2 ^ 64 \<Longrightarrow> unat (b + span rs) = unat b + bytes rs"
proof (induction rs arbitrary: b)
  case (Cons x xs)
  have nb: "unat (b + r_size x) = unat b + unat (r_size x)"
    using Cons.prems by (intro unat_plus_no_wrap) simp
  with Cons.IH [of "b + r_size x"] Cons.prems show ?case by (simp add: add.assoc)
qed simp

end
