(* ===== verification/Area.thy ===== *)
theory Area
  imports Region
begin

text \<open>
  \<open>src/src/area.c\<close>, the part that works on the list of areas of all processes: finding or
  making room for a request, finding the area and region of an address, and giving a region
  back.
\<close>

section \<open>Operations on areas\<close>

definition extend_vma :: "vmem \<Rightarrow> area_struct \<Rightarrow> u64 \<Rightarrow> kfault + int \<times> vmem \<times> area_struct" where
  "extend_vma V area sz =
     (let extra = align_ceil (a_size area + sz - free_space area) PAGE_SHIFT - a_size area in
      kbind (is_last_vma V (a_vma area)) (\<lambda>is_last.
      kbind (deref_null (vmas V) (a_vma area)) (\<lambda>vma.
      kbind (if is_last then Inr True
             else kbind (vm_next V (the (a_vma area))) (\<lambda>nxt.
                  kbind (deref_null (vmas V) nxt) (\<lambda>n. Inr (vm_start n > vm_end vma + extra))))
        (\<lambda>can.
           if can then
             Inr (0, V\<lparr>vmas := (vmas V)(the (a_vma area) \<mapsto> vma\<lparr>vm_end := vm_end vma + extra\<rparr>)\<rparr>,
                  area\<lparr>a_size := a_size area + extra, free_space := free_space area + extra\<rparr>)
           else Inr (- 1, V, area)))))"

definition add_area_struct :: "kenv \<Rightarrow> u64 \<Rightarrow> pid_t \<Rightarrow> kfault + area_struct" where
  "add_area_struct E sz pid =
     (if \<not> kmalloc_ok E AllocArea then Inl NullDeref
      else Inr \<lparr>a_vma = None, a_pid = pid, a_size = sz, free_space = sz,
                head = \<lparr>r_free = junk_int E, r_size = junk_long E, virtual_start = junk_long E\<rparr>,
                regions = []\<rparr>)"

text \<open>The first loop of \<open>get_area_container\<close>: the index of the area it returns.\<close>

fun scan_areas :: "u64 \<Rightarrow> pid_t \<Rightarrow> vmem \<Rightarrow> area_struct list \<Rightarrow> kfault + vmem \<times> area_struct list \<times> nat option" where
  "scan_areas sz pid V [] = Inr (V, [], None)"
| "scan_areas sz pid V (area # areas) =
     (let continue = kbind (scan_areas sz pid V areas)
            (\<lambda>(V', areas', i). Inr (V', area # areas', map_option Suc i))
      in if a_pid area = pid then
           (if free_space area \<ge> sz then Inr (V, area # areas, Some 0)
            else kbind (extend_vma V area sz) (\<lambda>(res, V', area').
                   if res = 0 then Inr (V', area' # areas, Some 0) else continue))
         else continue)"

definition get_area_container ::
  "kenv \<Rightarrow> vmem \<Rightarrow> u64 \<Rightarrow> task \<Rightarrow> area_struct list \<Rightarrow> nat \<Rightarrow> kfault + vmem \<times> area_struct list \<times> nat option" where
  "get_area_container E V sz task area_list ops =
     kbind (scan_areas sz (t_pid task) V area_list) (\<lambda>(V1, areas, found).
       case found of
         Some i \<Rightarrow> Inr (V1, areas, Some i)
       | None \<Rightarrow>
           (let sz' = align_ceil sz VMA_SHIFT in
            kbind (add_area_struct E sz' (t_pid task)) (\<lambda>area.
            kbind (add_vma E V1 task task ops sz') (\<lambda>(V2, vma).
              Inr (V2, areas @ [area\<lparr>a_vma := vma\<rparr>],
                   if vma = None then None else Some (length areas))))))"

definition create_region ::
  "kenv \<Rightarrow> vmem \<Rightarrow> u64 \<Rightarrow> task \<Rightarrow> area_struct list \<Rightarrow> nat
     \<Rightarrow> kfault + vmem \<times> area_struct list \<times> region_struct option" where
  "create_region E V sz task area_list ops =
     kbind (get_area_container E V sz task area_list ops) (\<lambda>(V', areas, area).
       case area of
         None \<Rightarrow> Inr (V', areas, None)
       | Some i \<Rightarrow> kbind (add_region E V' (areas ! i) sz) (\<lambda>(a, region).
                     Inr (V', areas[i := a], region)))"

text \<open>The area containing an address, as its index.\<close>

fun get_area :: "vmem \<Rightarrow> pid_t \<Rightarrow> u64 \<Rightarrow> area_struct list \<Rightarrow> kfault + nat option" where
  "get_area V pid address [] = Inr None"
| "get_area V pid address (area # areas) =
     (let continue = kbind (get_area V pid address areas) (\<lambda>i. Inr (map_option Suc i))
      in if a_pid area = pid then
           kbind (deref_null (vmas V) (a_vma area)) (\<lambda>vma.
             if address \<ge> vm_start vma \<and> address < vm_end vma then Inr (Some 0) else continue)
         else continue)"

text \<open>
  \<open>remove_region\<close> up to its last statement: the second result is the argument of the final
  call \<open>remove_vma(area->vma)\<close>, if that call is made.  The call reenters this module through
  the \<open>close\<close> handler and is made in \<open>GenericMalloc\<close>.
\<close>

definition remove_region ::
  "vmem \<Rightarrow> pid_t \<Rightarrow> u64 \<Rightarrow> area_struct list \<Rightarrow> kfault + area_struct list \<times> vid option option" where
  "remove_region V pid address area_list =
     kbind (get_area V pid address area_list) (\<lambda>found.
       case found of
         None \<Rightarrow> Inr (area_list, None)
       | Some i \<Rightarrow>
           (let area = area_list ! i in
            case get_region area address of
              None \<Rightarrow> Inr (area_list, None)
            | Some (pre, region, post) \<Rightarrow>
                kbind (merge_neighbors_region (area\<lparr>free_space := free_space area + r_size region\<rparr>)
                         pre (region\<lparr>r_free := 1\<rparr>) post)
                  (\<lambda>area'. Inr (area_list[i := area'],
                                if regions area' = [] then Some (a_vma area') else None))))"

definition is_valid_address :: "u64 \<Rightarrow> vid \<Rightarrow> area_struct list \<Rightarrow> bool" where
  "is_valid_address address vma area_list =
     list_ex (\<lambda>area. a_vma area = Some vma \<and>
       list_ex (\<lambda>region.
         let start = align_floor (virtual_start region) PAGE_SHIFT;
             fin = align_ceil (virtual_start region + r_size region) PAGE_SHIFT
         in address \<ge> start \<and> address < fin \<and> r_free region = 0) (regions area)) area_list"

fun get_area_count :: "pid_t \<Rightarrow> area_struct list \<Rightarrow> nat" where
  "get_area_count pid [] = 0"
| "get_area_count pid (area # areas) =
     (if a_pid area = pid then Suc (get_area_count pid areas) else get_area_count pid areas)"

definition init_area_list :: "area_struct list" where
  "init_area_list = []"

text \<open>Every region of every area is unlinked and freed, then the area.\<close>

fun remove_area_list :: "area_struct list \<Rightarrow> area_struct list" where
  "remove_area_list [] = []"
| "remove_area_list (area # areas) = remove_area_list areas"

section \<open>Well-formed areas\<close>

text \<open>
  An area and its VMA: the VMA is live and linked, the sizes agree, the regions tile it from
  its start; the \<open>free\<close> field of the list head does not happen to be 1.
\<close>

definition area_ok :: "vmem \<Rightarrow> area_struct \<Rightarrow> bool" where
  "area_ok V a \<longleftrightarrow> r_free (head a) \<noteq> 1 \<and>
     (\<exists>v vma. a_vma a = Some v \<and> vmas V v = Some vma \<and> v \<in> set (mmap V (vm_mm vma)) \<and>
        a_size a = vm_end vma - vm_start vma \<and> regions_wf (vm_start vma) (regions a))"

definition areas_ok :: "vmem \<Rightarrow> area_struct list \<Rightarrow> bool" where
  "areas_ok V as \<longleftrightarrow> (\<forall>a\<in>set as. area_ok V a) \<and> distinct (map a_vma as)"

lemma area_okE:
  assumes "area_ok V a"
  obtains v vma where "a_vma a = Some v" "vmas V v = Some vma" "v \<in> set (mmap V (vm_mm vma))"
    "a_size a = vm_end vma - vm_start vma" "regions_wf (vm_start vma) (regions a)" "r_free (head a) \<noteq> 1"
  using assms unfolding area_ok_def by blast

section \<open>Extending a VMA\<close>

lemma mm_wf_extend:
  assumes wf: "mm_wf V m" and v: "v \<in> set (mmap V m)" "vmas V v = Some a" and e: "vm_end a \<le> e"
    and nxt: "\<And>w b. succ_in v (mmap V m) = Some w \<Longrightarrow> vmas V w = Some b \<Longrightarrow> e \<le> vm_start b"
  shows "mm_wf (V\<lparr>vmas := (vmas V)(v \<mapsto> a\<lparr>vm_end := e\<rparr>)\<rparr>) m"
proof -
  let ?V = "V\<lparr>vmas := (vmas V)(v \<mapsto> a\<lparr>vm_end := e\<rparr>)\<rparr>"
  from v(1) obtain pre post where l: "mmap V m = pre @ v # post" by (auto dest: split_list)
  from wf have dist: "v \<notin> set pre" "v \<notin> set post" and srt: "sorted_wrt (before V) (pre @ v # post)"
    by (auto simp: mm_wf_def l)
  have same: "before ?V u w = before V u w" if "u \<noteq> v" for u w
    using that v(2) by (auto simp: before_def)
  have after: "before ?V v w" if w: "w \<in> set post" for w
  proof -
    from w obtain n ns where post: "post = n # ns" by (cases post) auto
    have "succ_in v (mmap V m) = Some n"
      using dist(1) unfolding l post by (rule succ_in_mid)
    moreover from post l have "n \<in> set (mmap V m)" by simp
    from mm_wfD [OF wf this] obtain b where b: "vmas V n = Some b" "vm_start b \<le> vm_end b" .
    ultimately have eb: "e \<le> vm_start b" using nxt by blast
    have "w = n \<or> before V n w" using srt w post by (auto simp: sorted_wrt_append)
    then show ?thesis
      using eb b dist w by (auto simp: before_def)
  qed
  have keep: "sorted_wrt (before ?V) xs" if "sorted_wrt (before V) xs" "v \<notin> set xs" for xs
    using that(1) by (rule sorted_wrt_mono_rel [rotated]) (use that(2) same in metis)
  have "sorted_wrt (before ?V) pre" and "sorted_wrt (before ?V) post"
    using srt dist by (simp_all add: keep sorted_wrt_append)
  moreover have "before ?V u w" if u: "u \<in> set pre" and w: "w \<in> set (v # post)" for u w
  proof -
    from srt u w have "before V u w" by (auto simp: sorted_wrt_append)
    moreover from u dist have "u \<noteq> v" by blast
    ultimately show ?thesis using same by metis
  qed
  ultimately have "sorted_wrt (before ?V) (pre @ v # post)"
    using after by (simp add: sorted_wrt_append)
  moreover have "\<exists>b. vmas ?V u = Some b \<and> vm_mm b = m \<and> u < next_vid ?V \<and> PAGE_SIZE \<le> vm_start b \<and>
      vm_start b \<le> vm_end b" if u: "u \<in> set (mmap V m)" for u
  proof -
    from mm_wfD [OF wf u] obtain b where "vmas V u = Some b" "vm_mm b = m" "u < next_vid V"
      "PAGE_SIZE \<le> vm_start b" "vm_start b \<le> vm_end b" .
    with v(2) e show ?thesis by (cases "u = v") auto
  qed
  ultimately show ?thesis using wf by (simp add: mm_wf_def l)
qed

text \<open>
  The growth \<open>extend_vma\<close> computes, when the request does not fit the free space: at least
  what is missing, at most a page more, ending on a page boundary.
\<close>

lemma extend_extra:
  fixes area sz
  defines "extra \<equiv> align_ceil (a_size area + sz - free_space area) PAGE_SHIFT - a_size area"
  assumes "free_space area < sz" and "unat (a_size area) + unat sz \<le> 2 ^ 63"
  shows "unat sz \<le> unat (free_space area) + unat extra"
    and "unat (free_space area) + unat extra < unat sz + 4096"
    and "4096 dvd unat (a_size area) + unat extra"
proof -
  define n where "n = unat (a_size area) + (unat sz - unat (free_space area))"
  have lt: "unat (free_space area) < unat sz" using assms(2) by (simp add: word_less_nat_alt)
  have "unat (sz - free_space area) = unat sz - unat (free_space area)"
    using assms(2) by (simp add: unat_sub less_imp_le)
  moreover have "a_size area + sz - free_space area = a_size area + (sz - free_space area)"
    by simp
  ultimately have n: "unat (a_size area + sz - free_space area) = n"
    using assms(3) by (simp only: n_def) (subst unat_plus_no_wrap, simp_all)
  have small: "n \<le> 2 ^ 63" using assms(3) lt by (simp add: n_def)
  then have c: "unat (align_ceil (a_size area + sz - free_space area) PAGE_SHIFT) = round_up 12 n"
    by (subst unat_align_ceil_page) (simp_all add: n)
  have ge: "n \<le> round_up 12 n" and less: "round_up 12 n < n + 4096"
    using round_up_ge [of n 12] round_up_less [of 12 n] by simp_all
  have "a_size area \<le> align_ceil (a_size area + sz - free_space area) PAGE_SHIFT"
    using ge by (simp add: word_le_nat_alt c n_def)
  then have x: "unat extra = round_up 12 n - unat (a_size area)"
    unfolding extra_def by (simp only: unat_sub c)
  show "unat sz \<le> unat (free_space area) + unat extra"
    and "unat (free_space area) + unat extra < unat sz + 4096"
    using ge less lt by (simp_all add: x n_def)
  have "unat (a_size area) + unat extra = round_up 12 n" using ge by (simp add: x n_def)
  then show "4096 dvd unat (a_size area) + unat extra"
    using round_up_dvd [of 12 n] by simp
qed

text \<open>
  Requests and addresses are far below \<open>2 ^ 64\<close>: the user part of the address space of the
  target ends at \<open>2 ^ 47\<close>.
\<close>

definition bounded :: "vmem \<Rightarrow> u64 \<Rightarrow> bool" where
  "bounded V sz \<longleftrightarrow> unat sz \<le> 2 ^ 62 \<and>
     (\<forall>v vma. vmas V v = Some vma \<longrightarrow> unat (vm_end vma) \<le> 2 ^ 62)"

text \<open>An area whose VMA has grown in place, or not changed.\<close>

definition grow_vma :: "vmem \<Rightarrow> vid \<Rightarrow> vm_area \<Rightarrow> u64 \<Rightarrow> vmem" where
  "grow_vma V v vma extra = V\<lparr>vmas := (vmas V)(v \<mapsto> vma\<lparr>vm_end := vm_end vma + extra\<rparr>)\<rparr>"

definition grow_area :: "area_struct \<Rightarrow> u64 \<Rightarrow> area_struct" where
  "grow_area a extra = a\<lparr>a_size := a_size a + extra, free_space := free_space a + extra\<rparr>"

lemma extend_vma_spec:
  assumes sp: "spaces_ok V" and v: "a_vma area = Some v" "vmas V v = Some vma"
    "v \<in> set (mmap V (vm_mm vma))" and sz: "a_size area = vm_end vma - vm_start vma"
    and lt: "free_space area < sz" and bd: "bounded V sz"
  obtains (no) "extend_vma V area sz = Inr (- 1, V, area)"
  | (yes) extra where "extend_vma V area sz = Inr (0, grow_vma V v vma extra, grow_area area extra)"
      "unat sz \<le> unat (free_space area) + unat extra"
      "unat (free_space area) + unat extra < unat sz + 4096"
      "4096 dvd unat (a_size area) + unat extra"
      "unat (vm_end vma + extra) = unat (vm_end vma) + unat extra"
      "spaces_ok (grow_vma V v vma extra)"
proof -
  define extra where "extra = align_ceil (a_size area + sz - free_space area) PAGE_SHIFT - a_size area"
  have wf: "mm_wf V m" for m using sp by (simp add: spaces_ok_def)
  from mm_wfD [OF wf v(3)] v(2) have "vm_start vma \<le> vm_end vma" by auto
  then have "unat (a_size area) \<le> 2 ^ 62"
    using bd v(2) by (simp add: sz unat_sub bounded_def) (meson diff_le_self le_trans)
  then have b: "unat (a_size area) + unat sz \<le> 2 ^ 63" using bd by (simp add: bounded_def)
  note ex = extend_extra [OF lt b, folded extra_def]
  have nw: "unat (vm_end vma + extra) = unat (vm_end vma) + unat extra"
    using ex(2) bd v(2) by (intro unat_plus_no_wrap) (fastforce simp: bounded_def)
  define nxt where "nxt = succ_in v (mmap V (vm_mm vma))"
  have live: "\<exists>b. vmas V w = Some b" if "nxt = Some w" for w
  proof -
    have "w \<in> set (mmap V (vm_mm vma))"
      using succ_in_Some [OF that [unfolded nxt_def]] by auto
    from mm_wfD [OF wf this] show ?thesis by blast
  qed
  have eq: "extend_vma V area sz =
    (if \<forall>w b. nxt = Some w \<longrightarrow> vmas V w = Some b \<longrightarrow> vm_end vma + extra < vm_start b
     then Inr (0, grow_vma V v vma extra, grow_area area extra) else Inr (- 1, V, area))"
    using v live
    by (cases nxt) (auto simp: extend_vma_def is_last_vma_def vm_next_def Let_def nxt_def
        extra_def [symmetric] grow_vma_def grow_area_def deref_def split: option.splits)
  show ?thesis
  proof (cases "\<forall>w b. nxt = Some w \<longrightarrow> vmas V w = Some b \<longrightarrow> vm_end vma + extra < vm_start b")
    case True
    have e: "vm_end vma \<le> vm_end vma + extra" by (simp add: word_le_nat_alt nw)
    have "mm_wf (grow_vma V v vma extra) m" for m
    proof (cases "m = vm_mm vma")
      case True': True
      show ?thesis unfolding True' grow_vma_def
        by (rule mm_wf_extend [OF wf v(3,2) e])
          (use True in \<open>auto simp: nxt_def intro: less_imp_le\<close>)
    next
      case False
      have "v \<notin> set (mmap V m)"
        using mm_wfD [OF wf, of v m] v(2) False by auto
      then show ?thesis
        by (intro mm_wf_cong [OF wf [of m]]) (auto simp: grow_vma_def)
    qed
    moreover have "vids_fresh (grow_vma V v vma extra)"
      using sp v(2) by (auto simp: spaces_ok_def vids_fresh_def grow_vma_def)
    ultimately have "spaces_ok (grow_vma V v vma extra)" by (simp add: spaces_ok_def)
    with True eq show ?thesis using yes ex nw by simp
  next
    case False
    then show ?thesis using eq no by (simp only: if_False)
  qed
qed

section \<open>Finding room for a request\<close>

text \<open>
  What \<open>scan_areas\<close> may do to the state when it answers the area at index \<open>i\<close>: nothing, or
  grow the VMA of that area by \<open>extra\<close>.
\<close>

definition served ::
  "u64 \<Rightarrow> vmem \<Rightarrow> area_struct \<Rightarrow> vmem \<Rightarrow> area_struct \<Rightarrow> bool" where
  "served sz V a V' a' \<longleftrightarrow> sz \<le> free_space a' \<and>
     (V' = V \<and> a' = a \<or>
      (\<exists>v vma extra. a_vma a = Some v \<and> vmas V v = Some vma \<and> V' = grow_vma V v vma extra \<and>
         a' = grow_area a extra \<and> spaces_ok V' \<and>
         unat (vm_end vma + extra) = unat (vm_end vma) + unat extra \<and>
         unat (free_space a') < unat sz + 4096 \<and> 4096 dvd unat (a_size a) + unat extra))"

lemma served_extend:
  assumes "spaces_ok V" and "area_ok V a" and "free_space a < sz" and "bounded V sz"
  shows "extend_vma V a sz = Inr (- 1, V, a) \<or>
    (\<exists>V' a'. extend_vma V a sz = Inr (0, V', a') \<and> served sz V a V' a')"
proof -
  from assms(2) obtain v vma where v: "a_vma a = Some v" "vmas V v = Some vma"
    "v \<in> set (mmap V (vm_mm vma))" "a_size a = vm_end vma - vm_start vma"
    by (rule area_okE)
  from assms(1) v assms(3,4) show ?thesis
  proof (cases rule: extend_vma_spec)
    case (yes extra)
    have "unat (free_space a + extra) = unat (free_space a) + unat extra"
      using yes(3) assms(4) by (intro unat_plus_no_wrap) (simp add: bounded_def)
    with yes v show ?thesis
      by (intro disjI2 exI [of _ "grow_vma V v vma extra"] exI [of _ "grow_area a extra"])
        (auto simp: served_def grow_area_def word_le_nat_alt)
  qed simp
qed

lemma scan_areas_spec:
  assumes "spaces_ok V" and "\<forall>a\<in>set as. area_ok V a" and "bounded V sz"
  shows "scan_areas sz pid V as = Inr (V, as, None) \<or>
    (\<exists>i V' a'. scan_areas sz pid V as = Inr (V', as[i := a'], Some i) \<and> i < length as \<and>
       a_pid (as ! i) = pid \<and> served sz V (as ! i) V' a')"
  using assms(2)
proof (induction as)
  case (Cons a as)
  have cont: "?case" if "scan_areas sz pid V (a # as) = kbind (scan_areas sz pid V as)
      (\<lambda>(V', areas', i). Inr (V', a # areas', map_option Suc i))"
    using Cons that by (fastforce intro: exI [of _ "Suc _"])
  show ?case
  proof (cases "a_pid a = pid")
    case pid: True
    show ?thesis
    proof (cases "sz \<le> free_space a")
      case True
      with pid show ?thesis
        by (intro disjI2 exI [of _ 0] exI [of _ V] exI [of _ a]) (simp add: served_def)
    next
      case False
      then have "free_space a < sz" by simp
      from served_extend [OF assms(1) _ this assms(3)] Cons.prems
      consider "extend_vma V a sz = Inr (- 1, V, a)"
        | V' a' where "extend_vma V a sz = Inr (0, V', a')" "served sz V a V' a'" by auto
      then show ?thesis
      proof cases
        case 1
        with pid False show ?thesis by (intro cont) simp
      next
        case (2 V' a')
        with pid False show ?thesis
          by (intro disjI2 exI [of _ 0] exI [of _ V'] exI [of _ a']) simp
      qed
    qed
  next
    case False
    then show ?thesis by (intro cont) simp
  qed
qed simp

lemma area_ok_grow_other:
  assumes "area_ok V a" and "a_vma a \<noteq> Some v"
  shows "area_ok (grow_vma V v vma extra) a"
  using assms by (auto simp: area_ok_def grow_vma_def)

lemma area_ok_grow_self:
  assumes "area_ok V a" and "a_vma a = Some v" and "vmas V v = Some vma"
  shows "area_ok (grow_vma V v vma extra) (grow_area a extra)"
  using assms by (auto simp: area_ok_def grow_vma_def grow_area_def)

lemma areas_ok_update:
  assumes "areas_ok V as" and "i < length as" and "area_ok V' a'" and "a_vma a' = a_vma (as ! i)"
    and "\<And>a. a \<in> set as \<Longrightarrow> a_vma a \<noteq> a_vma (as ! i) \<Longrightarrow> area_ok V' a"
  shows "areas_ok V' (as[i := a'])"
proof -
  have "map a_vma (as[i := a']) = map a_vma as"
    using assms(2,4) by (metis list_update_id map_update nth_map)
  moreover have "area_ok V' a" if "a \<in> set (as[i := a'])" for a
  proof -
    from that obtain j where j: "j < length as" "a = (as[i := a']) ! j"
      by (auto simp: in_set_conv_nth)
    show ?thesis
    proof (cases "j = i")
      case False
      with assms(1,2) j(1) have "a_vma (as ! j) \<noteq> a_vma (as ! i)"
        by (auto simp: areas_ok_def distinct_conv_nth)
      with assms(5) j False show ?thesis by simp
    qed (use j assms(2,3) in simp)
  qed
  ultimately show ?thesis using assms(1) by (simp add: areas_ok_def)
qed

lemma served_areas_ok:
  assumes "spaces_ok V" and "areas_ok V as" and "i < length as" and "served sz V (as ! i) V' a'"
  shows "spaces_ok V' \<and> areas_ok V' (as[i := a'])"
proof -
  have ai: "area_ok V (as ! i)" using assms(2,3) by (simp add: areas_ok_def)
  from assms(4) consider "V' = V" "a' = as ! i"
    | v vma extra where "a_vma (as ! i) = Some v" "vmas V v = Some vma" "spaces_ok V'"
        "V' = grow_vma V v vma extra" "a' = grow_area (as ! i) extra"
    unfolding served_def by blast
  then show ?thesis
  proof cases
    case (2 v vma extra)
    have "areas_ok V' (as[i := a'])"
      using 2 assms(2) area_ok_grow_self [OF ai 2(1,2)]
      by (intro areas_ok_update [OF assms(2,3)])
        (auto simp: grow_area_def areas_ok_def intro!: area_ok_grow_other)
    with 2(3) show ?thesis by simp
  qed (use assms in simp)
qed

section \<open>Creating a region\<close>

text \<open>The regions in use, over all areas, each with the pid of its area.\<close>

definition live :: "area_struct list \<Rightarrow> (pid_t \<times> region_struct) list" where
  "live as = concat (map (\<lambda>a. map (Pair (a_pid a)) (used (regions a))) as)"

lemma live_simps [simp]:
  "live [] = []" "live (a # as) = map (Pair (a_pid a)) (used (regions a)) @ live as"
  "live (xs @ ys) = live xs @ live ys"
  by (simp_all add: live_def)

lemma live_update:
  assumes "i < length as"
  shows "\<exists>us ws. live as = us @ map (Pair (a_pid (as ! i))) (used (regions (as ! i))) @ ws \<and>
    (\<forall>a. live (as[i := a]) = us @ map (Pair (a_pid a)) (used (regions a)) @ ws)"
proof -
  have "as = take i as @ as ! i # drop (Suc i) as" using assms by (rule id_take_nth_drop)
  then have "live as = live (take i as) @ map (Pair (a_pid (as ! i))) (used (regions (as ! i))) @
      live (drop (Suc i) as)"
    by (metis append_Cons live_simps(2,3))
  moreover have "live (as[i := a]) = live (take i as) @ map (Pair (a_pid a)) (used (regions a)) @
      live (drop (Suc i) as)" for a
    by (simp add: upd_conv_take_nth_drop [OF assms])
  ultimately show ?thesis by blast
qed

lemma served_same:
  assumes "served sz V a V' a'"
  shows "a_pid a' = a_pid a" "a_vma a' = a_vma a" "regions a' = regions a" "head a' = head a"
    "mmap V' = mmap V" "next_vid V' = next_vid V"
  using assms by (auto simp: served_def grow_area_def grow_vma_def)

text \<open>
  Adding a region to one area of a well-formed list: the list stays well formed and exactly
  one live region, of the requested size, is new.
\<close>

lemma add_region_areas_ok:
  assumes "areas_ok V as" and i: "i < length as"
    and "kmalloc_ok E AllocSplitRegion" and "kmalloc_ok E AllocTailRegion"
  obtains a' r us ws where "add_region E V (as ! i) sz = Inr (a', Some r)"
    "areas_ok V (as[i := a'])" "r_free r = 0" "r_size r = sz" "r \<in> set (regions a')"
    "live as = us @ ws" "live (as[i := a']) = us @ (a_pid (as ! i), r) # ws"
    "a_pid a' = a_pid (as ! i)" "a_vma a' = a_vma (as ! i)"
proof -
  have "area_ok V (as ! i)" using assms(1,2) by (simp add: areas_ok_def)
  then obtain v vma where v: "a_vma (as ! i) = Some v" "vmas V v = Some vma"
    "v \<in> set (mmap V (vm_mm vma))" "a_size (as ! i) = vm_end vma - vm_start vma"
    "regions_wf (vm_start vma) (regions (as ! i))" "r_free (head (as ! i)) \<noteq> 1"
    by (rule area_okE)
  obtain rs fs r xs ys where add:
    "add_region E V (as ! i) sz = Inr ((as ! i)\<lparr>free_space := fs, regions := rs\<rparr>, Some r)"
    and r: "regions_wf (vm_start vma) rs" "r_free r = 0" "r_size r = sz" "r \<in> set rs"
    and u: "used (regions (as ! i)) = xs @ ys" "used rs = xs @ r # ys"
    by (rule add_region_wf [OF v(5,1,2) refl assms(3,4)])
  define a' where "a' = (as ! i)\<lparr>free_space := fs, regions := rs\<rparr>"
  have "area_ok V a'" using v r(1) by (auto simp: area_ok_def a'_def)
  then have ok: "areas_ok V (as[i := a'])"
    using assms(1) by (intro areas_ok_update [OF assms(1) i]) (auto simp: a'_def areas_ok_def)
  from live_update [OF i] obtain us ws
    where "live as = us @ map (Pair (a_pid (as ! i))) (used (regions (as ! i))) @ ws"
      "\<forall>a. live (as[i := a]) = us @ map (Pair (a_pid a)) (used (regions a)) @ ws" by blast
  then show ?thesis
    using that [OF add [folded a'_def] ok r(2,3), of "us @ map (Pair (a_pid (as ! i))) xs"
        "map (Pair (a_pid (as ! i))) ys @ ws"] r(4) u
    by (simp add: a'_def)
qed

text \<open>Appending the area of a new VMA.\<close>

lemma areas_ok_new:
  assumes "spaces_ok V" and "areas_ok V as" and "insert_vm_ok E"
    and add: "add_vma E V task task ops sz = Inr (V', Some v)"
    and nowrap: "\<And>g. get_free_space V (t_mm task) sz = Inr g \<Longrightarrow> unat g + unat sz < 2 ^ 64"
    and a: "a_vma a = Some v" "a_size a = sz" "regions a = []" "r_free (head a) \<noteq> 1"
  shows "spaces_ok V' \<and> areas_ok V' (as @ [a])"
proof -
  note f = add_vma_spaces_ok [OF add assms(3,1) refl nowrap]
  have old: "area_ok V' b \<and> a_vma b \<noteq> Some v" if b: "b \<in> set as" for b
  proof -
    from assms(2) b have "area_ok V b" by (simp add: areas_ok_def)
    then obtain w vma where w: "a_vma b = Some w" "vmas V w = Some vma" "w \<in> set (mmap V (vm_mm vma))"
      "a_size b = vm_end vma - vm_start vma" "regions_wf (vm_start vma) (regions b)" "r_free (head b) \<noteq> 1"
      by (rule area_okE)
    with f(2) have "w \<noteq> v" by auto
    with f(4) w(2) have "vmas V' w = Some vma" by simp
    with w f(5) \<open>w \<noteq> v\<close> show ?thesis by (auto simp: area_ok_def)
  qed
  moreover have "area_ok V' a"
    using a f(3,6) by (auto simp: area_ok_def regions_wf_def)
  moreover have "Some v \<notin> a_vma ` set as" using old by fastforce
  ultimately show ?thesis
    using f(1) assms(2) a(1) by (simp add: areas_ok_def)
qed

lemma get_free_space_bounded:
  assumes "spaces_ok V" and "bounded V sz" and "get_free_space V m sz' = Inr g"
  shows "unat g \<le> 2 ^ 62"
proof -
  have wf: "mm_wf V m" using assms(1) by (simp add: spaces_ok_def)
  from get_free_space_loop_split [OF assms(3) [unfolded get_free_space_def]]
  obtain pre post where l: "mmap V m = pre @ post"
    and geq: "g = (if pre = [] then PAGE_SIZE else vm_end (the (vmas V (last pre))))"
    by blast
  show ?thesis
  proof (cases "pre = []")
    case False
    then have "last pre \<in> set (mmap V m)" by (simp add: l)
    from mm_wfD [OF wf this] obtain b where "vmas V (last pre) = Some b" .
    with False geq assms(2) show ?thesis by (auto simp: bounded_def)
  qed (use geq in \<open>simp add: PAGE_SIZE_def\<close>)
qed

lemma new_area_nowrap:
  assumes "spaces_ok V" and "bounded V sz" and "get_free_space V m (align_ceil sz VMA_SHIFT) = Inr g"
  shows "unat g + unat (align_ceil sz VMA_SHIFT) < 2 ^ 64"
proof -
  have "unat sz \<le> 2 ^ 62" using assms(2) by (simp add: bounded_def)
  then have "round_up 13 (unat sz) < 2 ^ 64" by (intro round_up_fits) auto
  then have "unat (align_ceil sz 13) = round_up 13 (unat sz)"
    by (intro unat_align_ceil) simp_all
  moreover have "VMA_SHIFT = 13" by (simp add: VMA_SHIFT_def PAGE_SHIFT_def)
  ultimately have "unat (align_ceil sz VMA_SHIFT) < 2 ^ 62 + 2 ^ 13"
    using round_up_less [of 13 "unat sz"] \<open>unat sz \<le> 2 ^ 62\<close> by simp
  with get_free_space_bounded [OF assms] show ?thesis by simp
qed

text \<open>
  What \<open>create_region\<close> needs of the kernel: memory for the records of areas and regions, and that the
  field \<open>free\<close> in the uninitialised list head of a new area is not 1 by accident.
\<close>

definition head_clean :: "kenv \<Rightarrow> bool" where
  "head_clean E \<longleftrightarrow> junk_int E \<noteq> 1"

declare head_clean_def [simp]

definition alloc_ok :: "kenv \<Rightarrow> bool" where
  "alloc_ok E \<longleftrightarrow> kmalloc_ok E AllocArea \<and> kmalloc_ok E AllocSplitRegion \<and>
     kmalloc_ok E AllocTailRegion \<and> head_clean E"

lemma add_vma_returns:
  assumes "spaces_ok V"
  shows "\<exists>V' p. add_vma E V cur task ops sz = Inr (V', p)"
proof -
  have wf: "mm_wf V m" for m using assms by (simp add: spaces_ok_def)
  obtain g where "get_free_space V (t_mm cur) sz = Inr g"
    using get_free_space_loop_returns [OF mm_wf_live [OF wf]] unfolding get_free_space_def by blast
  then show ?thesis
    by (auto simp: add_vma_def create_vm_area_struct_def Let_def ENOMEM_def split: option.split)
qed

lemma create_region_spec:
  assumes sp: "spaces_ok V" and as: "areas_ok V as" and bd: "bounded V sz"
    and al: "alloc_ok E" and ins: "insert_vm_ok E"
  obtains (served) V' as' r us ws i where "create_region E V sz task as ops = Inr (V', as', Some r)"
      "spaces_ok V'" "areas_ok V' as'" "r_free r = 0" "r_size r = sz"
      "live as = us @ ws" "live as' = us @ (t_pid task, r) # ws"
      "i < length as'" "a_pid (as' ! i) = t_pid task" "r \<in> set (regions (as' ! i))"
  | (refused) V' a where "create_region E V sz task as ops = Inr (V', as @ [a], None)"
      "a_vma a = None" "a_pid a = t_pid task" "regions a = []"
proof -
  have k: "kmalloc_ok E AllocSplitRegion" "kmalloc_ok E AllocTailRegion" "kmalloc_ok E AllocArea"
    using al by (simp_all add: alloc_ok_def)
  have each: "\<forall>a\<in>set as. area_ok V a" using as by (simp add: areas_ok_def)
  from scan_areas_spec [OF sp each bd, of "t_pid task"] show ?thesis
  proof (elim disjE exE conjE)
    fix i V' a'
    assume sc: "scan_areas sz (t_pid task) V as = Inr (V', as[i := a'], Some i)"
      and i: "i < length as" and pid: "a_pid (as ! i) = t_pid task" and sv: "served sz V (as ! i) V' a'"
    from served_areas_ok [OF sp as i sv] have ok: "spaces_ok V'" "areas_ok V' (as[i := a'])" by simp_all
    have i': "i < length (as[i := a'])" using i by simp
    note same = served_same [OF sv]
    have lv: "live (as[i := a']) = live as"
      using live_update [OF i] same by auto
    obtain b r us ws where b: "add_region E V' (as[i := a'] ! i) sz = Inr (b, Some r)"
      "areas_ok V' (as[i := a', i := b])" "r_free r = 0" "r_size r = sz" "r \<in> set (regions b)"
      "live (as[i := a']) = us @ ws" "live (as[i := a', i := b]) = us @ (a_pid (as[i := a'] ! i), r) # ws"
      "a_pid b = a_pid (as[i := a'] ! i)"
      by (rule add_region_areas_ok [OF ok(2) i' k(1,2), of sz])
    have "create_region E V sz task as ops = Inr (V', as[i := b], Some r)"
      using sc b(1) i by (simp add: create_region_def get_area_container_def)
    from served [OF this ok(1)] b i pid same lv show ?thesis by auto
  next
    assume sc: "scan_areas sz (t_pid task) V as = Inr (V, as, None)"
    define sz' where "sz' = align_ceil sz VMA_SHIFT"
    obtain V' p where add: "add_vma E V task task ops sz' = Inr (V', p)"
      using add_vma_returns [OF sp] by blast
    define a where "a = \<lparr>a_vma = p, a_pid = t_pid task, a_size = sz', free_space = sz',
      head = \<lparr>r_free = junk_int E, r_size = junk_long E, virtual_start = junk_long E\<rparr>, regions = []\<rparr>"
    have cont: "get_area_container E V sz task as ops =
        Inr (V', as @ [a], if p = None then None else Some (length as))"
      using sc add k(3) by (simp add: get_area_container_def add_area_struct_def sz'_def [symmetric] a_def)
    show ?thesis
    proof (cases p)
      case None
      with cont have "create_region E V sz task as ops = Inr (V', as @ [a], None)"
        by (simp add: create_region_def)
      then show ?thesis by (rule refused) (simp_all add: a_def None)
    next
      case (Some v)
      have ok: "spaces_ok V'" "areas_ok V' (as @ [a])"
        using areas_ok_new [OF sp as ins add [unfolded Some] new_area_nowrap [OF sp bd, folded sz'_def], where a = a]
          al Some by (simp_all add: a_def alloc_ok_def)
      have n: "length as < length (as @ [a])" by simp
      obtain b r us ws where b: "add_region E V' ((as @ [a]) ! length as) sz = Inr (b, Some r)"
        "areas_ok V' ((as @ [a])[length as := b])" "r_free r = 0" "r_size r = sz" "r \<in> set (regions b)"
        "live (as @ [a]) = us @ ws"
        "live ((as @ [a])[length as := b]) = us @ (a_pid ((as @ [a]) ! length as), r) # ws"
        "a_pid b = a_pid ((as @ [a]) ! length as)"
        by (rule add_region_areas_ok [OF ok(2) n k(1,2), of sz])
      have "create_region E V sz task as ops = Inr (V', as @ [b], Some r)"
        using cont b(1) Some by (simp add: create_region_def)
      from served [OF this ok(1), where us = us and ws = ws and i = "length as"] b
      show ?thesis by (simp add: a_def)
    qed
  qed
qed

section \<open>Giving a region back to its area\<close>

lemma get_area_spec:
  assumes "\<forall>a\<in>set as. area_ok V a"
  shows "\<exists>res. get_area V pid address as = Inr res \<and>
    (\<forall>i. res = Some i \<longrightarrow> i < length as \<and> a_pid (as ! i) = pid \<and>
       (\<exists>v vma. a_vma (as ! i) = Some v \<and> vmas V v = Some vma \<and>
          vm_start vma \<le> address \<and> address < vm_end vma))"
  using assms
proof (induction as)
  case (Cons a as)
  then obtain v vma where v: "a_vma a = Some v" "vmas V v = Some vma" by (auto elim: area_okE)
  from Cons obtain res where "get_area V pid address as = Inr res"
    "\<forall>i. res = Some i \<longrightarrow> i < length as \<and> a_pid (as ! i) = pid \<and>
       (\<exists>v vma. a_vma (as ! i) = Some v \<and> vmas V v = Some vma \<and>
          vm_start vma \<le> address \<and> address < vm_end vma)" by auto
  with v show ?case by (cases res) (auto simp: nth_Cons' Let_def)
qed simp

lemma remove_region_found:
  assumes as: "areas_ok V as" and ga: "get_area V pid address as = Inr (Some i)"
    and gr: "get_region (as ! i) address = Some (pre, r, post)"
  obtains rs where "i < length as" "a_pid (as ! i) = pid"
    "regions (as ! i) = pre @ r # post" "virtual_start r = address" "used rs = used pre @ used post"
    "remove_region V pid address as =
       Inr (as[i := (as ! i)\<lparr>free_space := free_space (as ! i) + r_size r, regions := rs\<rparr>],
            if rs = [] then Some (a_vma (as ! i)) else None)"
    "areas_ok V (as[i := (as ! i)\<lparr>free_space := free_space (as ! i) + r_size r, regions := rs\<rparr>])"
proof -
  have each: "\<forall>a\<in>set as. area_ok V a" using as by (simp add: areas_ok_def)
  from get_area_spec [OF each, of pid address] ga have il: "i < length as" "a_pid (as ! i) = pid"
    by auto
  then have "area_ok V (as ! i)" using each by simp
  then obtain v vma where v: "a_vma (as ! i) = Some v" "vmas V v = Some vma"
    "v \<in> set (mmap V (vm_mm vma))" "a_size (as ! i) = vm_end vma - vm_start vma"
    "regions_wf (vm_start vma) (regions (as ! i))" "r_free (head (as ! i)) \<noteq> 1"
    by (rule area_okE)
  note spl = get_region_Some [OF gr]
  define a1 where "a1 = (as ! i)\<lparr>free_space := free_space (as ! i) + r_size r\<rparr>"
  have h1: "r_free (head a1) \<noteq> 1" using v(6) by (simp add: a1_def)
  from release_wf [OF v(5) [unfolded spl(1)] h1] obtain rs where
    rs: "merge_neighbors_region a1 pre (r\<lparr>r_free := 1\<rparr>) post = Inr (a1\<lparr>regions := rs\<rparr>)"
      "regions_wf (vm_start vma) rs" "used rs = used pre @ used post" .
  have "area_ok V (a1\<lparr>regions := rs\<rparr>)"
    using v rs(2) by (auto simp: area_ok_def a1_def)
  then have ok: "areas_ok V (as[i := a1\<lparr>regions := rs\<rparr>])"
    using as by (intro areas_ok_update [OF as il(1)]) (auto simp: a1_def areas_ok_def)
  have "remove_region V pid address as =
      Inr (as[i := a1\<lparr>regions := rs\<rparr>], if rs = [] then Some (a_vma (as ! i)) else None)"
    using ga gr rs(1) by (simp add: remove_region_def Let_def a1_def)
  from that [OF il spl(1,2) rs(3) this [unfolded a1_def]] ok show ?thesis
    by (simp add: a1_def)
qed

lemma remove_region_cases:
  assumes as: "areas_ok V as"
  obtains (none) "remove_region V pid address as = Inr (as, None)"
  | (found) i pre r post where "get_area V pid address as = Inr (Some i)"
      "get_region (as ! i) address = Some (pre, r, post)"
proof -
  have each: "\<forall>a\<in>set as. area_ok V a" using as by (simp add: areas_ok_def)
  from get_area_spec [OF each, of pid address] obtain res
    where ga: "get_area V pid address as = Inr res" by auto
  show ?thesis
  proof (cases "\<exists>i c. res = Some i \<and> get_region (as ! i) address = Some c")
    case False
    then have "remove_region V pid address as = Inr (as, None)"
      using ga by (auto simp: remove_region_def Let_def split: option.split)
    then show ?thesis by (rule none)
  next
    case True
    then show ?thesis using found ga by auto
  qed
qed

text \<open>
  The area an address belongs to, when it lies in the VMA of one area of the process only.
\<close>

lemma get_area_unique:
  assumes "\<forall>a\<in>set as. area_ok V a" and "i < length as" and "a_pid (as ! i) = pid"
    and "a_vma (as ! i) = Some v" and "vmas V v = Some vma"
    and "vm_start vma \<le> address" and "address < vm_end vma"
    and "\<And>j w b. j < length as \<Longrightarrow> j \<noteq> i \<Longrightarrow> a_pid (as ! j) = pid \<Longrightarrow> a_vma (as ! j) = Some w \<Longrightarrow>
      vmas V w = Some b \<Longrightarrow> \<not> (vm_start b \<le> address \<and> address < vm_end b)"
  shows "get_area V pid address as = Inr (Some i)"
  using assms
proof (induction as arbitrary: i)
  case (Cons a as)
  from Cons.prems(1) obtain w b where w: "a_vma a = Some w" "vmas V w = Some b"
    by (auto elim: area_okE)
  show ?case
  proof (cases i)
    case 0
    with Cons.prems(3-7) show ?thesis by (simp add: Let_def)
  next
    case (Suc k)
    have "get_area V pid address as = Inr (Some k)"
      using Cons.prems(1-7) Cons.prems(8) [of "Suc _"] Suc by (intro Cons.IH) auto
    moreover have "a_pid a = pid \<Longrightarrow> \<not> (vm_start b \<le> address \<and> address < vm_end b)"
      using Cons.prems(8) [of 0 w b] w Suc by simp
    ultimately show ?thesis using w Suc by (auto simp: Let_def)
  qed
qed simp

lemma get_region_at:
  assumes "regions a = pre @ r # post" and "tiled b (regions a)"
    and "unat b + bytes (regions a) < 2 ^ 64" and "\<forall>x\<in>set (regions a). r_size x \<noteq> 0"
  shows "get_region a (virtual_start r) = Some (pre, r, post)"
proof -
  have "virtual_start x \<noteq> virtual_start r" if "x \<in> set pre" for x
  proof -
    have "r_end x \<le> unat (virtual_start r)"
      using tiled_sorted [OF assms(2,3)] that by (auto simp: assms(1) sorted_wrt_append)
    moreover have "0 < unat (r_size x)"
      using assms(1,4) that by (auto simp: word_neq_0_conv word_less_nat_alt)
    ultimately show ?thesis by (auto simp: r_end_def)
  qed
  then show ?thesis by (simp add: get_region_def assms(1))
qed

text \<open>The effect on the live regions.\<close>

lemma remove_region_at:
  assumes "areas_ok V as" and "get_area V pid address as = Inr (Some i)"
    and "get_region (as ! i) address = Some (pre, r, post)"
  obtains as' cl us ws where "remove_region V pid address as = Inr (as', cl)" "areas_ok V as'"
    "map a_vma as' = map a_vma as"
    "live as = us @ (if r_free r = 0 then (pid, r) # ws else ws)" "live as' = us @ ws"
    "free_space (as' ! i) = free_space (as ! i) + r_size r" "virtual_start r = address"
    "cl = None \<or> (\<exists>a\<in>set as'. cl = Some (a_vma a) \<and> regions a = [] \<and> a_pid a = pid)"
proof -
  obtain rs where f: "i < length as" "a_pid (as ! i) = pid"
    "regions (as ! i) = pre @ r # post" "virtual_start r = address" "used rs = used pre @ used post"
    "remove_region V pid address as =
       Inr (as[i := (as ! i)\<lparr>free_space := free_space (as ! i) + r_size r, regions := rs\<rparr>],
            if rs = [] then Some (a_vma (as ! i)) else None)"
    "areas_ok V (as[i := (as ! i)\<lparr>free_space := free_space (as ! i) + r_size r, regions := rs\<rparr>])"
    by (rule remove_region_found [OF assms])
  define a' where "a' = (as ! i)\<lparr>free_space := free_space (as ! i) + r_size r, regions := rs\<rparr>"
  from live_update [OF f(1)] obtain us ws where
    lv: "live as = us @ map (Pair pid) (used pre @ used (r # post)) @ ws"
      "live (as[i := a']) = us @ map (Pair pid) (used pre @ used post) @ ws"
    using f(2,3,5) by (auto simp: a'_def)
  have m: "map a_vma (as[i := a']) = map a_vma as"
    using f(1) by (simp add: map_update a'_def list_update_same_conv)
  have "a' \<in> set (as[i := a'])" using f(1) by (simp add: set_update_memI)
  then have "rs = [] \<longrightarrow> (\<exists>a\<in>set (as[i := a']). a_vma (as ! i) = a_vma a \<and> regions a = [] \<and> a_pid a = pid)"
    using f(2) by (intro impI bexI [of _ a']) (simp_all add: a'_def)
  then show ?thesis
    using that [OF f(6) [folded a'_def] f(7) [folded a'_def] m,
        of "us @ map (Pair pid) (used pre)" "map (Pair pid) (used post) @ ws"] lv f(1,4)
    by (auto simp: a'_def split: if_splits)
qed

section \<open>Properties of the area list\<close>

text \<open>
  C17. \<open>create_region\<close> never dereferences a bad pointer on a well-formed area list, whatever
  list, and with room for its own records it either answers a region in use of exactly the
  requested size, after which the areas and the address spaces are again well formed and the
  live regions are those from before and the new one, or it answers \<open>NULL\<close> because the kernel
  refused a new VMA, after which no live region has changed.
\<close>

theorem create_region_correct:
  assumes "spaces_ok V" and "areas_ok V as" and "bounded V sz" and "alloc_ok E" and "insert_vm_ok E"
  shows "\<exists>V' as' res. create_region E V sz task as ops = Inr (V', as', res) \<and>
    (case res of
       Some r \<Rightarrow> spaces_ok V' \<and> areas_ok V' as' \<and> r_free r = 0 \<and> r_size r = sz \<and>
         (\<exists>us ws. live as = us @ ws \<and> live as' = us @ (t_pid task, r) # ws)
     | None \<Rightarrow> live as' = live as)"
  using assms
proof (cases rule: create_region_spec [where task = task and ops = ops])
  case (served V' as' r us ws i)
  then show ?thesis by (intro exI [of _ V'] exI [of _ as'] exI [of _ "Some r"]) auto
next
  case (refused V' a)
  then show ?thesis by (intro exI [of _ V'] exI [of _ "as @ [a]"] exI [of _ None]) simp
qed

lemma remove_region_live:
  assumes "areas_ok V as"
  shows "\<exists>as' cl. remove_region V pid address as = Inr (as', cl) \<and> areas_ok V as' \<and>
    map a_vma as' = map a_vma as \<and>
    (live as' = live as \<or>
     (\<exists>us r ws. live as = us @ (pid, r) # ws \<and> live as' = us @ ws \<and> virtual_start r = address)) \<and>
    (cl = None \<or> (\<exists>a\<in>set as'. cl = Some (a_vma a) \<and> regions a = [] \<and> a_pid a = pid))"
  using assms
proof (cases rule: remove_region_cases [where pid = pid and address = address])
  case none
  with assms show ?thesis by simp
next
  case (found i pre r post)
  obtain as' cl us ws where f: "remove_region V pid address as = Inr (as', cl)" "areas_ok V as'"
    "map a_vma as' = map a_vma as"
    "live as = us @ (if r_free r = 0 then (pid, r) # ws else ws)" "live as' = us @ ws"
    "virtual_start r = address"
    "cl = None \<or> (\<exists>a\<in>set as'. cl = Some (a_vma a) \<and> regions a = [] \<and> a_pid a = pid)"
    by (rule remove_region_at [OF assms found])
  then have "live as' = live as \<or>
     (\<exists>us r ws. live as = us @ (pid, r) # ws \<and> live as' = us @ ws \<and> virtual_start r = address)"
    by (auto split: if_splits)
  with f show ?thesis by blast
qed

text \<open>
  \<open>remove_region\<close> on a well-formed area list: it returns, keeps the list well formed, and
  takes at most one live region away, the first of its area that starts at the address; all
  other live regions are untouched.  It asks for the VMA to be removed exactly when the area
  has no region left.
\<close>

theorem remove_region_correct:
  assumes "areas_ok V as"
  shows "\<exists>as' cl. remove_region V pid address as = Inr (as', cl) \<and> areas_ok V as' \<and>
    map a_vma as' = map a_vma as \<and>
    (live as' = live as \<or>
     (\<exists>us r ws. live as = us @ (pid, r) # ws \<and> live as' = us @ ws \<and> virtual_start r = address)) \<and>
    (cl = None \<or> (\<exists>a\<in>set as'. cl = Some (a_vma a) \<and> regions a = [] \<and> a_pid a = pid))"
  by (rule remove_region_live [OF assms])

end
