(* ===== verification/AreaProps.thy ===== *)
theory AreaProps
  imports Area
begin

text \<open>
  What the operations of \<open>area.c\<close> guarantee to their callers, and where those guarantees end:
  disjointness and placement of regions, the accounting of free space, the addresses a
  process may touch, and the inputs on which the code loses its invariants.
\<close>

section \<open>A worked example\<close>

text \<open>
  One process with one VMA of two pages at \<open>4096\<close>: 3000 bytes freed, 3000 bytes in use, as after
  \<open>a = netmalloc(3000); b = netmalloc(3000); netfree(a)\<close>.
\<close>

definition demo_task :: task where
  "demo_task = \<lparr>t_pid = 7, t_mm = 0\<rparr>"

definition demo_mm :: vmem where
  "demo_mm = \<lparr>vmas = [0 \<mapsto> \<lparr>vm_mm = 0, vm_start = 4096, vm_end = 12288,
       vm_flags = {VM_READ, VM_WRITE, VM_EXEC, VM_MIXEDMAP}, vm_ops = 1\<rparr>],
     mmap = (\<lambda>_. [])(0 := [0]), next_vid = 1\<rparr>"

definition demo_area :: area_struct where
  "demo_area = \<lparr>a_vma = Some 0, a_pid = 7, a_size = 8192, free_space = 5192,
     head = \<lparr>r_free = 0, r_size = 0, virtual_start = 0\<rparr>,
     regions = [\<lparr>r_free = 1, r_size = 3000, virtual_start = 4096\<rparr>,
                \<lparr>r_free = 0, r_size = 3000, virtual_start = 7096\<rparr>]\<rparr>"

lemma demo_ok: "spaces_ok demo_mm" "area_ok demo_mm demo_area" "areas_ok demo_mm [demo_area]"
  "bounded demo_mm 5000" "bounded demo_mm 3000" "alloc_ok linux_ref"
  by (auto simp: spaces_ok_def vids_fresh_def mm_wf_def demo_mm_def PAGE_SIZE_def area_ok_def
      demo_area_def regions_wf_def areas_ok_def bounded_def alloc_ok_def linux_ref_def tail_used_def)

text \<open>The example is the state the code reaches by those three calls.\<close>

lemma demo_reached:
  "(case create_region linux_ref empty_mm 3000 demo_task [] 1 of
      Inr (V1, as1, Some r1) \<Rightarrow>
        (case create_region linux_ref V1 3000 demo_task as1 1 of
           Inr (V2, as2, Some r2) \<Rightarrow>
             (case remove_region V2 7 (virtual_start r1) as2 of
                Inr (as3, cl) \<Rightarrow> as3 = [demo_area] \<and> cl = None \<and> vmas V2 0 = vmas demo_mm 0
              | _ \<Rightarrow> False)
         | _ \<Rightarrow> False)
    | _ \<Rightarrow> False)"
  by code_simp

theorem create_region_correct_witness:
  "\<exists>V' as' r. create_region linux_ref demo_mm 3000 demo_task [demo_area] 1 = Inr (V', as', Some r) \<and>
     areas_ok V' as' \<and> r_size r = 3000"
proof -
  have "case create_region linux_ref demo_mm 3000 demo_task [demo_area] 1 of
      Inr (V', as', res) \<Rightarrow> res \<noteq> None | _ \<Rightarrow> False"
    by code_simp
  with create_region_correct [OF demo_ok(1,3,5,6) linux_ref_insert_vm_ok, of demo_task 1]
  show ?thesis by (auto split: option.splits)
qed

theorem remove_region_correct_witness:
  "\<exists>as' cl. remove_region demo_mm 7 7096 [demo_area] = Inr (as', cl) \<and> areas_ok demo_mm as' \<and>
     cl = Some (Some 0)"
proof -
  have "case remove_region demo_mm 7 7096 [demo_area] of
      Inr (as', cl) \<Rightarrow> cl = Some (Some 0) | _ \<Rightarrow> False"
    by code_simp
  with remove_region_correct [OF demo_ok(3), of 7 7096] show ?thesis by auto
qed

section \<open>Live regions never overlap\<close>

text \<open>
  The regions in use of one area are pairwise disjoint and in address order, as long as the
  area does not reach the end of the 64-bit address space.
\<close>

lemma used_disjoint:
  assumes "area_ok V a" and "a_vma a = Some v" and "vmas V v = Some vma"
    and "unat (vm_start vma) + bytes (regions a) < 2 ^ 64"
  shows "sorted_wrt (\<lambda>x y. r_end x \<le> unat (virtual_start y)) (used (regions a)) \<and>
    (\<forall>r\<in>set (used (regions a)). vm_start vma \<le> virtual_start r)"
proof -
  from assms have t: "tiled (vm_start vma) (regions a)" by (auto simp: area_ok_def regions_wf_def)
  have "vm_start vma \<le> virtual_start r" if "r \<in> set (used (regions a))" for r
    using tiled_bounds [OF t assms(4), of r] that by (simp add: used_def word_le_nat_alt)
  with sorted_wrt_filter_used [OF tiled_sorted [OF t assms(4)]] show ?thesis by blast
qed

section \<open>Placement of a new region\<close>

lemma add_region_placed:
  assumes a: "area_ok V a" "a_vma a = Some v" "vmas V v = Some vma"
    and ok: "kmalloc_ok E AllocSplitRegion" "kmalloc_ok E AllocTailRegion"
    and nw: "unat (vm_start vma) + bytes (regions a) < 2 ^ 64"
    and add: "add_region E V a sz = Inr (a', Some r)"
  shows "if \<exists>x\<in>set (regions a). fits sz x
    then (\<exists>x\<in>set (regions a). fits sz x \<and> virtual_start r = virtual_start x \<and> r_end r \<le> r_end x) \<and>
         r_end r \<le> unat (vm_start vma) + bytes (regions a)
    else unat (virtual_start r) = unat (vm_start vma) + bytes (regions a)"
proof -
  from a have wf: "regions_wf (vm_start vma) (regions a)" by (auto simp: area_ok_def)
  then have t: "tiled (vm_start vma) (regions a)" by (simp add: regions_wf_def)
  show ?thesis
  proof (cases rule: fits_split [of "regions a" sz])
    case 1
    with add add_region_tail [OF 1 t a(2,3) refl ok(2)] tiled_span_bytes [OF nw] show ?thesis by auto
  next
    case (2 pre x post)
    from add get_free_region_exact [OF 2] have "r = x\<lparr>r_free := 0\<rparr>" by (simp add: add_region_def)
    with 2 tiled_bounds [OF t nw, of x] show ?thesis by (auto simp: fits_def r_end_def)
  next
    case (3 pre x post)
    from add get_free_region_split [OF 3 wf ok(1)] have "r = x\<lparr>r_free := 0, r_size := sz\<rparr>"
      by (simp add: add_region_def)
    moreover have "unat sz \<le> unat (r_size x)" and "fits sz x"
      using 3(3) less_imp_le [OF 3(4)] by (simp_all add: fits_def word_le_nat_alt)
    moreover have "x \<in> set (regions a)" using 3(1) by simp
    ultimately show ?thesis
      using tiled_bounds [OF t nw, of x] by (auto simp: r_end_def)
  qed
qed

text \<open>
  C34. Where \<open>add_region\<close> puts a region: into a free region that is large enough when there is
  one, and then inside the space the regions already cover; otherwise right behind the last
  region, whatever the size of the area.
\<close>

theorem add_region_placement:
  assumes "area_ok V a" and "a_vma a = Some v" and "vmas V v = Some vma"
    and "kmalloc_ok E AllocSplitRegion" and "kmalloc_ok E AllocTailRegion"
    and "unat (vm_start vma) + bytes (regions a) < 2 ^ 64"
    and "add_region E V a sz = Inr (a', Some r)"
  shows "if \<exists>x\<in>set (regions a). fits sz x
    then (\<exists>x\<in>set (regions a). fits sz x \<and> virtual_start r = virtual_start x \<and> r_end r \<le> r_end x) \<and>
         r_end r \<le> unat (vm_start vma) + bytes (regions a)
    else unat (virtual_start r) = unat (vm_start vma) + bytes (regions a)"
  by (rule add_region_placed [OF assms])

theorem add_region_placement_witness:
  "\<exists>a' r. add_region linux_ref demo_mm demo_area 2000 = Inr (a', Some r) \<and> virtual_start r = 4096"
proof -
  have "case add_region linux_ref demo_mm demo_area 2000 of Inr (a', r) \<Rightarrow> r \<noteq> None | _ \<Rightarrow> False"
    by code_simp
  then obtain a' r where add: "add_region linux_ref demo_mm demo_area 2000 = Inr (a', Some r)"
    by (auto split: sum.splits)
  have "if \<exists>x\<in>set (regions demo_area). fits 2000 x
    then (\<exists>x\<in>set (regions demo_area). fits 2000 x \<and> virtual_start r = virtual_start x \<and> r_end r \<le> r_end x) \<and>
         r_end r \<le> unat (vm_start (the (vmas demo_mm 0))) + bytes (regions demo_area)
    else unat (virtual_start r) = unat (vm_start (the (vmas demo_mm 0))) + bytes (regions demo_area)"
    by (rule add_region_placement [OF demo_ok(2) _ _ _ _ _ add, where v = 0])
      (simp_all add: demo_area_def demo_mm_def linux_ref_def)
  then show ?thesis using add by (simp add: demo_area_def fits_def)
qed

section \<open>Accounting of free space\<close>

text \<open>The intended meaning of \<open>free_space\<close>: what the regions in use leave of the area.\<close>

definition accounted :: "area_struct \<Rightarrow> bool" where
  "accounted a \<longleftrightarrow> unat (free_space a) + bytes (used (regions a)) = unat (a_size a)"

definition first_fit :: "u64 \<Rightarrow> region_struct list \<Rightarrow> region_struct option" where
  "first_fit sz rs = find (fits sz) rs"

lemma first_fit_split: "rs = pre @ x # post \<Longrightarrow> \<forall>y\<in>set pre. \<not> fits sz y \<Longrightarrow> fits sz x \<Longrightarrow> first_fit sz rs = Some x"
  by (induction pre arbitrary: rs) (auto simp: first_fit_def)

lemma first_fit_none: "\<forall>y\<in>set rs. \<not> fits sz y \<Longrightarrow> first_fit sz rs = None"
  by (simp add: first_fit_def find_None_iff)

text \<open>
  The accounting, and the case in which the code loses it: an allocation that the free
  space covers keeps \<open>free_space\<close> exact, except when it reuses a free region of exactly the
  requested size; then \<open>free_space\<close> is not reduced and ends up \<open>sz\<close> bytes too large.
\<close>

theorem add_region_accounting:
  assumes "area_ok V a" and "a_vma a = Some v" and "vmas V v = Some vma"
    and "kmalloc_ok E AllocSplitRegion" and "kmalloc_ok E AllocTailRegion"
    and "accounted a" and "sz \<le> free_space a" and "add_region E V a sz = Inr (a', Some r)"
  shows "unat (free_space a') + bytes (used (regions a')) = unat (a_size a') +
    (if \<exists>x. first_fit sz (regions a) = Some x \<and> r_size x = sz then unat sz else 0)"
proof -
  from assms(1-3) have wf: "regions_wf (vm_start vma) (regions a)" by (auto simp: area_ok_def)
  then have t: "tiled (vm_start vma) (regions a)" by (simp add: regions_wf_def)
  have sub: "unat (free_space a - sz) + unat sz = unat (free_space a)"
    using assms(7) by (simp add: unat_sub word_le_nat_alt)
  show ?thesis
  proof (cases rule: fits_split [of "regions a" sz])
    case 1
    with assms(6,8) add_region_tail [OF 1 t assms(2,3) refl assms(5)] first_fit_none [OF 1] sub
    show ?thesis by (auto simp: accounted_def)
  next
    case (2 pre x post)
    from 2 have "first_fit sz (regions a) = Some x"
      by (intro first_fit_split [OF 2(1,2)]) (simp add: fits_def)
    with 2 assms(6,8) get_free_region_exact [OF 2] show ?thesis
      by (auto simp: add_region_def accounted_def)
  next
    case (3 pre x post)
    from 3 have "first_fit sz (regions a) = Some x"
      by (intro first_fit_split [OF 3(1,2)]) (simp add: fits_def less_imp_le)
    with 3 assms(6,8) get_free_region_split [OF 3 wf assms(4)] sub show ?thesis
      by (auto simp: add_region_def accounted_def)
  qed
qed

theorem add_region_accounting_witness:
  "\<exists>a' r. add_region linux_ref demo_mm demo_area 3000 = Inr (a', Some r) \<and>
     unat (free_space a') + bytes (used (regions a')) = unat (a_size a') + 3000"
proof -
  define a' where "a' = demo_area\<lparr>regions := [\<lparr>r_free = 0, r_size = 3000, virtual_start = 4096\<rparr>,
      \<lparr>r_free = 0, r_size = 3000, virtual_start = 7096\<rparr>]\<rparr>"
  have "add_region linux_ref demo_mm demo_area 3000 =
      Inr (a', Some \<lparr>r_free = 0, r_size = 3000, virtual_start = 4096\<rparr>)"
    unfolding a'_def by code_simp
  from add_region_accounting [OF demo_ok(2) _ _ _ _ _ _ this, of 0] this show ?thesis
    by (simp add: demo_area_def demo_mm_def linux_ref_def accounted_def first_fit_def fits_def)
qed

text \<open>
  The good case of placement: in an exactly accounted area without free regions, a request
  that the free space covers is placed inside the VMA.
\<close>

theorem unfragmented_in_vma:
  assumes "area_ok V a" and "a_vma a = Some v" and "vmas V v = Some vma"
    and "vm_start vma \<le> vm_end vma"
    and "kmalloc_ok E AllocSplitRegion" and "kmalloc_ok E AllocTailRegion"
    and "accounted a" and "sz \<le> free_space a" and "\<forall>x\<in>set (regions a). r_free x = 0"
    and "add_region E V a sz = Inr (a', Some r)"
  shows "vm_start vma \<le> virtual_start r \<and> r_end r \<le> unat (vm_end vma)"
proof -
  have all: "used (regions a) = regions a" using assms(9) by (simp add: used_def)
  have sz: "a_size a = vm_end vma - vm_start vma" using assms(1-3) by (auto simp: area_ok_def)
  have tot: "unat (free_space a) + bytes (regions a) = unat (vm_end vma) - unat (vm_start vma)"
    using assms(7) assms(4) by (simp add: accounted_def all sz unat_sub)
  have le: "unat (vm_start vma) \<le> unat (vm_end vma)" using assms(4) by (simp add: word_le_nat_alt)
  have nw: "unat (vm_start vma) + bytes (regions a) < 2 ^ 64"
    using tot le unat64_bound [of "vm_end vma"] by simp
  have nf: "\<not> (\<exists>x\<in>set (regions a). fits sz x)" using assms(9) by (auto simp: fits_def)
  have st: "unat (virtual_start r) = unat (vm_start vma) + bytes (regions a)"
    using add_region_placed [OF assms(1-3,5,6) nw assms(10)] nf by (simp only: if_False)
  have "r_size r = sz"
  proof -
    from assms(1-3) have "tiled (vm_start vma) (regions a)" by (auto simp: area_ok_def regions_wf_def)
    with add_region_tail [of a sz "vm_start vma" v V vma E] nf assms(2,3,6,10) show ?thesis by auto
  qed
  moreover have "unat sz \<le> unat (free_space a)" using assms(8) by (simp add: word_le_nat_alt)
  ultimately have "r_end r \<le> unat (vm_end vma)" using st tot le by (simp add: r_end_def)
  with st show ?thesis by (simp add: word_le_nat_alt)
qed

theorem unfragmented_in_vma_witness:
  "\<exists>a' r. add_region linux_ref demo_mm (demo_area\<lparr>regions := [\<lparr>r_free = 0, r_size = 3000,
        virtual_start = 4096\<rparr>]\<rparr>) 5000 = Inr (a', Some r) \<and> r_end r \<le> 12288"
proof -
  let ?a = "demo_area\<lparr>regions := [\<lparr>r_free = 0, r_size = 3000, virtual_start = 4096\<rparr>]\<rparr>"
  have ok: "area_ok demo_mm ?a"
    by (simp add: area_ok_def demo_area_def demo_mm_def regions_wf_def)
  obtain a' r where add: "add_region linux_ref demo_mm ?a 5000 = Inr (a', Some r)"
    using add_region_tail [of ?a 5000 4096 0 demo_mm "the (vmas demo_mm 0)" linux_ref]
    by (simp add: demo_area_def demo_mm_def fits_def linux_ref_def)
  with unfragmented_in_vma [OF ok _ _ _ _ _ _ _ _ add, of 0] show ?thesis
    by (simp add: demo_area_def demo_mm_def linux_ref_def accounted_def)
qed

text \<open>
  In a fragmented area the placement is wrong: with 3000 bytes free below 3000 bytes in use
  and 5192 bytes accounted as free, a request for 5000 bytes is served from the area, since its
  total free space is large enough, and the region handed out ends 2808 bytes behind the end
  of the VMA.
\<close>

theorem fragmented_overrun:
  "accounted demo_area \<and>
   (\<exists>V' as' r. create_region linux_ref demo_mm 5000 demo_task [demo_area] 1 = Inr (V', as', Some r) \<and>
      vmas V' 0 = vmas demo_mm 0 \<and> r_end r = unat (vm_end (the (vmas V' 0))) + 2808)"
proof -
  have "case create_region linux_ref demo_mm 5000 demo_task [demo_area] 1 of
      Inr (V', as', Some r) \<Rightarrow> vmas V' 0 = vmas demo_mm 0 \<and>
        r_end r = unat (vm_end (the (vmas V' 0))) + 2808
    | _ \<Rightarrow> False"
    by code_simp
  then show ?thesis
    by (auto simp: accounted_def demo_area_def split: sum.splits option.splits)
qed

section \<open>Growing an area\<close>

text \<open>
  When the free space of an area does not cover a request, \<open>extend_vma\<close> either answers -1
  and changes nothing, or answers 0 and both VMA and area have grown by the same amount to a
  whole number of pages, the free space covers the request with less than a page to spare, and
  no VMA of the process overlaps another.
\<close>

theorem extend_vma_correct:
  assumes "spaces_ok V" and "area_ok V a" and "free_space a < sz" and "bounded V sz"
  shows "extend_vma V a sz = Inr (- 1, V, a) \<or>
    (\<exists>extra v vma. a_vma a = Some v \<and> vmas V v = Some vma \<and>
       extend_vma V a sz =
         Inr (0, V\<lparr>vmas := (vmas V)(v \<mapsto> vma\<lparr>vm_end := vm_end vma + extra\<rparr>)\<rparr>,
              a\<lparr>a_size := a_size a + extra, free_space := free_space a + extra\<rparr>) \<and>
       unat sz \<le> unat (free_space a) + unat extra \<and>
       unat (free_space a) + unat extra < unat sz + 4096 \<and>
       4096 dvd unat (a_size a) + unat extra \<and>
       unat (vm_end vma + extra) = unat (vm_end vma) + unat extra \<and>
       spaces_ok (V\<lparr>vmas := (vmas V)(v \<mapsto> vma\<lparr>vm_end := vm_end vma + extra\<rparr>)\<rparr>))"
proof -
  from assms(2) obtain v vma where v: "a_vma a = Some v" "vmas V v = Some vma"
    "v \<in> set (mmap V (vm_mm vma))" "a_size a = vm_end vma - vm_start vma"
    by (rule area_okE)
  from assms(1) v assms(3,4) show ?thesis
    by (cases rule: extend_vma_spec) (use v in \<open>auto simp: grow_vma_def grow_area_def\<close>)
qed

theorem extend_vma_correct_witness:
  "\<exists>V' a'. extend_vma demo_mm demo_area 6000 = Inr (0, V', a') \<and> spaces_ok V' \<and> a_size a' = 12288"
proof -
  have "case extend_vma demo_mm demo_area 6000 of
      Inr (res, V', a') \<Rightarrow> res = 0 \<and> a_size a' = 12288 | _ \<Rightarrow> False"
    by code_simp
  moreover have "bounded demo_mm 6000" by (simp add: bounded_def demo_mm_def)
  moreover have "free_space demo_area < 6000" by (simp add: demo_area_def)
  ultimately show ?thesis
    using extend_vma_correct [OF demo_ok(1,2), of 6000] by auto
qed

section \<open>Which addresses may be touched\<close>

lemma page_in_region_iff:
  assumes "4096 dvd unat address" and "r_end r \<le> 18446744073709547520"
  shows "align_floor (virtual_start r) PAGE_SHIFT \<le> address \<and>
      address < align_ceil (virtual_start r + r_size r) PAGE_SHIFT \<longleftrightarrow>
    unat (virtual_start r) < unat address + 4096 \<and> unat address < r_end r"
proof -
  have e: "unat (virtual_start r + r_size r) = r_end r"
    using assms(2) unfolding r_end_def by (intro unat_plus_no_wrap) simp
  have "unat (align_ceil (virtual_start r + r_size r) PAGE_SHIFT) = round_up 12 (r_end r)"
    using unat_align_ceil_page [of "virtual_start r + r_size r"] assms(2) by (simp only: e)
  then have "address < align_ceil (virtual_start r + r_size r) PAGE_SHIFT \<longleftrightarrow> unat address < r_end r"
    using less_round_up_iff [of 12 "unat address" "r_end r"] assms(1) by (simp add: word_less_nat_alt)
  moreover have "align_floor (virtual_start r) PAGE_SHIFT \<le> address \<longleftrightarrow>
      unat (virtual_start r) < unat address + 4096"
  proof -
    have "unat (virtual_start r) div 4096 * 4096 \<le> unat address \<longleftrightarrow>
        unat (virtual_start r) < unat address + 4096"
      using assms(1) by (auto elim!: dvdE)
    then show ?thesis by (simp add: word_le_nat_alt unat_align_floor_page)
  qed
  ultimately show ?thesis by blast
qed

text \<open>
  \<open>is_valid_address\<close> accepts a page of a VMA exactly when some region in use of an area of
  that VMA has a byte on the page.
\<close>

theorem is_valid_address_iff:
  assumes "4096 dvd unat address"
    and "\<And>a r. a \<in> set as \<Longrightarrow> r \<in> set (regions a) \<Longrightarrow> r_end r \<le> 2 ^ 64 - 4096"
  shows "is_valid_address address v as \<longleftrightarrow>
    (\<exists>a\<in>set as. a_vma a = Some v \<and> (\<exists>r\<in>set (used (regions a)).
       unat (virtual_start r) < unat address + 4096 \<and> unat address < r_end r))"
proof -
  have "(let start = align_floor (virtual_start r) PAGE_SHIFT;
             fin = align_ceil (virtual_start r + r_size r) PAGE_SHIFT
         in address \<ge> start \<and> address < fin \<and> r_free r = 0) \<longleftrightarrow>
      r_free r = 0 \<and> unat (virtual_start r) < unat address + 4096 \<and> unat address < r_end r"
    if "a \<in> set as" "r \<in> set (regions a)" for a r
    using page_in_region_iff [OF assms(1), of r] assms(2) [OF that] by (auto simp: Let_def)
  then show ?thesis
    by (auto simp: is_valid_address_def list_ex_iff used_def)
qed

theorem is_valid_address_iff_witness:
  "is_valid_address 8192 0 [demo_area] \<and> is_valid_address 4096 0 [demo_area] \<and>
   \<not> is_valid_address 12288 0 [demo_area]"
proof -
  have e: "r_end r \<le> 2 ^ 64 - 4096" if "a \<in> set [demo_area]" "r \<in> set (regions a)" for a r
    using that by (auto simp: demo_area_def r_end_def)
  show ?thesis
    using is_valid_address_iff [of 8192 "[demo_area]" 0, OF _ e]
      is_valid_address_iff [of 4096 "[demo_area]" 0, OF _ e]
      is_valid_address_iff [of 12288 "[demo_area]" 0, OF _ e]
    by (auto simp: demo_area_def r_end_def)
qed

end
