(* ===== verification/AreaProps2.thy ===== *)
theory AreaProps2
  imports AreaProps
begin

text \<open>
  Giving regions back, and the inputs on which \<open>area.c\<close> loses its invariants: freeing an address
  twice, a VMA the kernel refused, an uninitialised list head, sizes at both ends of the range.
\<close>

section \<open>Freeing what was allocated\<close>

text \<open>
  C19. Freeing the address of a live region takes away exactly this region, when its start lies
  inside the VMA of its area and of no other area of the process, and the area has no empty
  region.
\<close>

theorem remove_region_exact:
  assumes "areas_ok V as" and "i < length as" and "a_pid (as ! i) = pid"
    and "a_vma (as ! i) = Some v" and "vmas V v = Some vma"
    and "regions (as ! i) = pre @ r # post" and "r_free r = 0"
    and "vm_start vma \<le> virtual_start r" and "virtual_start r < vm_end vma"
    and "\<And>j w b. j < length as \<Longrightarrow> j \<noteq> i \<Longrightarrow> a_pid (as ! j) = pid \<Longrightarrow> a_vma (as ! j) = Some w \<Longrightarrow>
      vmas V w = Some b \<Longrightarrow> \<not> (vm_start b \<le> virtual_start r \<and> virtual_start r < vm_end b)"
    and "unat (vm_start vma) + bytes (regions (as ! i)) < 2 ^ 64"
    and "\<forall>x\<in>set (regions (as ! i)). r_size x \<noteq> 0"
  shows "\<exists>as' cl us ws. remove_region V pid (virtual_start r) as = Inr (as', cl) \<and> areas_ok V as' \<and>
    live as = us @ (pid, r) # ws \<and> live as' = us @ ws \<and>
    free_space (as' ! i) = free_space (as ! i) + r_size r"
proof -
  have each: "\<forall>a\<in>set as. area_ok V a" using assms(1) by (simp add: areas_ok_def)
  then have "area_ok V (as ! i)" using assms(2) by simp
  then have t: "tiled (vm_start vma) (regions (as ! i))"
    using assms(4,5) by (auto simp: area_ok_def regions_wf_def)
  have ga: "get_area V pid (virtual_start r) as = Inr (Some i)"
    by (rule get_area_unique [OF each assms(2-5,8,9,10)])
  have gr: "get_region (as ! i) (virtual_start r) = Some (pre, r, post)"
    by (rule get_region_at [OF assms(6) t assms(11,12)])
  show ?thesis
    by (rule remove_region_at [OF assms(1) ga gr]) (use assms(7) in auto)
qed

theorem remove_region_exact_witness:
  "\<exists>as' cl. remove_region demo_mm 7 7096 [demo_area] = Inr (as', cl) \<and> live as' = [] \<and>
     free_space (as' ! 0) = 8192"
proof -
  let ?p = "[\<lparr>r_free = 1, r_size = 3000, virtual_start = 4096\<rparr>]"
  let ?r = "\<lparr>r_free = 0, r_size = 3000, virtual_start = 7096\<rparr>"
  have rs: "regions ([demo_area] ! 0) = ?p @ ?r # []" by (simp add: demo_area_def)
  have "\<exists>as' cl us ws. remove_region demo_mm 7 (virtual_start ?r) [demo_area] = Inr (as', cl) \<and>
      areas_ok demo_mm as' \<and> live [demo_area] = us @ (7, ?r) # ws \<and> live as' = us @ ws \<and>
      free_space (as' ! 0) = free_space ([demo_area] ! 0) + r_size ?r"
    by (rule remove_region_exact [OF demo_ok(3) _ _ _ _ rs, where v = 0 and vma = "the (vmas demo_mm 0)"])
      (simp_all add: demo_area_def demo_mm_def)
  moreover have "live [demo_area] = [(7, ?r)]" by (simp add: demo_area_def)
  ultimately show ?thesis by (auto simp: demo_area_def Cons_eq_append_conv)
qed

section \<open>Inputs on which the code loses its invariants\<close>

text \<open>
  \<open>remove_region\<close> does not look at the \<open>free\<close> flag: giving back an address whose region is
  free already changes no region, but adds its size to the free space once more.
\<close>

theorem double_free_inflates:
  assumes "areas_ok V as" and "get_area V pid address as = Inr (Some i)"
    and "get_region (as ! i) address = Some (pre, r, post)" and "r_free r = 1"
  shows "\<exists>as' cl. remove_region V pid address as = Inr (as', cl) \<and> live as' = live as \<and>
    free_space (as' ! i) = free_space (as ! i) + r_size r"
  by (rule remove_region_at [OF assms(1-3)]) (use assms(4) in auto)

theorem double_free_inflates_witness:
  "\<exists>as' cl. remove_region demo_mm 7 4096 [demo_area] = Inr (as', cl) \<and>
     live as' = live [demo_area] \<and> free_space (as' ! 0) = 8192"
proof -
  have "get_area demo_mm 7 4096 [demo_area] = Inr (Some 0)"
    by (simp add: demo_area_def demo_mm_def)
  moreover have "get_region ([demo_area] ! 0) 4096 = Some ([], \<lparr>r_free = 1, r_size = 3000, virtual_start = 4096\<rparr>,
      [\<lparr>r_free = 0, r_size = 3000, virtual_start = 7096\<rparr>])"
    by (simp add: demo_area_def get_region_def)
  ultimately show ?thesis
    using double_free_inflates [OF demo_ok(3), of 7 4096 0] by (simp add: demo_area_def)
qed

text \<open>An area whose VMA was refused stays in the list, and the next request runs into it.\<close>

lemma scan_areas_other:
  "\<forall>a\<in>set as. a_pid a \<noteq> pid \<Longrightarrow> scan_areas sz pid V (as @ bs) =
     kbind (scan_areas sz pid V bs) (\<lambda>(V', bs', i). Inr (V', as @ bs', map_option (\<lambda>k. length as + k) i))"
proof (induction as)
  case Nil
  show ?case by (cases "scan_areas sz pid V bs") (auto simp: option.map_ident)
next
  case (Cons a as)
  then show ?case
    by (cases "scan_areas sz pid V bs") (auto simp: Let_def option.map_comp comp_def)
qed

lemma create_region_refused:
  assumes "create_region E V sz task as ops = Inr (V', as', None)"
    and "\<forall>a\<in>set as. a_pid a \<noteq> t_pid task" and "kmalloc_ok E AllocTailRegion"
  obtains a where "as' = as @ [a]" "a_vma a = None" "a_pid a = t_pid task" "regions a = []"
proof -
  let ?sz = "align_ceil sz VMA_SHIFT"
  have scan: "scan_areas x (t_pid task) W as = Inr (W, as, None)" for x W
    using scan_areas_other [OF assms(2), of x W "[]"] by simp
  from assms(1) scan obtain area V2 p where add: "add_area_struct E ?sz (t_pid task) = Inr area"
    "add_vma E V task task ops ?sz = Inr (V2, p)"
    and rest: "(case if p = None then None else Some (length as) of
         None \<Rightarrow> Inr (V2, as @ [area\<lparr>a_vma := p\<rparr>], None)
       | Some i \<Rightarrow> kbind (add_region E V2 ((as @ [area\<lparr>a_vma := p\<rparr>]) ! i) sz) (\<lambda>(a, region).
                     Inr (V2, (as @ [area\<lparr>a_vma := p\<rparr>])[i := a], region))) = Inr (V', as', None)"
    by (auto simp: create_region_def get_area_container_def kbind_eq_Inr Let_def)
  from add(1) have area: "regions area = []" "a_pid area = t_pid task"
    by (auto simp: add_area_struct_def split: if_splits)
  show ?thesis
  proof (cases p)
    case None
    with rest area show ?thesis by (auto intro: that [of "area\<lparr>a_vma := None\<rparr>"])
  next
    case (Some v)
    with rest area assms(3) show ?thesis
      by (auto simp: kbind_eq_Inr add_region_def get_free_region_def add_region_after_def Let_def)
  qed
qed

lemma refused_then_null:
  assumes "create_region E V sz task as ops = Inr (V', as', None)"
    and "\<forall>a\<in>set as. a_pid a \<noteq> t_pid task" and "kmalloc_ok E AllocTailRegion"
    and "kmalloc_ok E' AllocTailRegion"
  shows "create_region E' V' sz' task as' ops = Inl NullDeref"
proof -
  from create_region_refused [OF assms(1-3)] obtain a where as': "as' = as @ [a]"
    and a: "a_vma a = None" "a_pid a = t_pid task" "regions a = []" .
  have "add_region E' V' a sz' = Inl NullDeref"
    using a assms(4) by (simp add: add_region_def get_free_region_def add_region_after_def)
  then show ?thesis
    using a by (simp add: create_region_def get_area_container_def as' scan_areas_other [OF assms(2)]
        extend_vma_def is_last_vma_def Let_def)
qed

text \<open>
  When the kernel refuses the VMA of a new area, the area stays in the list with a NULL
  \<open>vma\<close>.  The next request of the same process then finds this area and the kernel thread dies
  of a NULL dereference, whatever the size requested.
\<close>

theorem refused_vma_poisons:
  assumes "create_region E V sz task as ops = Inr (V', as', None)"
    and "\<forall>a\<in>set as. a_pid a \<noteq> t_pid task" and "kmalloc_ok E AllocTailRegion"
    and "kmalloc_ok E' AllocTailRegion"
  shows "create_region E' V' sz' task as' ops = Inl NullDeref"
  by (rule refused_then_null [OF assms])

theorem refused_vma_poisons_witness:
  "\<exists>V' as'. create_region (linux_ref\<lparr>insert_vm_struct := \<lambda>_ _ _. None\<rparr>) empty_mm 3000 demo_task [] 1 =
       Inr (V', as', None) \<and>
     create_region linux_ref V' 10 demo_task as' 1 = Inl NullDeref"
proof -
  let ?E = "linux_ref\<lparr>insert_vm_struct := \<lambda>_ _ _. None\<rparr>"
  have "case create_region ?E empty_mm 3000 demo_task [] 1 of
      Inr (V', as', r) \<Rightarrow> r = None | _ \<Rightarrow> False"
    by code_simp
  then obtain V' as' where c: "create_region ?E empty_mm 3000 demo_task [] 1 = Inr (V', as', None)"
    by (auto split: sum.splits)
  moreover have "create_region linux_ref V' 10 demo_task as' 1 = Inl NullDeref"
    by (rule refused_vma_poisons [OF c]) (simp_all add: linux_ref_def)
  ultimately show ?thesis by blast
qed

text \<open>
  The list head of an area is a \<open>region_struct\<close> whose \<open>free\<close> field is never initialised, and
  merging the first region reads it.  If the memory happens to hold 1 there, freeing the only
  region of an area frees the list head itself, an address \<open>kmalloc\<close> never returned.
\<close>

theorem uninitialised_head_bad_free:
  assumes "get_area V pid address as = Inr (Some i)" and "regions (as ! i) = [r]"
    and "virtual_start r = address" and "r_free (head (as ! i)) = 1"
  shows "remove_region V pid address as = Inl BadFree"
  using assms
  by (simp add: remove_region_def Let_def get_region_def merge_neighbors_region_def merge_next_def)

theorem uninitialised_head_bad_free_witness:
  "remove_region demo_mm 7 4096 [demo_area\<lparr>head := \<lparr>r_free = 1, r_size = 0, virtual_start = 0\<rparr>,
     regions := [\<lparr>r_free = 0, r_size = 3000, virtual_start = 4096\<rparr>]\<rparr>] = Inl BadFree"
  by (rule uninitialised_head_bad_free
      [where i = 0 and r = "\<lparr>r_free = 0, r_size = 3000, virtual_start = 4096\<rparr>"])
    (simp_all add: demo_area_def demo_mm_def)

text \<open>
  Sizes are not checked for overflow.  A request of \<open>2 ^ 64 - 1\<close> bytes makes the new size of
  the area wrap below the old one, so \<open>extend_vma\<close> shrinks the VMA by a page under a live region
  and grants the request.
\<close>

theorem huge_request_shrinks_vma:
  "(case create_region linux_ref demo_mm (2 ^ 64 - 1) demo_task [demo_area] 1 of
      Inr (V', as', Some r) \<Rightarrow> r_size r = 2 ^ 64 - 1 \<and>
        vm_end (the (vmas V' 0)) < vm_end (the (vmas demo_mm 0)) \<and>
        list_ex (\<lambda>x. unat (vm_end (the (vmas V' 0))) < r_end x) (used (regions demo_area))
    | _ \<Rightarrow> False)"
  by code_simp

text \<open>
  A request of 0 bytes is served by an empty region, and the next request gets the same
  address: the two pointers are not distinct.
\<close>

theorem empty_request_aliases:
  "(case create_region linux_ref demo_mm 0 demo_task
        [demo_area\<lparr>regions := [\<lparr>r_free = 0, r_size = 3000, virtual_start = 4096\<rparr>]\<rparr>] 1 of
      Inr (V1, as1, Some r1) \<Rightarrow>
        (case create_region linux_ref V1 100 demo_task as1 1 of
           Inr (V2, as2, Some r2) \<Rightarrow> virtual_start r1 = virtual_start r2 \<and>
             {(7, r1), (7, r2)} \<subseteq> set (live as2)
         | _ \<Rightarrow> False)
    | _ \<Rightarrow> False)"
  by code_simp

end
