(* ===== verification/Syscall.thy ===== *)
theory Syscall
  imports Kernel
begin

text \<open>
  \<open>src/src/syscall.c\<close>: patching the system call table.  Kernel memory is a map from addresses of
  64-bit words; page table entries live in a map of their own, and \<open>lookup_address\<close>, a
  parameter, finds the entry of an address.  A write to a page whose entry lacks \<open>_PAGE_RW\<close> is
  fatal.
\<close>

unbundle bit_operations_syntax

section \<open>State and environment\<close>

record sysenv =
  sym_addr :: "string \<Rightarrow> u64"           \<comment> \<open>\<open>kallsyms_lookup_name\<close>, 0 for NULL\<close>
  sys_close :: u64
  lookup_address :: "u64 \<Rightarrow> nat option" \<comment> \<open>the page table entry of an address\<close>

record sysmem =
  words :: "u64 \<Rightarrow> u64"
  ptes :: "nat \<Rightarrow> u64"
  syscall_table :: u64
  original_syscall :: u64

text \<open>System call numbers of the target (\<open>SYSCALL_NI1\<close> is \<open>__NR_tuxcall\<close>, \<open>SYSCALL_NI2\<close> \<open>__NR_security\<close>).\<close>

definition NR_close :: u64 where "NR_close = 3"

definition SYSCALL_NI1 :: u64 where "SYSCALL_NI1 = 184"

definition SYSCALL_NI2 :: u64 where "SYSCALL_NI2 = 185"

definition PAGE_RW :: u64 where "PAGE_RW = 2"

definition syscall_table_init :: u64 where
  "syscall_table_init = 0xffffffff81801420"

definition entry :: "u64 \<Rightarrow> u64 \<Rightarrow> u64" where
  "entry p n = p + 8 * n"

definition write_word :: "sysenv \<Rightarrow> u64 \<Rightarrow> u64 \<Rightarrow> sysmem \<Rightarrow> kfault + sysmem" where
  "write_word X address value S =
     (case lookup_address X address of
        None \<Rightarrow> Inl NullDeref
      | Some e \<Rightarrow>
          if ptes S e AND PAGE_RW = 0 then Inl WriteProtected
          else Inr (S\<lparr>words := (words S)(address := value)\<rparr>))"

section \<open>Operations\<close>

definition is_syscall_table :: "sysenv \<Rightarrow> u64 \<Rightarrow> sysmem \<Rightarrow> bool" where
  "is_syscall_table X p S \<longleftrightarrow> p \<noteq> 0 \<and> words S (entry p NR_close) = sys_close X"

definition page_read_write :: "sysenv \<Rightarrow> u64 \<Rightarrow> sysmem \<Rightarrow> kfault + sysmem" where
  "page_read_write X address S =
     (case lookup_address X address of
        None \<Rightarrow> Inl NullDeref
      | Some e \<Rightarrow>
          Inr (if ptes S e AND NOT PAGE_RW \<noteq> 0 then S\<lparr>ptes := (ptes S)(e := ptes S e OR PAGE_RW)\<rparr> else S))"

definition page_read_only :: "sysenv \<Rightarrow> u64 \<Rightarrow> sysmem \<Rightarrow> kfault + sysmem" where
  "page_read_only X address S =
     (case lookup_address X address of
        None \<Rightarrow> Inl NullDeref
      | Some e \<Rightarrow> Inr (S\<lparr>ptes := (ptes S)(e := ptes S e AND NOT PAGE_RW)\<rparr>))"

definition replace_syscall :: "sysenv \<Rightarrow> u64 \<Rightarrow> u64 \<Rightarrow> sysmem \<Rightarrow> kfault + sysmem" where
  "replace_syscall X offset new_syscall S0 =
     (let S = S0\<lparr>syscall_table := sym_addr X ''sys_call_table''\<rparr>; p = syscall_table S in
      if is_syscall_table X p S then
        kbind (page_read_write X p S) (\<lambda>S1.
        kbind (write_word X (entry p offset) new_syscall (S1\<lparr>original_syscall := words S1 (entry p offset)\<rparr>)) (\<lambda>S2.
          page_read_only X p S2))
      else Inr S)"

definition restore_syscall :: "sysenv \<Rightarrow> u64 \<Rightarrow> sysmem \<Rightarrow> kfault + sysmem" where
  "restore_syscall X offset S =
     kbind (page_read_write X (syscall_table S) S) (\<lambda>S1.
     kbind (write_word X (entry (syscall_table S) offset) (original_syscall S1) S1) (\<lambda>S2.
       page_read_only X (syscall_table S) S2))"

section \<open>Effect of the operations\<close>

text \<open>
  The table is found, its page table entry is present, and the entry that is patched lies on the
  page of the start of the table, the only one that is made writable.
\<close>

definition table_found :: "sysenv \<Rightarrow> nat \<Rightarrow> u64 \<Rightarrow> sysmem \<Rightarrow> bool" where
  "table_found X e offset S \<longleftrightarrow> sym_addr X ''sys_call_table'' \<noteq> 0 \<and>
     words S (entry (sym_addr X ''sys_call_table'') NR_close) = sys_close X \<and>
     lookup_address X (sym_addr X ''sys_call_table'') = Some e \<and>
     lookup_address X (entry (sym_addr X ''sys_call_table'') offset) = Some e \<and>
     ptes S e AND NOT PAGE_RW \<noteq> 0"

lemma rw_bit: "(x OR PAGE_RW) AND PAGE_RW \<noteq> 0"
  by (simp add: PAGE_RW_def bit_eq_iff) (rule exI [of _ 1], simp add: bit_simps)

lemma rw_nonzero [simp]: "PAGE_RW \<noteq> 0"
  by (simp add: PAGE_RW_def)

lemma rw_mask: "(x OR PAGE_RW) AND NOT PAGE_RW = x AND NOT PAGE_RW"
  by (rule bit_eqI) (auto simp: bit_simps)

lemma replace_syscall_eq:
  assumes "table_found X e offset S"
  defines "p \<equiv> sym_addr X ''sys_call_table''"
  shows "replace_syscall X offset f S = Inr (S\<lparr>syscall_table := p, original_syscall := words S (entry p offset),
    words := (words S)(entry p offset := f), ptes := (ptes S)(e := ptes S e AND NOT PAGE_RW)\<rparr>)"
  using assms
  by (simp add: replace_syscall_def table_found_def is_syscall_table_def page_read_write_def page_read_only_def
      write_word_def Let_def rw_bit rw_mask)

lemma restore_syscall_eq:
  assumes "lookup_address X (syscall_table S) = Some e" and "lookup_address X (entry (syscall_table S) offset) = Some e"
    and "ptes S e AND NOT PAGE_RW \<noteq> 0"
  shows "restore_syscall X offset S = Inr (S\<lparr>words := (words S)(entry (syscall_table S) offset := original_syscall S),
    ptes := (ptes S)(e := ptes S e AND NOT PAGE_RW)\<rparr>)"
  using assms
  by (simp add: restore_syscall_def page_read_write_def page_read_only_def write_word_def rw_bit rw_mask)

text \<open>Patching one entry leaves the table recognisable and the other entries alone.\<close>

lemma entry_eq_iff: "unat m < 2 ^ 32 \<Longrightarrow> unat n < 2 ^ 32 \<Longrightarrow> entry p m = entry p n \<longleftrightarrow> m = n"
proof -
  assume a: "unat m < 2 ^ 32" "unat n < 2 ^ 32"
  then have "unat (8 * m) = 8 * unat m" "unat (8 * n) = 8 * unat n"
    by (simp_all add: unat_word_ariths)
  then have "8 * m = 8 * n \<longleftrightarrow> m = n"
    by (metis mult_left_cancel word_unat_eq_iff zero_neq_numeral)
  then show ?thesis by (simp add: entry_def)
qed

lemma entries_differ [simp]:
  "entry p SYSCALL_NI1 \<noteq> entry p SYSCALL_NI2" "entry p SYSCALL_NI2 \<noteq> entry p SYSCALL_NI1"
  "entry p NR_close \<noteq> entry p SYSCALL_NI1" "entry p NR_close \<noteq> entry p SYSCALL_NI2"
  by (simp_all add: entry_eq_iff SYSCALL_NI1_def SYSCALL_NI2_def NR_close_def)

text \<open>Both patches, as loading the module makes them, and both restorations in reverse order.\<close>

definition patched :: "u64 \<Rightarrow> u64 \<Rightarrow> u64 \<Rightarrow> nat \<Rightarrow> sysmem \<Rightarrow> sysmem" where
  "patched p f g e S = S\<lparr>syscall_table := p, original_syscall := words S (entry p SYSCALL_NI2),
     words := (words S)(entry p SYSCALL_NI1 := f, entry p SYSCALL_NI2 := g),
     ptes := (ptes S)(e := ptes S e AND NOT PAGE_RW)\<rparr>"

lemma patch_both:
  assumes "table_found X e SYSCALL_NI1 S" and "table_found X e SYSCALL_NI2 S"
  shows "kbind (replace_syscall X SYSCALL_NI1 f S) (replace_syscall X SYSCALL_NI2 g) =
    Inr (patched (sym_addr X ''sys_call_table'') f g e S)"
proof -
  let ?p = "sym_addr X ''sys_call_table''"
  define S1 where "S1 = S\<lparr>syscall_table := ?p, original_syscall := words S (entry ?p SYSCALL_NI1),
    words := (words S)(entry ?p SYSCALL_NI1 := f), ptes := (ptes S)(e := ptes S e AND NOT PAGE_RW)\<rparr>"
  have "table_found X e SYSCALL_NI2 S1"
    using assms(2) by (simp add: table_found_def S1_def and.assoc)
  from replace_syscall_eq [OF this, of g] replace_syscall_eq [OF assms(1), of f, folded S1_def]
  show ?thesis by (simp add: S1_def patched_def and.assoc)
qed

lemma restore_both:
  assumes "table_found X e SYSCALL_NI1 S" and "table_found X e SYSCALL_NI2 S"
  defines "p \<equiv> sym_addr X ''sys_call_table''"
  shows "\<exists>S'. kbind (restore_syscall X SYSCALL_NI2 (patched p f g e S)) (restore_syscall X SYSCALL_NI1) = Inr S' \<and>
    words S' = (words S)(entry p SYSCALL_NI1 := words S (entry p SYSCALL_NI2))"
proof -
  define P where "P = patched p f g e S"
  have P: "syscall_table P = p" "original_syscall P = words S (entry p SYSCALL_NI2)"
    "ptes P e = ptes S e AND NOT PAGE_RW"
    "words P = (words S)(entry p SYSCALL_NI1 := f, entry p SYSCALL_NI2 := g)"
    by (simp_all add: P_def patched_def)
  have t: "lookup_address X p = Some e" "lookup_address X (entry p SYSCALL_NI1) = Some e"
    "lookup_address X (entry p SYSCALL_NI2) = Some e" "ptes S e AND NOT PAGE_RW \<noteq> 0"
    using assms by (simp_all add: table_found_def)
  from restore_syscall_eq [of X P e SYSCALL_NI2] t P obtain Q where
    Q: "restore_syscall X SYSCALL_NI2 P = Inr Q" "syscall_table Q = p" "original_syscall Q = original_syscall P"
      "words Q = (words P)(entry p SYSCALL_NI2 := original_syscall P)" "ptes Q e = ptes S e AND NOT PAGE_RW"
    by (simp add: and.assoc)
  from restore_syscall_eq [of X Q e SYSCALL_NI1] t Q obtain R where
    "restore_syscall X SYSCALL_NI1 Q = Inr R" "words R = (words Q)(entry p SYSCALL_NI1 := original_syscall Q)"
    by simp
  with Q P show ?thesis by (simp add: P_def [symmetric] fun_eq_iff)
qed

end
