(* ===== verification/StoredPage.thy ===== *)
theory StoredPage
  imports Kernel
begin

text \<open>
  \<open>src/src/stored_page.c\<close>: the list of pages that are in storage, by process and page
  address.  Its users only need a finite set of keys with three operations, the contract
  \<open>page_index\<close>; the list keeps it as long as no key is entered twice.
\<close>

section \<open>Data and operations\<close>

record stored_page =
  sp_pid :: pid_t
  sp_start :: u64

definition init_stored_pages :: "stored_page list" where
  "init_stored_pages = []"

definition add_stored_page ::
  "kenv \<Rightarrow> pid_t \<Rightarrow> u64 \<Rightarrow> stored_page list \<Rightarrow> stored_page list \<times> stored_page option" where
  "add_stored_page E pid start stored_pages =
     (if \<not> kmalloc_ok E (AllocStoredPage pid start) then (stored_pages, None)
      else (let page = \<lparr>sp_pid = pid, sp_start = start\<rparr> in (stored_pages @ [page], Some page)))"

fun is_stored_page :: "pid_t \<Rightarrow> u64 \<Rightarrow> stored_page list \<Rightarrow> bool" where
  "is_stored_page pid start [] = False"
| "is_stored_page pid start (page # pages) =
     (if sp_pid page = pid \<and> sp_start page = start then True else is_stored_page pid start pages)"

definition remove_stored_page :: "pid_t \<Rightarrow> u64 \<Rightarrow> stored_page list \<Rightarrow> stored_page list" where
  "remove_stored_page pid start stored_pages =
     remove_first (\<lambda>page. sp_pid page = pid \<and> sp_start page = start) stored_pages"

fun remove_stored_pages :: "stored_page list \<Rightarrow> stored_page list" where
  "remove_stored_pages [] = []"
| "remove_stored_pages (page # pages) = remove_stored_pages pages"

section \<open>The contract\<close>

text \<open>
  An index of pages: a set of keys with insertion and removal.  Removal need only work on an
  index that keeps the invariant \<open>inv\<close>; insertion need only keep it for a new key.
\<close>

locale page_index =
  fixes inv :: "'i \<Rightarrow> bool"
    and keys :: "'i \<Rightarrow> (pid_t \<times> u64) set"
    and mem :: "pid_t \<Rightarrow> u64 \<Rightarrow> 'i \<Rightarrow> bool"
    and ins :: "pid_t \<Rightarrow> u64 \<Rightarrow> 'i \<Rightarrow> 'i"
    and del :: "pid_t \<Rightarrow> u64 \<Rightarrow> 'i \<Rightarrow> 'i"
  assumes mem_keys: "mem p a i \<longleftrightarrow> (p, a) \<in> keys i"
    and keys_ins: "keys (ins p a i) = insert (p, a) (keys i)"
    and inv_ins: "inv i \<Longrightarrow> (p, a) \<notin> keys i \<Longrightarrow> inv (ins p a i)"
    and keys_del: "inv i \<Longrightarrow> keys (del p a i) = keys i - {(p, a)}"
    and inv_del: "inv i \<Longrightarrow> inv (del p a i)"
begin

text \<open>Entering a key only when it is absent, as \<open>copy_page_from_user\<close> does.\<close>

lemma enter_once:
  assumes "inv i"
  shows "keys (if mem p a i then i else ins p a i) = insert (p, a) (keys i)"
    and "inv (if mem p a i then i else ins p a i)"
  using assms by (auto simp: mem_keys keys_ins inv_ins)

text \<open>Removing a sequence of pages of one process, those a condition picks.\<close>

lemma del_all:
  assumes "inv i"
  shows "keys (fold (\<lambda>a i. if mem p a i \<and> P a then del p a i else i) as i) =
      keys i - {(p, a) |a. a \<in> set as \<and> P a} \<and>
    inv (fold (\<lambda>a i. if mem p a i \<and> P a then del p a i else i) as i)"
  using assms
proof (induction as arbitrary: i)
  case (Cons a as)
  define j where "j = (if mem p a i \<and> P a then del p a i else i)"
  have j: "inv j" "keys j = keys i - {(p, b) |b. b = a \<and> P b}"
    using Cons.prems by (auto simp: j_def mem_keys keys_del inv_del)
  then show ?case
    using Cons.IH [OF j(1)] by (auto simp: j_def [symmetric])
qed simp

end

section \<open>The list keeps the contract\<close>

definition page_key :: "stored_page \<Rightarrow> pid_t \<times> u64" where
  "page_key page = (sp_pid page, sp_start page)"

definition page_keys :: "stored_page list \<Rightarrow> (pid_t \<times> u64) set" where
  "page_keys pages = page_key ` set pages"

definition pages_ok :: "stored_page list \<Rightarrow> bool" where
  "pages_ok pages \<longleftrightarrow> distinct (map page_key pages)"

lemma is_stored_page_iff: "is_stored_page pid start pages \<longleftrightarrow> (pid, start) \<in> page_keys pages"
  by (induction pages) (auto simp: page_keys_def page_key_def)

lemma page_keys_simps [simp]:
  "page_keys [] = {}" "page_keys (xs @ ys) = page_keys xs \<union> page_keys ys"
  "page_keys (x # xs) = insert (page_key x) (page_keys xs)"
  by (auto simp: page_keys_def)

lemma remove_stored_page_filter:
  assumes "pages_ok pages"
  shows "remove_stored_page pid start pages = filter (\<lambda>page. page_key page \<noteq> (pid, start)) pages"
proof -
  have "(\<lambda>page. sp_pid page = pid \<and> sp_start page = start) = (\<lambda>page. page_key page = (pid, start))"
    by (auto simp: page_key_def)
  with assms show ?thesis
    by (simp add: remove_stored_page_def pages_ok_def remove_first_filter)
qed

lemma page_keys_filter: "page_keys (filter (\<lambda>page. page_key page \<noteq> k) pages) = page_keys pages - {k}"
  by (auto simp: page_keys_def)

lemma pages_ok_add:
  "pages_ok pages \<Longrightarrow> (pid, start) \<notin> page_keys pages \<Longrightarrow>
     pages_ok (pages @ [\<lparr>sp_pid = pid, sp_start = start\<rparr>])"
  by (auto simp: pages_ok_def page_keys_def page_key_def)

lemma pages_ok_filter: "pages_ok pages \<Longrightarrow> pages_ok (filter P pages)"
  by (simp add: pages_ok_def distinct_map_filter)

definition ins_stored_page :: "pid_t \<Rightarrow> u64 \<Rightarrow> stored_page list \<Rightarrow> stored_page list" where
  "ins_stored_page pid start pages = fst (add_stored_page linux_ref pid start pages)"

lemma add_stored_page_ok:
  "kmalloc_ok E (AllocStoredPage pid start) \<Longrightarrow>
     add_stored_page E pid start pages =
       (ins_stored_page pid start pages, Some \<lparr>sp_pid = pid, sp_start = start\<rparr>)"
  by (simp add: add_stored_page_def ins_stored_page_def linux_ref_def Let_def)

interpretation spi: page_index pages_ok page_keys is_stored_page ins_stored_page remove_stored_page
proof unfold_locales
  fix p a i
  show "is_stored_page p a i \<longleftrightarrow> (p, a) \<in> page_keys i"
    by (rule is_stored_page_iff)
  have eq: "ins_stored_page p a i = i @ [\<lparr>sp_pid = p, sp_start = a\<rparr>]"
    by (simp add: ins_stored_page_def add_stored_page_def linux_ref_def Let_def)
  show "page_keys (ins_stored_page p a i) = insert (p, a) (page_keys i)"
    by (simp add: eq page_key_def)
  show "pages_ok (ins_stored_page p a i)" if "pages_ok i" "(p, a) \<notin> page_keys i"
    using that by (simp add: eq pages_ok_add)
  show "page_keys (remove_stored_page p a i) = page_keys i - {(p, a)}" if "pages_ok i"
    using that by (simp add: remove_stored_page_filter page_keys_filter)
  show "pages_ok (remove_stored_page p a i)" if "pages_ok i"
    using that by (simp add: remove_stored_page_filter pages_ok_filter)
qed

section \<open>Properties\<close>

text \<open>
  The list of stored pages is a set of (process, page) keys: on a list without duplicates,
  \<open>add_stored_page\<close> of a new key adds exactly this key (or, without memory, nothing),
  \<open>remove_stored_page\<close> removes exactly its key, both keep the list free of duplicates, and
  \<open>is_stored_page\<close> tests membership.
\<close>

theorem stored_pages_are_a_set:
  assumes "pages_ok pages" and "\<not> is_stored_page pid start pages"
  shows "page_keys (fst (add_stored_page E pid start pages)) =
      (if snd (add_stored_page E pid start pages) = None then page_keys pages
       else insert (pid, start) (page_keys pages)) \<and>
    pages_ok (fst (add_stored_page E pid start pages)) \<and>
    page_keys (remove_stored_page p a pages) = page_keys pages - {(p, a)} \<and>
    pages_ok (remove_stored_page p a pages) \<and>
    (is_stored_page p a pages \<longleftrightarrow> (p, a) \<in> page_keys pages)"
proof -
  have "(pid, start) \<notin> page_keys pages" using assms(2) by (simp add: spi.mem_keys)
  then have "pages_ok (fst (add_stored_page E pid start pages))"
    using assms(1) by (simp add: add_stored_page_def Let_def pages_ok_add)
  then show ?thesis
    using assms(1) by (auto simp: spi.keys_del spi.inv_del spi.mem_keys add_stored_page_def Let_def page_key_def)
qed

theorem stored_pages_are_a_set_witness:
  "page_keys (fst (add_stored_page linux_ref 7 4096 [\<lparr>sp_pid = 7, sp_start = 8192\<rparr>])) =
     {(7, 4096), (7, 8192)}"
  using stored_pages_are_a_set [of "[\<lparr>sp_pid = 7, sp_start = 8192\<rparr>]" 7 4096 linux_ref 7 4096]
  by (simp add: pages_ok_def page_key_def add_stored_page_def linux_ref_def Let_def)

end
