(* ===== verification/MappedBuffer.thy ===== *)
theory MappedBuffer
  imports Kernel
begin

text \<open>
  \<open>src/src/mapped_buffer.c\<close>: for each process the two pages of module memory that can be
  mapped into it, the current \<open>buffer\<close> and the \<open>cache\<close>, and where each of them is mapped.

  The pages come from \<open>vmalloc_user\<close>.  A pointer to one is a frame number; \<open>content\<close> holds the
  bytes and \<open>owned\<close> tells which frames the module has allocated and not freed.  A user mapping
  of a frame keeps its bytes alive after \<open>vfree\<close> (the kernel counts page references), so
  \<open>content\<close> is total; \<open>vfree\<close> of a frame that is not owned is fatal.
\<close>

section \<open>Module memory\<close>

record pmem =
  content :: "frame \<Rightarrow> page"
  owned :: "frame \<Rightarrow> bool"
  next_frame :: frame

definition no_frames :: pmem where
  "no_frames = \<lparr>content = (\<lambda>_. zero_page), owned = (\<lambda>_. False), next_frame = 0\<rparr>"

definition vmalloc_user :: "pmem \<Rightarrow> pmem \<times> frame" where
  "vmalloc_user M =
     (let f = next_frame M
      in (M\<lparr>content := (content M)(f := zero_page), owned := (owned M)(f := True),
            next_frame := Suc f\<rparr>, f))"

definition vfree :: "pmem \<Rightarrow> frame \<Rightarrow> kfault + pmem" where
  "vfree M f = (if owned M f then Inr (M\<lparr>owned := (owned M)(f := False)\<rparr>) else Inl BadFree)"

section \<open>Data and operations\<close>

record mapped_buffer =
  b_buffer :: "frame option"
  b_vma :: "vid option"
  b_start :: u64
  b_pid :: pid_t
  b_cache :: "frame option"
  b_cache_vma :: "vid option"
  b_cache_start :: u64

definition init_buffers :: "mapped_buffer list" where
  "init_buffers = []"

text \<open>The entry of a process, as its index in the list.\<close>

fun get_buffer :: "pid_t \<Rightarrow> mapped_buffer list \<Rightarrow> nat option" where
  "get_buffer pid [] = None"
| "get_buffer pid (buffer # buffers) =
     (if b_pid buffer = pid then Some 0 else map_option Suc (get_buffer pid buffers))"

definition swap_buffer_cache :: "mapped_buffer \<Rightarrow> mapped_buffer" where
  "swap_buffer_cache buffer =
     (let buf = b_buffer buffer; vma = b_vma buffer; start = b_start buffer;
          buffer1 = buffer\<lparr>b_buffer := b_cache buffer, b_vma := b_cache_vma buffer,
                           b_start := b_cache_start buffer\<rparr>
      in buffer1\<lparr>b_cache := buf, b_cache_vma := vma, b_cache_start := start\<rparr>)"

text \<open>\<open>if (p) vfree(p)\<close>\<close>

definition vfree_if :: "pmem \<Rightarrow> frame option \<Rightarrow> kfault + pmem" where
  "vfree_if M p = (case p of None \<Rightarrow> Inr M | Some f \<Rightarrow> vfree M f)"

definition remove_buffer :: "pid_t \<Rightarrow> pmem \<Rightarrow> mapped_buffer list \<Rightarrow> kfault + pmem \<times> mapped_buffer list" where
  "remove_buffer pid M buffers =
     (case get_buffer pid buffers of
        None \<Rightarrow> Inr (M, buffers)
      | Some i \<Rightarrow>
          kbind (vfree_if M (b_buffer (buffers ! i))) (\<lambda>M1.
          kbind (vfree_if M1 (b_cache (buffers ! i))) (\<lambda>M2.
            Inr (M2, take i buffers @ drop (Suc i) buffers))))"

text \<open>
  When the second \<open>vmalloc_user\<close> fails, the first page is given to \<open>kfree\<close>, which did not
  allocate it.  The two \<open>start\<close> fields are not initialised.
\<close>

definition add_buffer ::
  "kenv \<Rightarrow> pid_t \<Rightarrow> pmem \<Rightarrow> mapped_buffer list \<Rightarrow> kfault + pmem \<times> mapped_buffer list \<times> nat option" where
  "add_buffer E pid M buffers =
     (if \<not> kmalloc_ok E AllocMappedBuffer then Inr (M, buffers, None)
      else if \<not> kmalloc_ok E AllocBufferPage then Inr (M, buffers, None)
      else (case vmalloc_user M of (M1, f) \<Rightarrow>
        if \<not> kmalloc_ok E AllocCachePage then Inl BadFree
        else (case vmalloc_user M1 of (M2, g) \<Rightarrow>
          Inr (M2, buffers @ [\<lparr>b_buffer = Some f, b_vma = None, b_start = junk_long E, b_pid = pid,
                               b_cache = Some g, b_cache_vma = None, b_cache_start = junk_long E\<rparr>],
               Some (length buffers)))))"

fun remove_buffers :: "pmem \<Rightarrow> mapped_buffer list \<Rightarrow> kfault + pmem" where
  "remove_buffers M [] = Inr M"
| "remove_buffers M (buffer # buffers) =
     kbind (vfree_if M (b_buffer buffer)) (\<lambda>M1.
     kbind (vfree_if M1 (b_cache buffer)) (\<lambda>M2. remove_buffers M2 buffers))"

section \<open>The contract of a table keyed by process\<close>

locale keyed_table =
  fixes inv :: "'t \<Rightarrow> bool"
    and key :: "'b \<Rightarrow> pid_t"
    and lookup :: "pid_t \<Rightarrow> 't \<Rightarrow> 'b option"
    and put :: "'b \<Rightarrow> 't \<Rightarrow> 't"
    and del :: "pid_t \<Rightarrow> 't \<Rightarrow> 't"
  assumes lookup_key: "lookup p t = Some b \<Longrightarrow> key b = p"
    and lookup_put: "lookup p (put b t) = (if p = key b then Some b else lookup p t)"
    and inv_put: "inv t \<Longrightarrow> inv (put b t)"
    and lookup_del: "inv t \<Longrightarrow> lookup p (del q t) = (if p = q then None else lookup p t)"
    and inv_del: "inv t \<Longrightarrow> inv (del p t)"
begin

lemma put_put: "lookup p (put b (put c t)) = lookup p (put b t)" if "key b = key c"
  using that by (simp add: lookup_put)

lemma all_put:
  assumes "\<And>p c. lookup p t = Some c \<Longrightarrow> P c" and "P b" and "lookup p (put b t) = Some c"
  shows "P c"
  using assms by (auto simp: lookup_put split: if_splits)

lemma pairs_put:
  assumes "\<And>p q c d. lookup p t = Some c \<Longrightarrow> lookup q t = Some d \<Longrightarrow> p \<noteq> q \<Longrightarrow> R c d"
    and "\<And>q d. lookup q t = Some d \<Longrightarrow> q \<noteq> key b \<Longrightarrow> R b d \<and> R d b"
    and "lookup p (put b t) = Some c" and "lookup q (put b t) = Some d" and "p \<noteq> q"
  shows "R c d"
  using assms by (auto simp: lookup_put split: if_splits)

lemma all_del:
  assumes "inv t" and "\<And>p c. lookup p t = Some c \<Longrightarrow> P c" and "lookup p (del q t) = Some c"
  shows "P c"
  using assms by (auto simp: lookup_del split: if_splits)

end

section \<open>The list of buffers keeps it\<close>

definition buffer_of :: "pid_t \<Rightarrow> mapped_buffer list \<Rightarrow> mapped_buffer option" where
  "buffer_of pid buffers = map_option ((!) buffers) (get_buffer pid buffers)"

definition put_buffer :: "mapped_buffer \<Rightarrow> mapped_buffer list \<Rightarrow> mapped_buffer list" where
  "put_buffer b buffers =
     (case get_buffer (b_pid b) buffers of None \<Rightarrow> buffers @ [b] | Some i \<Rightarrow> buffers[i := b])"

definition drop_buffer :: "pid_t \<Rightarrow> mapped_buffer list \<Rightarrow> mapped_buffer list" where
  "drop_buffer pid buffers =
     (case get_buffer pid buffers of None \<Rightarrow> buffers | Some i \<Rightarrow> take i buffers @ drop (Suc i) buffers)"

lemma buffer_of_simps [simp]:
  "buffer_of pid [] = None"
  "buffer_of pid (b # bs) = (if b_pid b = pid then Some b else buffer_of pid bs)"
  by (auto simp: buffer_of_def option.map_comp comp_def)

lemma buffer_of_find: "buffer_of pid bs = find (\<lambda>b. b_pid b = pid) bs"
  by (induction bs) auto

lemma get_buffer_Some:
  "get_buffer pid bs = Some i \<Longrightarrow>
     i < length bs \<and> b_pid (bs ! i) = pid \<and> (\<forall>j<i. b_pid (bs ! j) \<noteq> pid)"
  by (induction bs arbitrary: i) (auto simp: nth_Cons less_Suc_eq_0_disj split: if_splits nat.split)

lemma get_buffer_None: "get_buffer pid bs = None \<longleftrightarrow> pid \<notin> b_pid ` set bs"
  by (induction bs) auto

lemma buffer_of_append:
  "buffer_of pid (xs @ ys) = (case buffer_of pid xs of None \<Rightarrow> buffer_of pid ys | Some b \<Rightarrow> Some b)"
  by (induction xs) auto

lemma put_buffer_simps [simp]:
  "put_buffer b [] = [b]"
  "put_buffer b (c # cs) = (if b_pid c = b_pid b then b # cs else c # put_buffer b cs)"
  by (auto simp: put_buffer_def split: option.split)

lemma drop_buffer_simps [simp]:
  "drop_buffer pid [] = []"
  "drop_buffer pid (c # cs) = (if b_pid c = pid then cs else c # drop_buffer pid cs)"
  by (auto simp: drop_buffer_def split: option.split)

lemma buffer_of_None: "pid \<notin> b_pid ` set bs \<Longrightarrow> buffer_of pid bs = None"
  by (induction bs) auto

interpretation bt: keyed_table "\<lambda>bs. distinct (map b_pid bs)" b_pid buffer_of put_buffer drop_buffer
proof unfold_locales
  fix p q :: pid_t and bs b
  show "b_pid b = p" if "buffer_of p bs = Some b"
    using that by (induction bs) (auto split: if_splits)
  show "buffer_of p (put_buffer b bs) = (if p = b_pid b then Some b else buffer_of p bs)"
    by (induction bs) auto
  have "b_pid ` set (put_buffer b cs) = insert (b_pid b) (b_pid ` set cs)" for cs
    by (induction cs) auto
  then show "distinct (map b_pid (put_buffer b bs))" if "distinct (map b_pid bs)"
    using that by (induction bs) (auto simp: image_iff)
  show "buffer_of p (drop_buffer q bs) = (if p = q then None else buffer_of p bs)"
    if "distinct (map b_pid bs)"
    using that by (induction bs) (auto intro: buffer_of_None)
  have "set (drop_buffer p cs) \<subseteq> set cs" for cs
    by (induction cs) auto
  then show "distinct (map b_pid (drop_buffer p bs))" if "distinct (map b_pid bs)"
    using that by (induction bs) (auto simp: image_iff subset_iff)
qed

lemma put_buffer_update:
  "get_buffer pid bs = Some i \<Longrightarrow> b_pid b = pid \<Longrightarrow> bs[i := b] = put_buffer b bs"
  by (simp add: put_buffer_def)

lemma put_buffer_new: "get_buffer (b_pid b) bs = None \<Longrightarrow> bs @ [b] = put_buffer b bs"
  by (simp add: put_buffer_def)

lemma get_buffer_buffer_of:
  "get_buffer pid bs = Some i \<Longrightarrow> buffer_of pid bs = Some (bs ! i)"
  "get_buffer pid bs = None \<Longrightarrow> buffer_of pid bs = None"
  "buffer_of pid bs = Some b \<Longrightarrow> \<exists>i. get_buffer pid bs = Some i \<and> bs ! i = b"
  by (auto simp: buffer_of_def)

section \<open>Frames of the buffers\<close>

definition frames_of :: "mapped_buffer \<Rightarrow> frame list" where
  "frames_of b = (case b_buffer b of None \<Rightarrow> [] | Some f \<Rightarrow> [f]) @
                 (case b_cache b of None \<Rightarrow> [] | Some f \<Rightarrow> [f])"

text \<open>
  Well-formed buffers: one entry for each process, each with two frames, all frames distinct,
  allocated and not freed.
\<close>

definition buffers_ok :: "pmem \<Rightarrow> mapped_buffer list \<Rightarrow> bool" where
  "buffers_ok M buffers \<longleftrightarrow> distinct (map b_pid buffers) \<and>
     distinct (concat (map frames_of buffers)) \<and>
     (\<forall>b\<in>set buffers. b_buffer b \<noteq> None \<and> b_cache b \<noteq> None \<and>
        (\<forall>f\<in>set (frames_of b). owned M f)) \<and>
     (\<forall>f. owned M f \<longrightarrow> f < next_frame M)"

lemma buffers_ok_Cons:
  "buffers_ok M (b # bs) \<longleftrightarrow> buffers_ok M bs \<and> b_pid b \<notin> b_pid ` set bs \<and>
     (\<exists>f g. b_buffer b = Some f \<and> b_cache b = Some g \<and> f \<noteq> g \<and> owned M f \<and> owned M g \<and>
        (\<forall>c\<in>set bs. f \<notin> set (frames_of c) \<and> g \<notin> set (frames_of c)))"
  by (auto simp: buffers_ok_def frames_of_def)

lemma frames_of_Some: "b_buffer b = Some f \<Longrightarrow> b_cache b = Some g \<Longrightarrow> frames_of b = [f, g]"
  by (simp add: frames_of_def)

lemma frames_member: "f \<in> set (frames_of b) \<longleftrightarrow> b_buffer b = Some f \<or> b_cache b = Some f"
  by (auto simp: frames_of_def split: option.splits)

lemma buffers_ok_mid:
  "buffers_ok M (pre @ b # post) \<longleftrightarrow> buffers_ok M (pre @ post) \<and> b_pid b \<notin> b_pid ` set (pre @ post) \<and>
     (\<exists>f g. b_buffer b = Some f \<and> b_cache b = Some g \<and> f \<noteq> g \<and> owned M f \<and> owned M g \<and>
        (\<forall>c\<in>set (pre @ post). f \<notin> set (frames_of c) \<and> g \<notin> set (frames_of c)))"
proof (induction pre)
  case (Cons a pre)
  show ?case
    unfolding append_Cons buffers_ok_Cons [of M a] Cons.IH
    by (auto simp: frames_of_Some)
qed (simp add: buffers_ok_Cons)

lemma buffer_of_split:
  assumes "buffer_of p bs = Some c"
  obtains pre post where "bs = pre @ c # post" "\<And>b. b_pid b = p \<Longrightarrow> put_buffer b bs = pre @ b # post"
    "drop_buffer p bs = pre @ post"
proof -
  from assms have "\<exists>pre post. bs = pre @ c # post \<and> (\<forall>b. b_pid b = p \<longrightarrow> put_buffer b bs = pre @ b # post) \<and>
      drop_buffer p bs = pre @ post"
  proof (induction bs)
    case (Cons a bs)
    show ?case
    proof (cases "b_pid a = p")
      case True
      with Cons.prems show ?thesis by (intro exI [of _ "[]"] exI [of _ bs]) auto
    next
      case False
      with Cons obtain pre post where "bs = pre @ c # post \<and>
        (\<forall>b. b_pid b = p \<longrightarrow> put_buffer b bs = pre @ b # post) \<and> drop_buffer p bs = pre @ post" by auto
      with False show ?thesis by (intro exI [of _ "a # pre"] exI [of _ post]) auto
    qed
  qed simp
  then show ?thesis using that by blast
qed

lemma remove_buffers_ok:
  assumes "buffers_ok M bs"
  shows "\<exists>M'. remove_buffers M bs = Inr M' \<and> content M' = content M \<and> next_frame M' = next_frame M \<and>
    (\<forall>f. owned M' f \<longleftrightarrow> owned M f \<and> f \<notin> set (concat (map frames_of bs)))"
  using assms
proof (induction bs arbitrary: M)
  case (Cons b bs)
  then obtain f g where b: "b_buffer b = Some f" "b_cache b = Some g" "f \<noteq> g" "owned M f" "owned M g"
    "\<forall>c\<in>set bs. f \<notin> set (frames_of c) \<and> g \<notin> set (frames_of c)"
    by (auto simp: buffers_ok_Cons)
  define M2 where "M2 = M\<lparr>owned := (owned M)(f := False, g := False)\<rparr>"
  have "buffers_ok M2 bs"
    using Cons.prems b(6) by (auto simp: buffers_ok_Cons) (auto simp: buffers_ok_def M2_def)
  from Cons.IH [OF this] obtain M' where M': "remove_buffers M2 bs = Inr M'" "content M' = content M2"
    "next_frame M' = next_frame M2" "\<forall>f. owned M' f \<longleftrightarrow> owned M2 f \<and> f \<notin> set (concat (map frames_of bs))"
    by auto
  have "remove_buffers M (b # bs) = Inr M'"
    using M'(1) b(1-5) by (simp add: vfree_if_def vfree_def M2_def)
  with M'(2-4) b(1,2) show ?case
    by (intro exI [of _ M']) (auto simp: M2_def frames_of_def)
qed (simp)

lemma remove_buffer_ok:
  assumes "buffers_ok M bs"
  shows "\<exists>M'. remove_buffer pid M bs = Inr (M', drop_buffer pid bs) \<and> content M' = content M \<and>
    next_frame M' = next_frame M \<and> (\<forall>f. owned M' f \<longrightarrow> owned M f) \<and>
    (\<forall>b. buffer_of pid bs = Some b \<longrightarrow> (\<forall>f\<in>set (frames_of b). \<not> owned M' f)) \<and>
    buffers_ok M' (drop_buffer pid bs)"
proof (cases "get_buffer pid bs")
  case None
  then show ?thesis
    using assms by (simp add: remove_buffer_def drop_buffer_def get_buffer_buffer_of)
next
  case (Some i)
  define b where "b = bs ! i"
  have of: "buffer_of pid bs = Some b"
    using get_buffer_buffer_of(1) [OF Some] by (simp add: b_def)
  then obtain pre post where bs: "bs = pre @ b # post" and drop: "drop_buffer pid bs = pre @ post"
    by (rule buffer_of_split)
  from assms obtain f g where fg: "b_buffer b = Some f" "b_cache b = Some g" "f \<noteq> g"
    "owned M f" "owned M g" and ok: "buffers_ok M (pre @ post)"
    and rest: "\<forall>c\<in>set (pre @ post). f \<notin> set (frames_of c) \<and> g \<notin> set (frames_of c)"
    unfolding bs buffers_ok_mid by blast
  define M' where "M' = M\<lparr>owned := (owned M)(f := False, g := False)\<rparr>"
  have "remove_buffer pid M bs = Inr (M', drop_buffer pid bs)"
    using Some fg by (simp add: remove_buffer_def drop_buffer_def b_def vfree_if_def vfree_def M'_def)
  moreover have "buffers_ok M' (pre @ post)"
    using ok rest by (fastforce simp: buffers_ok_def M'_def)
  ultimately show ?thesis
    using fg of by (intro exI [of _ M']) (auto simp: M'_def frames_of_Some [OF fg(1,2)] drop)
qed

lemma frames_swap: "set (frames_of (swap_buffer_cache b)) = set (frames_of b)"
  by (auto simp: frames_of_def swap_buffer_cache_def Let_def)

lemma swap_fields [simp]:
  "b_buffer (swap_buffer_cache b) = b_cache b" "b_cache (swap_buffer_cache b) = b_buffer b"
  "b_vma (swap_buffer_cache b) = b_cache_vma b" "b_cache_vma (swap_buffer_cache b) = b_vma b"
  "b_start (swap_buffer_cache b) = b_cache_start b" "b_cache_start (swap_buffer_cache b) = b_start b"
  "b_pid (swap_buffer_cache b) = b_pid b"
  by (simp_all add: swap_buffer_cache_def Let_def)

text \<open>The invariant by lookups, the form the page handling uses.\<close>

lemma buffers_ok_buffer:
  assumes "buffers_ok M bs" and "buffer_of pid bs = Some b"
  obtains f g where "b_buffer b = Some f" "b_cache b = Some g" "f \<noteq> g" "owned M f" "owned M g" "b_pid b = pid"
proof -
  have "b \<in> set bs" using assms(2) by (auto simp: buffer_of_find find_Some_iff)
  then obtain pre post where bs: "bs = pre @ b # post" by (auto dest: split_list)
  show ?thesis
    using that assms bt.lookup_key [OF assms(2)] unfolding bs
    by (auto simp: buffers_ok_def frames_of_def)
qed

lemma buffers_ok_other:
  assumes "buffers_ok M bs" and "buffer_of p bs = Some b" and "buffer_of q bs = Some c" and "p \<noteq> q"
  shows "set (frames_of b) \<inter> set (frames_of c) = {}"
proof -
  have "b \<in> set bs" "c \<in> set bs"
    using assms(2,3) by (auto simp: buffer_of_find find_Some_iff)
  moreover have "b \<noteq> c" using assms bt.lookup_key by blast
  moreover have "sorted_wrt (\<lambda>x y. set (frames_of x) \<inter> set (frames_of y) = {}) bs"
    using assms(1) unfolding buffers_ok_def by (induction bs) auto
  ultimately show ?thesis
    using sorted_wrt_two [of "\<lambda>x y. set (frames_of x) \<inter> set (frames_of y) = {}" bs b c] by blast
qed

lemma buffers_ok_content [simp]: "buffers_ok (M\<lparr>content := c\<rparr>) bs = buffers_ok M bs"
  by (simp add: buffers_ok_def)

lemma buffers_ok_put:
  assumes "buffers_ok M bs" and "buffer_of (b_pid b) bs = Some c"
    and "set (frames_of b) = set (frames_of c)" and "b_buffer b = Some f" and "b_cache b = Some g" and "f \<noteq> g"
  shows "buffers_ok M (put_buffer b bs)"
proof -
  obtain pre post where bs: "bs = pre @ c # post" and put: "put_buffer b bs = pre @ b # post"
    using buffer_of_split [OF assms(2)] by metis
  from assms(1) obtain f' g' where c: "buffers_ok M (pre @ post)" "b_pid c \<notin> b_pid ` set (pre @ post)"
    "b_buffer c = Some f'" "b_cache c = Some g'" "owned M f'" "owned M g'"
    "\<forall>d\<in>set (pre @ post). f' \<notin> set (frames_of d) \<and> g' \<notin> set (frames_of d)"
    unfolding bs buffers_ok_mid by blast
  have "{f, g} = {f', g'}"
    using assms(3) by (simp add: frames_of_Some [OF assms(4,5)] frames_of_Some [OF c(3,4)])
  then have fg: "f = f' \<or> f = g'" "g = f' \<or> g = g'" by blast+
  have pid: "b_pid c = b_pid b" using bt.lookup_key [OF assms(2)] .
  show ?thesis
    unfolding put buffers_ok_mid
    using c(1,2,5,6,7) fg pid assms(4,5,6) by metis
qed

lemma add_buffer_ok:
  assumes "buffers_ok M bs" and "buffer_of pid bs = None"
    and "kmalloc_ok E AllocMappedBuffer" and "kmalloc_ok E AllocBufferPage" and "kmalloc_ok E AllocCachePage"
  obtains b f g M' where "add_buffer E pid M bs = Inr (M', put_buffer b bs, Some (length bs))"
    "get_buffer pid (put_buffer b bs) = Some (length bs)" "put_buffer b bs = bs @ [b]"
    "b_buffer b = Some f" "b_cache b = Some g" "b_vma b = None" "b_cache_vma b = None" "b_pid b = pid"
    "\<not> owned M f" "\<not> owned M g" "f \<noteq> g" "next_frame M \<le> f" "next_frame M \<le> g"
    "f < next_frame M'" "g < next_frame M'"
    "\<And>x. x \<noteq> f \<Longrightarrow> x \<noteq> g \<Longrightarrow> content M' x = content M x" "\<And>x. owned M' x \<longleftrightarrow> owned M x \<or> x = f \<or> x = g"
    "buffers_ok M' (put_buffer b bs)"
proof -
  define f where "f = next_frame M"
  define g where "g = Suc f"
  define b where "b = \<lparr>b_buffer = Some f, b_vma = None, b_start = junk_long E, b_pid = pid,
    b_cache = Some g, b_cache_vma = None, b_cache_start = junk_long E\<rparr>"
  define M' where "M' = M\<lparr>content := (content M)(f := zero_page, g := zero_page),
    owned := (owned M)(f := True, g := True), next_frame := Suc g\<rparr>"
  have fields: "b_buffer b = Some f" "b_cache b = Some g" "b_vma b = None" "b_cache_vma b = None" "b_pid b = pid"
    by (simp_all add: b_def)
  have none: "get_buffer pid bs = None"
    using assms(2) by (simp add: buffer_of_def)
  have fresh: "\<not> owned M f" "\<not> owned M g"
    using assms(1) by (auto simp: buffers_ok_def f_def g_def)
  have put: "put_buffer b bs = bs @ [b]"
    using none by (simp add: put_buffer_def b_def)
  have get: "get_buffer pid (bs @ [b]) = Some (length bs)"
    using none by (induction bs) (auto simp: b_def split: if_splits)
  have "f \<notin> set (frames_of c) \<and> g \<notin> set (frames_of c)" if "c \<in> set bs" for c
    using assms(1) that fresh unfolding buffers_ok_def by blast
  then have ok: "buffers_ok M' (bs @ [b])"
    using assms(1) none
    by (auto simp: buffers_ok_def get_buffer_None M'_def b_def frames_of_def g_def f_def less_Suc_eq)
  have "add_buffer E pid M bs = Inr (M', put_buffer b bs, Some (length bs))"
    using assms(3-5)
    unfolding put by (simp add: add_buffer_def vmalloc_user_def Let_def M'_def b_def g_def f_def)
  then show ?thesis
    by (rule that [of M' b f g])
      (use get ok fresh fields in \<open>simp_all add: put g_def M'_def\<close>, simp_all add: f_def)
qed


section \<open>Properties\<close>

text \<open>
  \<open>add_buffer\<close> for a process that has no entry, when memory is available: the new entry is
  found under its process and no other entry is changed, its two frames are distinct, fresh
  and cleared, no mapping is recorded for them, and the table stays well formed.
\<close>

theorem add_buffer_correct:
  assumes "buffers_ok M bs" and "get_buffer pid bs = None"
    and "kmalloc_ok E AllocMappedBuffer" and "kmalloc_ok E AllocBufferPage" and "kmalloc_ok E AllocCachePage"
  shows "\<exists>M' bs' i f g. add_buffer E pid M bs = Inr (M', bs', Some i) \<and> buffers_ok M' bs' \<and>
    get_buffer pid bs' = Some i \<and> (\<forall>q. q \<noteq> pid \<longrightarrow> buffer_of q bs' = buffer_of q bs) \<and>
    b_buffer (bs' ! i) = Some f \<and> b_cache (bs' ! i) = Some g \<and> f \<noteq> g \<and>
    \<not> owned M f \<and> \<not> owned M g \<and> b_vma (bs' ! i) = None \<and> b_cache_vma (bs' ! i) = None \<and>
    (\<forall>x. x \<noteq> f \<longrightarrow> x \<noteq> g \<longrightarrow> content M' x = content M x)"
proof -
  from assms(2) have "buffer_of pid bs = None" by (simp add: buffer_of_def)
  from add_buffer_ok [OF assms(1) this assms(3-5)] obtain b f g M' where
    b: "add_buffer E pid M bs = Inr (M', put_buffer b bs, Some (length bs))"
      "get_buffer pid (put_buffer b bs) = Some (length bs)" "put_buffer b bs = bs @ [b]"
      "b_buffer b = Some f" "b_cache b = Some g" "b_vma b = None" "b_cache_vma b = None" "b_pid b = pid"
      "\<not> owned M f" "\<not> owned M g" "f \<noteq> g"
      "\<And>x. x \<noteq> f \<Longrightarrow> x \<noteq> g \<Longrightarrow> content M' x = content M x" "buffers_ok M' (put_buffer b bs)"
    by metis
  have "\<forall>q. q \<noteq> pid \<longrightarrow> buffer_of q (put_buffer b bs) = buffer_of q bs"
    using b(8) by (simp add: bt.lookup_put)
  with b show ?thesis
    by (intro exI [of _ M'] exI [of _ "put_buffer b bs"] exI [of _ "length bs"] exI [of _ f] exI [of _ g]) simp
qed

lemma no_buffers_ok [simp]: "buffers_ok no_frames []"
  by (simp add: buffers_ok_def no_frames_def)

theorem add_buffer_correct_witness:
  "\<exists>M' bs'. add_buffer linux_ref 7 no_frames [] = Inr (M', bs', Some 0) \<and> buffers_ok M' bs'"
proof -
  have "kmalloc_ok linux_ref x" for x by (simp add: linux_ref_def)
  then obtain M' bs' i where r: "add_buffer linux_ref 7 no_frames [] = Inr (M', bs', Some i)" "buffers_ok M' bs'"
    using add_buffer_correct [OF no_buffers_ok, of 7 linux_ref] by auto
  moreover from r(1) have "i = 0" by (simp add: add_buffer_def vmalloc_user_def Let_def split: if_splits)
  ultimately show ?thesis by blast
qed

text \<open>
  \<open>remove_buffers\<close> on a well-formed table frees both pages of every entry, each once and
  nothing else, and changes no page.
\<close>

theorem remove_buffers_frees_all:
  assumes "buffers_ok M bs"
  shows "\<exists>M'. remove_buffers M bs = Inr M' \<and> content M' = content M \<and>
    (\<forall>f. owned M' f \<longleftrightarrow> owned M f \<and> \<not> (\<exists>b\<in>set bs. b_buffer b = Some f \<or> b_cache b = Some f))"
proof -
  have "f \<in> set (concat (map frames_of bs)) \<longleftrightarrow> (\<exists>b\<in>set bs. b_buffer b = Some f \<or> b_cache b = Some f)" for f
    by (simp add: frames_member)
  with remove_buffers_ok [OF assms] show ?thesis by metis
qed

theorem remove_buffers_frees_all_witness:
  "\<exists>M bs M'. buffer_of 7 bs \<noteq> None \<and> remove_buffers M bs = Inr M' \<and> (\<forall>f. \<not> owned M' f)"
proof -
  define M where "M = \<lparr>content = \<lambda>_. zero_page, owned = (\<lambda>f. f = 0 \<or> f = 1), next_frame = 2\<rparr>"
  define b where "b = \<lparr>b_buffer = Some 0, b_vma = None, b_start = 0, b_pid = 7,
    b_cache = Some 1, b_cache_vma = None, b_cache_start = 0\<rparr>"
  have "buffers_ok M [b]" by (auto simp: buffers_ok_def M_def b_def frames_of_def)
  from remove_buffers_frees_all [OF this] obtain M' where M': "remove_buffers M [b] = Inr M'"
    "\<forall>f. owned M' f \<longleftrightarrow> owned M f \<and> \<not> (\<exists>b\<in>set [b]. b_buffer b = Some f \<or> b_cache b = Some f)" by blast
  have "\<not> owned M' f" for f using M'(2) by (auto simp: M_def b_def)
  moreover have "buffer_of 7 [b] \<noteq> None" by (simp add: b_def)
  ultimately show ?thesis using M'(1) by blast
qed

text \<open>
  When memory runs out between the two pages of a new entry, \<open>add_buffer\<close> hands the first
  page, allocated by \<open>vmalloc_user\<close>, to \<open>kfree\<close>.
\<close>

theorem cache_page_oom_bad_free:
  assumes "kmalloc_ok E AllocMappedBuffer" and "kmalloc_ok E AllocBufferPage"
    and "\<not> kmalloc_ok E AllocCachePage"
  shows "add_buffer E pid M bs = Inl BadFree"
  using assms by (simp add: add_buffer_def vmalloc_user_def Let_def)

theorem cache_page_oom_bad_free_witness:
  "add_buffer (linux_ref\<lparr>kmalloc_ok := \<lambda>x. x \<noteq> AllocCachePage\<rparr>) 7 no_frames [] = Inl BadFree"
  by (rule cache_page_oom_bad_free) simp_all

end
