(* ===== verification/Protocol.thy ===== *)
theory Protocol
  imports Kernel
begin

text \<open>
  \<open>src/src/protocol.h\<close>: the header that precedes every message to the server, and its bytes as
  they go over the socket, the memory image of the C structure on the (little-endian) target.
  The server reads the same image through \<open>ctypes\<close>, with the command as a plain integer.
\<close>

unbundle bit_operations_syntax

section \<open>Data\<close>

datatype protocol_command = PROTOCOL_PUT | PROTOCOL_GET | PROTOCOL_RM | PROTOCOL_RELEASE

record protocol_header =
  command :: protocol_command
  ph_pid :: pid_t
  ph_address :: u64

text \<open>The enumeration starts at 1.\<close>

fun command_code :: "protocol_command \<Rightarrow> u32" where
  "command_code PROTOCOL_PUT = 1"
| "command_code PROTOCOL_GET = 2"
| "command_code PROTOCOL_RM = 3"
| "command_code PROTOCOL_RELEASE = 4"

lemma command_code_inj: "command_code c = command_code d \<longleftrightarrow> c = d"
  by (cases c; cases d) simp_all

instantiation protocol_command :: linorder
begin

definition less_eq_protocol_command :: "protocol_command \<Rightarrow> protocol_command \<Rightarrow> bool" where
  "less_eq_protocol_command c d \<longleftrightarrow> command_code c \<le> command_code d"

definition less_protocol_command :: "protocol_command \<Rightarrow> protocol_command \<Rightarrow> bool" where
  "less_protocol_command c d \<longleftrightarrow> command_code c < command_code d"

instance
proof
  fix c d e :: protocol_command
  show "c < d \<longleftrightarrow> c \<le> d \<and> \<not> d \<le> c"
    by (auto simp: less_eq_protocol_command_def less_protocol_command_def)
  show "c \<le> c" and "c \<le> d \<or> d \<le> c" and "c \<le> d \<Longrightarrow> d \<le> e \<Longrightarrow> c \<le> e"
    by (auto simp: less_eq_protocol_command_def)
  show "c \<le> d \<Longrightarrow> d \<le> c \<Longrightarrow> c = d"
    by (simp add: less_eq_protocol_command_def command_code_inj [symmetric])
qed

end

section \<open>Little-endian bytes\<close>

definition le_bytes :: "nat \<Rightarrow> 'a::len word \<Rightarrow> u8 list" where
  "le_bytes n w = map (\<lambda>i. ucast (drop_bit (8 * i) w)) [0..<n]"

fun un_le :: "u8 list \<Rightarrow> 'a::len word" where
  "un_le [] = 0"
| "un_le (b # bs) = ucast b OR push_bit 8 (un_le bs)"

lemma length_le_bytes [simp]: "length (le_bytes n w) = n"
  by (simp add: le_bytes_def)

lemma bit_un_le:
  "bit (un_le bs :: 'a::len word) n \<longleftrightarrow>
     n < LENGTH('a) \<and> n div 8 < length bs \<and> bit (bs ! (n div 8)) (n mod 8)"
proof (induction bs arbitrary: n)
  case (Cons b bs)
  show ?case
  proof (cases "n < 8")
    case True
    then show ?thesis by (auto simp: bit_simps)
  next
    case False
    then have "n div 8 = Suc ((n - 8) div 8)" "n mod 8 = (n - 8) mod 8" "n \<ge> 8"
      by (simp_all add: le_div_geq le_mod_geq)
    then show ?thesis
      using Cons.IH [of "n - 8"] bit_imp_le_length [of b n]
      by (auto simp: bit_or_iff bit_push_bit_iff bit_ucast_iff)
  qed
qed simp

lemma un_le_bytes:
  fixes w :: "'a::len word"
  assumes "LENGTH('a) \<le> 8 * n"
  shows "un_le (le_bytes n w) = w"
proof (rule bit_word_eqI)
  fix i assume i: "i < LENGTH('a)"
  then have n: "i div 8 < n" using assms by auto
  have "bit (un_le (le_bytes n w) :: 'a word) i \<longleftrightarrow> bit (le_bytes n w ! (i div 8)) (i mod 8)"
    using i n by (simp add: bit_un_le)
  also have "\<dots> \<longleftrightarrow> bit w (8 * (i div 8) + i mod 8)"
    using n by (simp add: le_bytes_def bit_ucast_iff bit_drop_bit_eq)
  also have "8 * (i div 8) + i mod 8 = i" by simp
  finally show "bit (un_le (le_bytes n w) :: 'a word) i \<longleftrightarrow> bit w i" .
qed

lemma le_bytes_un_le:
  assumes "length bs = n" and "8 * n = LENGTH('a::len)"
  shows "le_bytes n (un_le bs :: 'a word) = bs"
proof (rule nth_equalityI)
  fix i assume "i < length (le_bytes n (un_le bs :: 'a word))"
  then have i: "i < n" by simp
  have "8 * i + j < LENGTH('a)" if "j < 8" for j
    using i that assms(2) by simp
  then show "le_bytes n (un_le bs :: 'a word) ! i = bs ! i"
    using i assms(1)
    by (intro bit_word_eqI) (simp add: le_bytes_def bit_ucast_iff bit_drop_bit_eq bit_un_le)
qed (simp add: assms)

section \<open>The header on the wire\<close>

definition header_size :: nat where
  "header_size = 16"

definition header_bytes :: "protocol_header \<Rightarrow> u8 list" where
  "header_bytes h =
     le_bytes 4 (command_code (command h)) @ le_bytes 4 (ph_pid h) @ le_bytes 8 (ph_address h)"

text \<open>\<open>Protocol.pack\<close>: the fields the server reads from the first 16 bytes.\<close>

definition unpack :: "u8 list \<Rightarrow> u32 \<times> u32 \<times> u64" where
  "unpack buf = (un_le (take 4 buf), un_le (take 4 (drop 4 buf)), un_le (take 8 (drop 8 buf)))"

lemma length_header_bytes [simp]: "length (header_bytes h) = header_size"
  by (simp add: header_bytes_def header_size_def)

lemma unpack_header_bytes:
  "unpack (header_bytes h) = (command_code (command h), ph_pid h, ph_address h)"
  by (simp add: unpack_def header_bytes_def un_le_bytes)

section \<open>Pages on the wire\<close>

definition page_bytes :: "page \<Rightarrow> u8 list" where
  "page_bytes p = map (\<lambda>i. p (word_of_nat i)) [0..<4096]"

text \<open>The page after bytes were copied to its start, as a (possibly short) read leaves it.\<close>

definition fill_page :: "u8 list \<Rightarrow> page \<Rightarrow> page" where
  "fill_page bs old = (\<lambda>i. if unat i < length bs then bs ! unat i else old i)"

lemma length_page_bytes [simp]: "length (page_bytes p) = 4096"
  by (simp add: page_bytes_def)

lemma fill_page_bytes [simp]: "fill_page (page_bytes p) old = p"
proof
  fix i :: "12 word"
  have "unat i < 4096" using unsigned_less [of i] by simp
  then show "fill_page (page_bytes p) old i = p i"
    by (simp add: fill_page_def page_bytes_def)
qed

lemma fill_page_any: "length bs = 4096 \<Longrightarrow> fill_page bs old = fill_page bs zero_page"
proof
  fix i :: "12 word" assume "length bs = 4096"
  moreover have "unat i < 4096" using unsigned_less [of i] by simp
  ultimately show "fill_page bs old i = fill_page bs zero_page i"
    by (simp add: fill_page_def)
qed

section \<open>Properties\<close>

text \<open>
  C31. The server reads back the header that the module sent, for every command, process and
  address, and different headers have different bytes.
\<close>

theorem header_roundtrip:
  "unpack (header_bytes h) = (command_code (command h), ph_pid h, ph_address h) \<and>
   length (header_bytes h) = 16 \<and> inj header_bytes"
proof -
  have "inj header_bytes"
  proof (rule injI)
    fix x y :: protocol_header
    assume "header_bytes x = header_bytes y"
    then have "unpack (header_bytes x) = unpack (header_bytes y)" by simp
    then show "x = y" by (simp add: unpack_header_bytes command_code_inj)
  qed
  then show ?thesis by (simp add: unpack_header_bytes header_size_def)
qed

end
