(* ===== verification/Socket.thy ===== *)
theory Socket
  imports Protocol
begin

text \<open>
  \<open>src/src/socket.c\<close>: the TCP connection to the server.  The socket layer of the kernel is a
  parameter, the record \<open>netenv\<close> of its functions on the state \<open>'w\<close> of the rest of the world;
  \<open>sscanf\<close> is modelled for the one format in use.
\<close>

section \<open>The socket layer\<close>

record 'w netenv =
  sock_create :: "'w \<Rightarrow> int \<times> 'w"
  sock_connect :: "u16 \<Rightarrow> u32 \<Rightarrow> 'w \<Rightarrow> int \<times> 'w"         \<comment> \<open>\<open>sin_port\<close>, \<open>s_addr\<close>\<close>
  sock_sendmsg :: "u8 list \<Rightarrow> 'w \<Rightarrow> int \<times> 'w"
  sock_recvmsg :: "nat \<Rightarrow> 'w \<Rightarrow> int \<times> u8 list \<times> 'w"
  sock_release :: "'w \<Rightarrow> 'w"
  kstrtol :: "string \<Rightarrow> int \<times> int"                         \<comment> \<open>error code and value\<close>

text \<open>The global \<open>socket\<close>: \<open>release\<close> frees the object but the pointer keeps its value.\<close>

datatype sockptr = SockNull | SockOpen | SockReleased

record 'w net =
  sock :: sockptr
  world :: 'w

section \<open>Addresses\<close>

definition is_digit :: "char \<Rightarrow> bool" where
  "is_digit c \<longleftrightarrow> 48 \<le> (of_char c :: nat) \<and> (of_char c :: nat) \<le> 57"

fun scan_digits :: "string \<Rightarrow> int \<Rightarrow> int \<times> string" where
  "scan_digits [] acc = (acc, [])"
| "scan_digits (c # cs) acc =
     (if is_digit c then scan_digits cs (acc * 10 + (of_char c - 48)) else (acc, c # cs))"

text \<open>The conversion \<open>%d\<close>: white space, a sign, digits; \<open>None\<close> when there is no digit.\<close>

definition scan_int :: "string \<Rightarrow> (int \<times> string) option" where
  "scan_int str =
     (let s = dropWhile (\<lambda>c. c = CHR '' '' \<or> (9 \<le> (of_char c :: nat) \<and> (of_char c :: nat) \<le> 13)) str;
          neg = (s \<noteq> [] \<and> hd s = CHR ''-'');
          t = (if s \<noteq> [] \<and> (hd s = CHR ''-'' \<or> hd s = CHR ''+'') then tl s else s)
      in if t \<noteq> [] \<and> is_digit (hd t)
         then (case scan_digits t 0 of (n, rest) \<Rightarrow> Some (if neg then - n else n, rest)) else None)"

text \<open>\<open>sscanf(str, "%d.%d.%d.%d", ...)\<close>: the values stored before the first mismatch.\<close>

fun scan_dotted :: "nat \<Rightarrow> string \<Rightarrow> int list" where
  "scan_dotted 0 str = []"
| "scan_dotted (Suc n) str =
     (case scan_int str of
        None \<Rightarrow> []
      | Some (x, rest) \<Rightarrow>
          x # (if rest \<noteq> [] \<and> hd rest = CHR ''.'' then scan_dotted n (tl rest) else []))"

text \<open>
  The four variables are not initialised and the result of \<open>sscanf\<close> is not checked; each is cut
  to a \<open>char\<close>, and the array is read as an integer.
\<close>

definition inet_addr :: "kenv \<Rightarrow> string \<Rightarrow> u32" where
  "inet_addr E str =
     (let vs = scan_dotted 4 str; arr = map word_of_int (vs @ replicate (4 - length vs) (junk_int E))
      in un_le arr)"

definition htons :: "u16 \<Rightarrow> u16" where
  "htons x = push_bit 8 x OR drop_bit 8 x"

section \<open>Operations\<close>

text \<open>
  \<open>socket_prepare\<close> fills a message header that describes one buffer.  The kernel reads the bytes of a
  message through it (\<open>gathered\<close>), or learns from it how many there is room for (\<open>room\<close>).
\<close>

record iovec =
  iov_base :: "u8 list"
  iov_len :: nat

record msghdr =
  msg_name :: nat
  msg_namelen :: nat
  msg_iov :: "iovec list"
  msg_iovlen :: nat
  msg_control :: nat
  msg_controllen :: nat
  msg_flags :: nat

definition socket_prepare :: "u8 list \<Rightarrow> nat \<Rightarrow> msghdr" where
  "socket_prepare buf len =
     \<lparr>msg_name = 0, msg_namelen = 0, msg_iov = [\<lparr>iov_base = buf, iov_len = len\<rparr>], msg_iovlen = 1,
      msg_control = 0, msg_controllen = 0, msg_flags = 0\<rparr>"

definition gathered :: "msghdr \<Rightarrow> u8 list" where
  "gathered msg = concat (map (\<lambda>v. take (iov_len v) (iov_base v)) (take (msg_iovlen msg) (msg_iov msg)))"

definition room :: "msghdr \<Rightarrow> nat" where
  "room msg = sum_list (map iov_len (take (msg_iovlen msg) (msg_iov msg)))"

lemma gathered_prepare [simp]: "length buf \<le> len \<Longrightarrow> gathered (socket_prepare buf len) = buf"
  by (simp add: gathered_def socket_prepare_def)

lemma room_prepare [simp]: "room (socket_prepare buf len) = len"
  by (simp add: room_def socket_prepare_def)

definition socket_send :: "'w netenv \<Rightarrow> u8 list \<Rightarrow> 'w net \<Rightarrow> kfault + int \<times> 'w net" where
  "socket_send N buf n =
     (case sock n of
        SockNull \<Rightarrow> Inr (- 1, n)
      | SockReleased \<Rightarrow> Inl UseAfterFree
      | SockOpen \<Rightarrow> (case sock_sendmsg N (gathered (socket_prepare buf (length buf))) (world n) of (sz, w) \<Rightarrow> Inr (sz, n\<lparr>world := w\<rparr>)))"

text \<open>The second result is what arrived in the buffer, whose old content does not matter.\<close>

definition socket_recv :: "'w netenv \<Rightarrow> nat \<Rightarrow> 'w net \<Rightarrow> kfault + int \<times> u8 list \<times> 'w net" where
  "socket_recv N len n =
     (case sock n of
        SockNull \<Rightarrow> Inr (- 1, [], n)
      | SockReleased \<Rightarrow> Inl UseAfterFree
      | SockOpen \<Rightarrow> (case sock_recvmsg N (room (socket_prepare [] len)) (world n) of (sz, bs, w) \<Rightarrow> Inr (sz, bs, n\<lparr>world := w\<rparr>)))"

definition socket_init :: "kenv \<Rightarrow> 'w netenv \<Rightarrow> string \<Rightarrow> int \<Rightarrow> 'w net \<Rightarrow> int \<times> 'w net" where
  "socket_init E N host port n =
     (case sock_create N (world n) of (error, w1) \<Rightarrow>
        if error \<noteq> 0 then (error, n\<lparr>world := w1\<rparr>)
        else (case sock_connect N (htons (word_of_int port)) (inet_addr E host) w1 of (error, w2) \<Rightarrow>
          if error \<noteq> 0 then (error, n\<lparr>sock := SockReleased, world := sock_release N w2\<rparr>)
          else (0, n\<lparr>sock := SockOpen, world := w2\<rparr>)))"

definition socket_release :: "'w netenv \<Rightarrow> 'w net \<Rightarrow> kfault + 'w net" where
  "socket_release N n =
     (case sock n of
        SockNull \<Rightarrow> Inr n
      | SockReleased \<Rightarrow> Inl UseAfterFree
      | SockOpen \<Rightarrow> Inr (n\<lparr>sock := SockReleased, world := sock_release N (world n)\<rparr>))"

section \<open>Decimal addresses\<close>

fun decimal :: "nat \<Rightarrow> string" where
  "decimal n = (if n < 10 then [char_of (48 + n)] else decimal (n div 10) @ [char_of (48 + n mod 10)])"

declare decimal.simps [simp del]

definition dotted :: "u8 \<Rightarrow> u8 \<Rightarrow> u8 \<Rightarrow> u8 \<Rightarrow> string" where
  "dotted a b c d = decimal (unat a) @ ''.'' @ decimal (unat b) @ ''.'' @ decimal (unat c) @ ''.'' @ decimal (unat d)"

lemma digit_char:
  assumes "n < 10"
  shows "is_digit (char_of (48 + n))" and "of_char (char_of (48 + n)) = (48 + int n :: int)"
proof -
  have "(48 + n) mod 256 = 48 + n" using assms by simp
  then have *: "of_char (char_of (48 + n)) = 48 + n" by simp
  show "is_digit (char_of (48 + n))"
    using assms unfolding is_digit_def * by simp
  have "(of_char (char_of (48 + n) :: char) :: int) = int (of_char (char_of (48 + n) :: char))"
    by (simp only: of_nat_of_char)
  then show "of_char (char_of (48 + n)) = (48 + int n :: int)" unfolding * by simp
qed

lemma scan_digits_decimal:
  "scan_digits (decimal n @ rest) acc = scan_digits rest (acc * 10 ^ length (decimal n) + int n)"
proof (induction n arbitrary: rest acc rule: decimal.induct)
  case (1 n)
  show ?case
  proof (cases "n < 10")
    case True
    then show ?thesis by (simp add: decimal.simps [of n] digit_char)
  next
    case False
    have m: "n mod 10 < 10" by simp
    have "int n = int (n div 10) * 10 + int (n mod 10)"
      by (simp add: zdiv_int zmod_int)
    then show ?thesis
      using False 1 [OF False, of "char_of (48 + n mod 10) # rest" acc]
      by (simp add: decimal.simps [of n] digit_char [OF m] algebra_simps)
  qed
qed

lemma decimal_head: "decimal n \<noteq> [] \<and> is_digit (hd (decimal n))"
proof (induction n rule: decimal.induct)
  case (1 n)
  then show ?case by (subst (1 2) decimal.simps) (auto simp: digit_char hd_append)
qed

lemma digit_plain:
  "is_digit c \<Longrightarrow> c \<noteq> CHR '' '' \<and> \<not> (of_char c :: nat) \<le> 13 \<and> c \<noteq> CHR ''-'' \<and> c \<noteq> CHR ''+'' \<and> c \<noteq> CHR ''.''"
  by (auto simp: is_digit_def)

lemma scan_int_decimal:
  assumes "rest = [] \<or> \<not> is_digit (hd rest)"
  shows "scan_int (decimal n @ rest) = Some (int n, rest)"
proof -
  obtain c cs where d: "decimal n = c # cs" and c: "is_digit c"
    using decimal_head [of n] by (cases "decimal n") auto
  have "scan_digits (decimal n @ rest) 0 = (int n, rest)"
    using assms scan_digits_decimal [of n rest 0] by (cases rest) simp_all
  then show ?thesis
    using digit_plain [OF c] c by (simp add: scan_int_def d)
qed

lemma inet_addr_shape: "inet_addr E (dotted a b c d) = un_le [a, b, c, d]"
proof -
  have nd: "\<not> is_digit (CHR ''.'')" by (simp add: is_digit_def)
  have "scan_dotted 4 (dotted a b c d) = [uint a, uint b, uint c, uint d]"
    using scan_int_decimal [of "[]" "unat d"] nd
    by (simp add: dotted_def numeral_eq_Suc scan_int_decimal)
  then show ?thesis by (simp add: inet_addr_def Let_def)
qed

section \<open>Properties\<close>

text \<open>
  \<open>inet_addr\<close> reads a dotted decimal address: the result is the four numbers in memory
  order, whatever the uninitialised variables held.
\<close>

theorem inet_addr_dotted: "inet_addr E (dotted a b c d) = un_le [a, b, c, d]"
  by (rule inet_addr_shape)

end
