(* ===== verification/Storage.thy ===== *)
theory Storage
  imports Socket Vma
begin

text \<open>
  \<open>src/src/storage.c\<close>: the two places a page can be kept, behind one table of functions
  \<open>storage_ops\<close>.  The kernel storage keeps a list of buffers; the network storage sends requests
  to a server.  The locale \<open>storage\<close> is what the rest of the module needs of either.
\<close>

section \<open>The operations table\<close>

record 's storage_ops =
  so_init :: "string \<Rightarrow> 's \<Rightarrow> kfault + int \<times> 's"
  so_save :: "pid_t \<Rightarrow> u64 \<Rightarrow> page \<Rightarrow> 's \<Rightarrow> kfault + int \<times> 's"
  so_load :: "pid_t \<Rightarrow> u64 \<Rightarrow> page \<Rightarrow> 's \<Rightarrow> kfault + int \<times> page \<times> 's"
  so_remove :: "pid_t \<Rightarrow> u64 \<Rightarrow> 's \<Rightarrow> kfault + 's"
  so_release :: "'s \<Rightarrow> kfault + 's"

section \<open>Kernel storage\<close>

record kernel_buffer =
  kb_pid :: pid_t
  kb_address :: u64
  kb_buffer :: "page option"

text \<open>The global \<open>kernel_buffer_list\<close>; \<open>kernel_release\<close> frees the head and keeps the pointer.\<close>

datatype kstore = KbNull | KbFreed | KbList "kernel_buffer list"

fun kb_list :: "kstore \<Rightarrow> kfault + kernel_buffer list" where
  "kb_list KbNull = Inl NullDeref"
| "kb_list KbFreed = Inl UseAfterFree"
| "kb_list (KbList l) = Inr l"

fun find_kb :: "pid_t \<Rightarrow> u64 \<Rightarrow> kernel_buffer list \<Rightarrow> nat option" where
  "find_kb pid address [] = None"
| "find_kb pid address (kb # kbs) =
     (if kb_address kb = address \<and> kb_pid kb = pid then Some 0 else map_option Suc (find_kb pid address kbs))"

text \<open>The address is an \<open>unsigned int\<close> here: callers pass \<open>unsigned long\<close> and lose the upper half.\<close>

definition get_kernel_buffer ::
  "kenv \<Rightarrow> pid_t \<Rightarrow> u32 \<Rightarrow> bool \<Rightarrow> kernel_buffer list \<Rightarrow> kernel_buffer list \<times> nat option" where
  "get_kernel_buffer E pid address create kbs =
     (case find_kb pid (ucast address) kbs of
        Some i \<Rightarrow> (kbs, Some i)
      | None \<Rightarrow>
          if create then
            (if \<not> kmalloc_ok E (AllocKernelBuffer pid (ucast address)) then (kbs, None)
             else (kbs @ [\<lparr>kb_pid = pid, kb_address = 0, kb_buffer = None\<rparr>], Some (length kbs)))
          else (kbs, None))"

definition kernel_init :: "kenv \<Rightarrow> string \<Rightarrow> kstore \<Rightarrow> kfault + int \<times> kstore" where
  "kernel_init E param S =
     (if \<not> kmalloc_ok E AllocKernelList then Inr (- ENOMEM, KbNull) else Inr (0, KbList []))"

definition kernel_save :: "kenv \<Rightarrow> pid_t \<Rightarrow> u64 \<Rightarrow> page \<Rightarrow> kstore \<Rightarrow> kfault + int \<times> kstore" where
  "kernel_save E pid address buffer S =
     kbind (kb_list S) (\<lambda>l.
       case get_kernel_buffer E pid (ucast address) True l of
         (kbs, None) \<Rightarrow> Inl NullDeref
       | (kbs, Some i) \<Rightarrow>
           (let kb = (kbs ! i)\<lparr>kb_address := address\<rparr> in
            if kb_buffer kb = None \<and> \<not> kmalloc_ok E (AllocKernelPage pid address)
            then Inr (- ENOMEM, KbList (kbs[i := kb]))
            else Inr (0, KbList (kbs[i := kb\<lparr>kb_buffer := Some buffer\<rparr>]))))"

definition kernel_load :: "kenv \<Rightarrow> pid_t \<Rightarrow> u64 \<Rightarrow> page \<Rightarrow> kstore \<Rightarrow> kfault + int \<times> page \<times> kstore" where
  "kernel_load E pid address buffer S =
     (if S = KbNull then Inr (0, buffer, S)
      else kbind (kb_list S) (\<lambda>l.
        case get_kernel_buffer E pid (ucast address) False l of
          (kbs, None) \<Rightarrow> Inr (0, zero_page, S)
        | (kbs, Some i) \<Rightarrow>
            (case kb_buffer (kbs ! i) of
               Some b \<Rightarrow> Inr (0, b, S)
             | None \<Rightarrow> Inr (0, zero_page, S))))"

definition kernel_remove :: "pid_t \<Rightarrow> u64 \<Rightarrow> kstore \<Rightarrow> kfault + kstore" where
  "kernel_remove pid address S =
     (if S = KbNull then Inr S
      else kbind (kb_list S) (\<lambda>l.
        Inr (KbList (filter (\<lambda>kb. \<not> (kb_address kb = address \<and> kb_pid kb = pid)) l))))"

definition kernel_release :: "kstore \<Rightarrow> kfault + kstore" where
  "kernel_release S = (if S = KbNull then Inr S else kbind (kb_list S) (\<lambda>l. Inr KbFreed))"

definition kernel_ops :: "kenv \<Rightarrow> kstore storage_ops" where
  "kernel_ops E = \<lparr>so_init = kernel_init E, so_save = kernel_save E, so_load = kernel_load E,
     so_remove = kernel_remove, so_release = kernel_release\<rparr>"

section \<open>Network storage\<close>

text \<open>
  The server parameter is "host:port": the error code, the host as copied (at most 15
  characters) and the port.
\<close>

definition parse_address_param :: "kenv \<Rightarrow> 'w netenv \<Rightarrow> string \<Rightarrow> nat \<Rightarrow> int \<times> string \<times> int" where
  "parse_address_param E N address sz =
     (if \<not> kmalloc_ok E AllocAddressDup then (- ENOMEM, [], 0)
      else (let token = takeWhile (\<lambda>c. c \<noteq> CHR '':'') address;
                rest = dropWhile (\<lambda>c. c \<noteq> CHR '':'') address;
                host = take (sz - 1) token
            in case rest of
                 [] \<Rightarrow> (- 1, host, 0)
               | _ # dup \<Rightarrow> (case kstrtol N dup of (ret, port) \<Rightarrow> (ret, host, port))))"

definition network_init :: "kenv \<Rightarrow> 'w netenv \<Rightarrow> string \<Rightarrow> 'w net \<Rightarrow> kfault + int \<times> 'w net" where
  "network_init E N param n =
     (case parse_address_param E N param 16 of (error, host, port) \<Rightarrow>
        if error \<noteq> 0 then Inr (error, n) else Inr (socket_init E N host port n))"

definition network_load ::
  "'w netenv \<Rightarrow> pid_t \<Rightarrow> u64 \<Rightarrow> page \<Rightarrow> 'w net \<Rightarrow> kfault + int \<times> page \<times> 'w net" where
  "network_load N pid address buffer n =
     kbind (socket_send N (header_bytes \<lparr>command = PROTOCOL_GET, ph_pid = pid, ph_address = address\<rparr>) n)
       (\<lambda>(sz, n1).
         if sz = int header_size then
           kbind (socket_recv N 4096 n1) (\<lambda>(sz, bs, n2). Inr (sz, fill_page bs buffer, n2))
         else Inr (sz, buffer, n1))"

definition network_save ::
  "'w netenv \<Rightarrow> pid_t \<Rightarrow> u64 \<Rightarrow> page \<Rightarrow> 'w net \<Rightarrow> kfault + int \<times> 'w net" where
  "network_save N pid address buffer n =
     kbind (socket_send N (header_bytes \<lparr>command = PROTOCOL_PUT, ph_pid = pid, ph_address = address\<rparr>) n)
       (\<lambda>(sz, n1).
         if sz = int header_size then socket_send N (page_bytes buffer) n1 else Inr (sz, n1))"

definition network_remove :: "'w netenv \<Rightarrow> pid_t \<Rightarrow> u64 \<Rightarrow> 'w net \<Rightarrow> kfault + 'w net" where
  "network_remove N pid address n =
     kbind (socket_send N (header_bytes \<lparr>command = PROTOCOL_RM, ph_pid = pid, ph_address = address\<rparr>) n)
       (\<lambda>(sz, n1). Inr n1)"

definition network_release :: "'w netenv \<Rightarrow> 'w net \<Rightarrow> kfault + 'w net" where
  "network_release N n =
     kbind (socket_send N (header_bytes \<lparr>command = PROTOCOL_RELEASE, ph_pid = 0, ph_address = 0\<rparr>) n)
       (\<lambda>(sz, n1). socket_release N n1)"

definition network_ops :: "kenv \<Rightarrow> 'w netenv \<Rightarrow> 'w net storage_ops" where
  "network_ops E N = \<lparr>so_init = network_init E N, so_save = network_save N, so_load = network_load N,
     so_remove = network_remove N, so_release = network_release N\<rparr>"

end
