(* ===== verification/GenericMalloc.thy ===== *)
theory GenericMalloc
  imports Area StoredPage MappedBuffer Storage
begin

text \<open>
  \<open>src/src/generic_malloc.c\<close>: the core of the module.  It owns the lists of areas, stored pages
  and mapped buffers, serves page faults by moving pages between user memory and the storage,
  and implements the two system calls.  The operations that the module calls under its semaphore
  are each one step of the model (\<open>Locking\<close> models the semaphore, \<open>Dump\<close> the dump functions);
  messages are left out.
\<close>

section \<open>State\<close>

record 's gstate =
  g_mm :: vmem
  g_pt :: ptab
  g_mem :: pmem
  g_areas :: "area_struct list"
  g_pages :: "stored_page list"
  g_bufs :: "mapped_buffer list"
  g_store :: 's

text \<open>The table of VMA operations of the module, the one the module gives its VMAs.\<close>

definition module_vm_ops :: nat where
  "module_vm_ops = 1"

section \<open>Removing pages from the storage\<close>

text \<open>
  The search for a used neighbour: it stops at the first used region, and when there is none it
  ends with the last region it looked at.
\<close>

fun scan_used :: "region_struct \<Rightarrow> region_struct list \<Rightarrow> region_struct" where
  "scan_used cur [] = cur"
| "scan_used cur (r # rs) = (if r_free r \<noteq> 0 then scan_used r rs else r)"

definition can_remove_page :: "u64 \<Rightarrow> cursor \<Rightarrow> bool" where
  "can_remove_page address cursor =
     (case cursor of (pre, region, post) \<Rightarrow>
        if pre \<noteq> [] \<and>
           (let prev = scan_used region (rev pre)
            in align_ceil (virtual_start prev + r_size prev) PAGE_SHIFT > address) then False
        else if post \<noteq> [] \<and>
           (let next = scan_used region post
            in align_floor (virtual_start next) PAGE_SHIFT < address + PAGE_SIZE) then False
        else True)"

text \<open>
  The addresses a loop \<open>for (; start < end; start += PAGE_SIZE)\<close> visits.  The inner test cannot
  fail when \<open>end\<close> is a multiple of the page size, as it is in the code.
\<close>

function page_addrs :: "u64 \<Rightarrow> u64 \<Rightarrow> u64 list" where
  "page_addrs start fin =
     (if start < fin then
        start # (if start < start + PAGE_SIZE then page_addrs (start + PAGE_SIZE) fin else [])
      else [])"
  by pat_completeness auto

termination
  by (relation "measure (\<lambda>(start, fin). unat fin - unat start)") (auto simp: word_less_nat_alt)

declare page_addrs.simps [simp del]

fun remove_pages ::
  "'s storage_ops \<Rightarrow> pid_t \<Rightarrow> cursor \<Rightarrow> u64 list \<Rightarrow> 's gstate \<Rightarrow> kfault + 's gstate" where
  "remove_pages ops pid cursor [] st = Inr st"
| "remove_pages ops pid cursor (start # rest) st =
     kbind (if is_stored_page pid start (g_pages st) \<and> can_remove_page start cursor then
              kbind (so_remove ops pid start (g_store st)) (\<lambda>s.
                Inr (st\<lparr>g_store := s, g_pages := remove_stored_page pid start (g_pages st)\<rparr>))
            else Inr st)
       (remove_pages ops pid cursor rest)"

definition remove_storage_pages ::
  "'s storage_ops \<Rightarrow> pid_t \<Rightarrow> u64 \<Rightarrow> 's gstate \<Rightarrow> kfault + 's gstate" where
  "remove_storage_pages ops pid address st =
     kbind (get_area (g_mm st) pid address (g_areas st)) (\<lambda>area.
       case area of
         None \<Rightarrow> Inr st
       | Some i \<Rightarrow>
           (case get_region (g_areas st ! i) address of
              None \<Rightarrow> Inr st
            | Some (pre, region, post) \<Rightarrow>
                (let start = virtual_start region; fin = start + r_size region
                 in remove_pages ops pid (pre, region, post)
                      (page_addrs (align_floor start PAGE_SHIFT) (align_ceil fin PAGE_SHIFT)) st)))"

section \<open>Closing a VMA\<close>

text \<open>The loop over the regions of area \<open>i\<close>; \<open>rs\<close> are the regions still to do.\<close>

fun close_regions :: "'s storage_ops \<Rightarrow> nat \<Rightarrow> region_struct list \<Rightarrow> 's gstate \<Rightarrow> kfault + 's gstate" where
  "close_regions ops i [] st = Inr st"
| "close_regions ops i (region # rs) st =
     kbind (remove_storage_pages ops (a_pid (g_areas st ! i)) (virtual_start region) st) (\<lambda>st1.
       close_regions ops i rs
         (st1\<lparr>g_areas := (g_areas st1)[i := (g_areas st1 ! i)\<lparr>regions := rs\<rparr>]\<rparr>))"

fun find_area :: "vid \<Rightarrow> area_struct list \<Rightarrow> nat option" where
  "find_area v [] = None"
| "find_area v (area # areas) =
     (if a_vma area = Some v then Some 0 else map_option Suc (find_area v areas))"

definition close_vma :: "'s storage_ops \<Rightarrow> vid \<Rightarrow> 's gstate \<Rightarrow> kfault + 's gstate" where
  "close_vma ops v st =
     (case find_area v (g_areas st) of
        None \<Rightarrow> Inr st
      | Some i \<Rightarrow>
          kbind (close_regions ops i (regions (g_areas st ! i)) st) (\<lambda>st1.
            let pid = a_pid (g_areas st1 ! i);
                areas = take i (g_areas st1) @ drop (Suc i) (g_areas st1);
                st2 = st1\<lparr>g_areas := areas\<rparr>
            in if get_area_count pid areas = 0
               then kbind (remove_buffer pid (g_mem st2) (g_bufs st2)) (\<lambda>(M, bufs).
                      Inr (st2\<lparr>g_mem := M, g_bufs := bufs\<rparr>))
               else Inr st2))"

text \<open>
  The kernel calls \<open>open\<close> for a VMA it has copied, in \<open>fork\<close>; the handler prints a message.
\<close>

definition generic_malloc_vm_open :: "vid \<Rightarrow> 's gstate \<Rightarrow> 's gstate" where
  "generic_malloc_vm_open v st = st"

definition generic_malloc_vm_close :: "'s storage_ops \<Rightarrow> vid \<Rightarrow> 's gstate \<Rightarrow> kfault + 's gstate" where
  "generic_malloc_vm_close ops v st = close_vma ops v st"

text \<open>
  What the kernel does with the VMAs an unmapping has taken out of the address space: the
  \<open>close\<close> handler, then the object is freed.
\<close>

fun close_all :: "'s storage_ops \<Rightarrow> vid list \<Rightarrow> 's gstate \<Rightarrow> kfault + 's gstate" where
  "close_all ops [] st = Inr st"
| "close_all ops (v # vs) st =
     kbind (generic_malloc_vm_close ops v st) (\<lambda>st1.
       close_all ops vs (st1\<lparr>g_mm := (g_mm st1)\<lparr>vmas := (vmas (g_mm st1))(v := None)\<rparr>\<rparr>))"

section \<open>Unmapping\<close>

text \<open>The first result is the error code.\<close>

definition copy_page_from_user ::
  "kenv \<Rightarrow> 's storage_ops \<Rightarrow> pid_t \<Rightarrow> u64 \<Rightarrow> vid option \<Rightarrow> 's gstate \<Rightarrow> kfault + int \<times> 's gstate" where
  "copy_page_from_user E ops pid start vma st =
     kbind (deref_null (vmas (g_mm st)) vma) (\<lambda>a.
       case get_user_pages E (g_pt st) (vm_mm a) start of
         None \<Rightarrow> Inr (0, st)
       | Some page \<Rightarrow>
           if \<not> kmap_ok E page then Inr (- ENOMEM, st)
           else kbind (so_save ops pid start (content (g_mem st) page) (g_store st)) (\<lambda>(res, s).
             let st1 = st\<lparr>g_store := s\<rparr> in
             if res < 0 then Inr (res, st1)
             else if \<not> is_stored_page pid start (g_pages st1) then
               (case add_stored_page E pid start (g_pages st1) of
                  (pages, None) \<Rightarrow> Inr (- ENOMEM, st1\<lparr>g_pages := pages\<rparr>)
                | (pages, Some _) \<Rightarrow> Inr (0, st1\<lparr>g_pages := pages\<rparr>))
             else Inr (0, st1)))"

definition remove_user_page ::
  "kenv \<Rightarrow> u64 \<Rightarrow> vid option \<Rightarrow> 's gstate \<Rightarrow> kfault + int \<times> 's gstate" where
  "remove_user_page E start vma st =
     (if \<not> kallsyms_ok E ''zap_page_range'' then Inr (- 1, st)
      else kbind (deref_null (vmas (g_mm st)) vma) (\<lambda>a.
        Inr (0, st\<lparr>g_pt := zap_page_range E (g_pt st) (vm_mm a) start PAGE_SIZE\<rparr>)))"

definition unmap_buffer :: "kenv \<Rightarrow> 's storage_ops \<Rightarrow> nat \<Rightarrow> 's gstate \<Rightarrow> kfault + int \<times> 's gstate" where
  "unmap_buffer E ops i st =
     (let buffer = g_bufs st ! i in
      kbind (is_existing_vma (g_mm st) (b_vma buffer)) (\<lambda>existing.
        if existing then
          kbind (copy_page_from_user E ops (b_pid buffer) (b_start buffer) (b_vma buffer) st) (\<lambda>(error, st1).
            if error \<noteq> 0 then Inr (error, st1)
            else kbind (remove_user_page E (b_start buffer) (b_vma buffer) st1) (\<lambda>(error, st2).
              if error \<noteq> 0 then Inr (- 1, st2)
              else Inr (0, st2\<lparr>g_bufs := (g_bufs st2)[i := buffer\<lparr>b_vma := None\<rparr>]\<rparr>)))
        else Inr (0, st)))"

definition swap_at :: "nat \<Rightarrow> 's gstate \<Rightarrow> 's gstate" where
  "swap_at i st = st\<lparr>g_bufs := (g_bufs st)[i := swap_buffer_cache (g_bufs st ! i)]\<rparr>"

definition unmap_page :: "kenv \<Rightarrow> 's storage_ops \<Rightarrow> pid_t \<Rightarrow> bool \<Rightarrow> 's gstate \<Rightarrow> kfault + int \<times> 's gstate" where
  "unmap_page E ops pid cache st =
     (case get_buffer pid (g_bufs st) of
        None \<Rightarrow> Inr (0, st)
      | Some i \<Rightarrow>
          if cache then
            (if b_cache_vma (g_bufs st ! i) \<noteq> None then unmap_buffer E ops i (swap_at i st)
             else Inr (0, swap_at i st))
          else
            kbind (if b_vma (g_bufs st ! i) \<noteq> None then unmap_buffer E ops i st else Inr (0, st))
              (\<lambda>(error, st1).
                if error \<noteq> 0 then Inr (error, st1)
                else if b_cache_vma (g_bufs st1 ! i) \<noteq> None then unmap_buffer E ops i (swap_at i st1)
                else Inr (0, st1)))"

section \<open>Mapping and the fault handler\<close>

text \<open>Writing a page of module memory.\<close>

definition write_frame :: "pmem \<Rightarrow> frame \<Rightarrow> page \<Rightarrow> kfault + pmem" where
  "write_frame M f p = (if owned M f then Inr (M\<lparr>content := (content M)(f := p)\<rparr>) else Inl UseAfterFree)"

definition map_page ::
  "kenv \<Rightarrow> 's storage_ops \<Rightarrow> pid_t \<Rightarrow> u64 \<Rightarrow> vid \<Rightarrow> 's gstate \<Rightarrow> kfault + frame option \<times> 's gstate" where
  "map_page E ops pid address vma st =
     kbind (case get_buffer pid (g_bufs st) of
              Some i \<Rightarrow> Inr (g_mem st, g_bufs st, Some i)
            | None \<Rightarrow> add_buffer E pid (g_mem st) (g_bufs st)) (\<lambda>(M, bufs, buffer).
       let st1 = st\<lparr>g_mem := M, g_bufs := bufs\<rparr> in
       case buffer of
         None \<Rightarrow> Inr (None, st1)
       | Some i \<Rightarrow>
           (case b_buffer (bufs ! i) of
              None \<Rightarrow> Inl NullDeref
            | Some page \<Rightarrow>
                kbind (if is_stored_page pid address (g_pages st1) then
                         kbind (so_load ops pid address (content M page) (g_store st1)) (\<lambda>(res, b, s).
                         kbind (write_frame M page b) (\<lambda>M'.
                           Inr (res, st1\<lparr>g_mem := M', g_store := s\<rparr>)))
                       else kbind (write_frame M page zero_page) (\<lambda>M'. Inr (0, st1\<lparr>g_mem := M'\<rparr>)))
                  (\<lambda>(res, st2).
                    if res < 0 then Inr (None, st2)
                    else kbind (deref (vmas (g_mm st2)) vma) (\<lambda>a.
                      case vm_insert_page E (g_pt st2) (vm_mm a) address page of
                        None \<Rightarrow> Inr (None, st2)
                      | Some pt \<Rightarrow>
                          Inr (Some page, st2\<lparr>g_pt := pt,
                            g_bufs := (g_bufs st2)[i := (g_bufs st2 ! i)\<lparr>b_vma := Some vma, b_start := address\<rparr>]\<rparr>)))))"

definition generic_malloc_get_page ::
  "kenv \<Rightarrow> 's storage_ops \<Rightarrow> pid_t \<Rightarrow> u64 \<Rightarrow> vid \<Rightarrow> 's gstate \<Rightarrow> kfault + frame option \<times> 's gstate" where
  "generic_malloc_get_page E ops pid address vma st =
     kbind (unmap_page E ops pid True st) (\<lambda>(error, st1).
       if error \<noteq> 0 then Inr (None, st1) else map_page E ops pid address vma st1)"

datatype fault_result = FaultDone frame | VM_FAULT_SIGBUS

definition generic_malloc_vm_fault ::
  "kenv \<Rightarrow> 's storage_ops \<Rightarrow> task \<Rightarrow> vid \<Rightarrow> u64 \<Rightarrow> 's gstate \<Rightarrow> kfault + fault_result \<times> 's gstate" where
  "generic_malloc_vm_fault E ops current vma address st =
     (if \<not> is_valid_address address vma (g_areas st) then Inr (VM_FAULT_SIGBUS, st)
      else kbind (generic_malloc_get_page E ops (t_pid current) address vma st) (\<lambda>(page, st1).
        case page of
          None \<Rightarrow> Inr (VM_FAULT_SIGBUS, st1)
        | Some f \<Rightarrow> Inr (FaultDone f, st1)))"

section \<open>The two system calls\<close>

definition generic_free ::
  "kenv \<Rightarrow> 's storage_ops \<Rightarrow> task \<Rightarrow> u64 \<Rightarrow> 's gstate \<Rightarrow> kfault + 's gstate" where
  "generic_free E ops current ptr st =
     kbind (unmap_page E ops (t_pid current) False st) (\<lambda>(_, st1).
     kbind (remove_storage_pages ops (t_pid current) ptr st1) (\<lambda>st2.
     kbind (remove_region (g_mm st2) (t_pid current) ptr (g_areas st2)) (\<lambda>(areas, empty).
       let st3 = st2\<lparr>g_areas := areas\<rparr> in
       case empty of
         None \<Rightarrow> Inr st3
       | Some vma \<Rightarrow>
           kbind (remove_vma E (g_mm st3) (g_pt st3) vma) (\<lambda>(V, pt, closed).
             close_all ops closed (st3\<lparr>g_mm := V, g_pt := pt\<rparr>)))))"

text \<open>The result is the address, 0 for \<open>NULL\<close>.\<close>

definition generic_malloc ::
  "kenv \<Rightarrow> 's storage_ops \<Rightarrow> task \<Rightarrow> u64 \<Rightarrow> 's gstate \<Rightarrow> kfault + u64 \<times> 's gstate" where
  "generic_malloc E ops current sz st =
     kbind (create_region E (g_mm st) sz current (g_areas st) module_vm_ops) (\<lambda>(V, areas, region).
       let st1 = st\<lparr>g_mm := V, g_areas := areas\<rparr> in
       case region of
         None \<Rightarrow> Inr (0, st1)
       | Some r \<Rightarrow>
           kbind (unmap_page E ops (t_pid current) False st1) (\<lambda>(error, st2).
             if error < 0 then Inr (0, st2) else Inr (virtual_start r, st2)))"

section \<open>Loading and unloading\<close>

definition generic_malloc_init ::
  "'s storage_ops \<Rightarrow> string \<Rightarrow> 's gstate \<Rightarrow> kfault + int \<times> 's gstate" where
  "generic_malloc_init ops param st =
     kbind (so_init ops param (g_store st)) (\<lambda>(error, s).
       let st1 = st\<lparr>g_store := s\<rparr> in
       if error \<noteq> 0 then Inr (error, st1)
       else Inr (0, st1\<lparr>g_areas := init_area_list, g_pages := init_stored_pages, g_bufs := init_buffers\<rparr>))"

definition generic_malloc_clean :: "'s storage_ops \<Rightarrow> 's gstate \<Rightarrow> kfault + 's gstate" where
  "generic_malloc_clean ops st =
     kbind (remove_buffers (g_mem st) (g_bufs st)) (\<lambda>M.
     kbind (so_release ops (g_store st)) (\<lambda>s.
       Inr (st\<lparr>g_mem := M, g_bufs := [], g_pages := remove_stored_pages (g_pages st),
               g_areas := remove_area_list (g_areas st), g_store := s\<rparr>)))"

end
