(* ===== verification/Server.thy ===== *)
theory Server
  imports Protocol
begin

text \<open>
  \<open>src/server/server.py\<close>: the peer of the network storage.  One thread serves one connection;
  this theory has the loop \<open>handle\<close> of one of them, on the bytes its connection has delivered so
  far; \<open>Clients\<close> puts several on one dictionary, a request at a time, and \<open>Threads\<close> an access at a
  time.  The dictionary of dictionaries \<open>pages\<close> is a map of maps.  \<open>recvall\<close> waits for the bytes it
  wants unless the peer has closed the connection, so the loop stops in one of three ways: it waits
  for more bytes, it has quit, or the thread has died of an exception.  \<open>self.request.send(page)\<close> is
  modelled as sending the whole page: the code ignores how many bytes the call has really taken.
\<close>

section \<open>The request loop\<close>

type_synonym page_table = "u32 \<Rightarrow> (u64 \<Rightarrow> u8 list option) option"

datatype loop_end = Waiting | Quit | TypeError

text \<open>What the branches do to the dictionary, and the page a \<open>GET\<close> answers.\<close>

definition put_page :: "u32 \<Rightarrow> u64 \<Rightarrow> u8 list \<Rightarrow> page_table \<Rightarrow> page_table" where
  "put_page pid address data pages =
     (case pages pid of
        Some pid_pages \<Rightarrow> pages(pid \<mapsto> pid_pages(address \<mapsto> data))
      | None \<Rightarrow> pages(pid \<mapsto> Map.empty(address \<mapsto> data)))"

definition get_stored :: "u32 \<Rightarrow> u64 \<Rightarrow> page_table \<Rightarrow> u8 list" where
  "get_stored pid address pages =
     (case pages pid of
        Some pid_pages \<Rightarrow>
          (case pid_pages address of Some page \<Rightarrow> page | None \<Rightarrow> replicate 4096 0)
      | None \<Rightarrow> replicate 4096 0)"

definition rm_page :: "u32 \<Rightarrow> u64 \<Rightarrow> page_table \<Rightarrow> page_table" where
  "rm_page pid address pages =
     (case pages pid of
        Some pid_pages \<Rightarrow>
          (if pid_pages address \<noteq> None then pages(pid \<mapsto> pid_pages(address := None)) else pages)
      | None \<Rightarrow> pages)"

text \<open>
  \<open>recvall\<close>: \<open>packets\<close> are the pieces that have arrived, each handed out in as many calls of \<open>recv\<close>
  as the asked sizes need.  With no piece left the call of \<open>recv\<close> blocks, or returns the empty string
  when the peer has closed the connection.
\<close>

datatype received = Data "u8 list" | NoData | Blocked

function recvall :: "bool \<Rightarrow> nat \<Rightarrow> u8 list \<Rightarrow> u8 list list \<Rightarrow> received \<times> u8 list list" where
  "recvall closed want data packets =
     (if length data < want then
        (case packets of
           [] \<Rightarrow> (if closed then NoData else Blocked, [])
         | packet # later \<Rightarrow>
             let n = min (length packet) (want - length data) in
             recvall closed want (data @ take n packet)
               (if n < length packet then drop n packet # later else later))
      else (Data data, packets))"
  by pat_completeness auto

termination
  by (relation "measure (\<lambda>(closed, want, data, packets). length packets + (want - length data))") auto

declare recvall.simps [simp del]

text \<open>
  The loop: \<open>inb\<close> is what has arrived and is not consumed, \<open>out\<close> what has been sent.  In the
  \<open>PUT\<close> branch the length of the data is printed before the test for \<open>None\<close>, so a
  connection that closes inside a page kills the thread.  The two calls of \<open>recvall\<close> are written as
  what they come to on the bytes; \<open>handle_recvall\<close> has the loop with the calls.
\<close>

function handle :: "bool \<Rightarrow> page_table \<Rightarrow> u8 list \<Rightarrow> u8 list \<Rightarrow> page_table \<times> u8 list \<times> u8 list \<times> loop_end" where
  "handle closed pages inb out =
     (if length inb < header_size then (pages, inb, out, if closed then Quit else Waiting)
      else (case unpack inb of (cmd, pid, address) \<Rightarrow>
        let rest = drop header_size inb in
        if cmd = 1 then
          (if length rest < 4096 then (pages, inb, out, if closed then TypeError else Waiting)
           else handle closed (put_page pid address (take 4096 rest) pages) (drop 4096 rest) out)
        else if cmd = 2 then handle closed pages rest (out @ get_stored pid address pages)
        else if cmd = 3 then handle closed (rm_page pid address pages) rest out
        else if cmd = 4 then handle closed Map.empty rest out
        else handle closed pages rest out))"
  by pat_completeness auto

termination
  by (relation "measure (\<lambda>(closed, pages, inb, out). length inb)") (auto simp: header_size_def)

declare handle.simps [simp del]


section \<open>One request at a time\<close>

lemma unpack_append: "16 \<le> length bs \<Longrightarrow> unpack (bs @ cs) = unpack bs"
  by (simp add: unpack_def)

lemma unpack_take: "16 \<le> length bs \<Longrightarrow> unpack (take 16 bs) = unpack bs"
  using unpack_append [of "take 16 bs" "drop 16 bs"] by simp

text \<open>What \<open>recvall\<close> returns depends on the bytes only, not on the pieces they come in.\<close>

lemma recvall_bytes:
  "length data \<le> want \<Longrightarrow>
     (length data + length (concat packets) < want \<longrightarrow>
        recvall closed want data packets = (if closed then NoData else Blocked, [])) \<and>
     (want \<le> length data + length (concat packets) \<longrightarrow>
        (\<exists>ps. recvall closed want data packets = (Data (data @ take (want - length data) (concat packets)), ps) \<and>
              concat ps = drop (want - length data) (concat packets)))"
proof (induction closed want data packets rule: recvall.induct)
  case (1 closed want data packets)
  show ?case
  proof (cases "length data < want")
    case False
    then show ?thesis using 1(2) by (subst (1 2) recvall.simps) simp
  next
    case True
    show ?thesis
    proof (cases packets)
      case Nil
      then show ?thesis using True by (subst (1 2) recvall.simps) simp
    next
      case (Cons p ps)
      define n where "n = min (length p) (want - length data)"
      define ps' where "ps' = (if n < length p then drop n p # ps else ps)"
      have r: "recvall closed want data packets = recvall closed want (data @ take n p) ps'"
        by (subst recvall.simps) (simp add: True Cons n_def ps'_def Let_def)
      have c: "concat packets = take n p @ concat ps'" "n = length (take n p)"
        by (simp_all add: Cons ps'_def n_def)
      have le: "length (data @ take n p) \<le> want" using True by (simp add: n_def)
      from 1(1) [OF True Cons n_def, folded ps'_def, OF le] show ?thesis
        unfolding r c(1) using c(2) le by (auto simp: n_def)
    qed
  qed
qed

lemma recvall_data:
  "n \<le> length (concat ps) \<Longrightarrow> \<exists>qs. recvall closed n [] ps = (Data (take n (concat ps)), qs) \<and> concat qs = drop n (concat ps)"
  using recvall_bytes [of "[]" n ps closed] by simp

lemma recvall_none: "length (concat ps) < n \<Longrightarrow> recvall closed n [] ps = (if closed then NoData else Blocked, [])"
  using recvall_bytes [of "[]" n ps closed] by simp

text \<open>The loop with its calls of \<open>recvall\<close>, on the pieces that have arrived.\<close>

lemma handle_recvall:
  "handle closed pages (concat packets) out =
     (case recvall closed header_size [] packets of
        (Data data, later) \<Rightarrow>
          (case unpack data of (cmd, pid, address) \<Rightarrow>
             if cmd = 1 then
               (case recvall closed 4096 [] later of
                  (Data page, left) \<Rightarrow> handle closed (put_page pid address page pages) (concat left) out
                | (NoData, _) \<Rightarrow> (pages, concat packets, out, TypeError)
                | (Blocked, _) \<Rightarrow> (pages, concat packets, out, Waiting))
             else if cmd = 2 then handle closed pages (concat later) (out @ get_stored pid address pages)
             else if cmd = 3 then handle closed (rm_page pid address pages) (concat later) out
             else if cmd = 4 then handle closed Map.empty (concat later) out
             else handle closed pages (concat later) out)
      | (NoData, _) \<Rightarrow> (pages, concat packets, out, Quit)
      | (Blocked, _) \<Rightarrow> (pages, concat packets, out, Waiting))"
proof (cases "length (concat packets) < header_size")
  case True
  then show ?thesis by (subst handle.simps) (simp add: recvall_none)
next
  case False
  then obtain later where later: "recvall closed header_size [] packets = (Data (take header_size (concat packets)), later)"
      "concat later = drop header_size (concat packets)"
    using recvall_data [of header_size packets closed] by auto
  obtain cmd pid address where u: "unpack (concat packets) = (cmd, pid, address)" by (cases "unpack (concat packets)")
  have u': "unpack (take header_size (concat packets)) = (cmd, pid, address)"
    using u False by (simp add: header_size_def unpack_take)
  show ?thesis
  proof (cases "length (concat later) < 4096")
    case True
    then show ?thesis using False
      by (subst handle.simps) (simp add: later(1) u u' Let_def recvall_none later(2) [symmetric] del: length_concat)
  next
    case page: False
    then obtain left where "recvall closed 4096 [] later = (Data (take 4096 (concat later)), left)"
        "concat left = drop 4096 (concat later)"
      using recvall_data [of 4096 later closed] by auto
    then show ?thesis using False page
      by (subst handle.simps) (simp add: later(1) u u' Let_def later(2) [symmetric] del: length_concat)
  qed
qed

lemma handle_header:
  "handle closed pages (header_bytes h @ rest) out =
     (if command h = PROTOCOL_PUT then
        (if length rest < 4096 then (pages, header_bytes h @ rest, out, if closed then TypeError else Waiting)
         else handle closed (put_page (ph_pid h) (ph_address h) (take 4096 rest) pages) (drop 4096 rest) out)
      else if command h = PROTOCOL_GET then
        handle closed pages rest (out @ get_stored (ph_pid h) (ph_address h) pages)
      else if command h = PROTOCOL_RM then handle closed (rm_page (ph_pid h) (ph_address h) pages) rest out
      else handle closed Map.empty rest out)"
  by (subst handle.simps, cases "command h")
    (simp_all add: unpack_append header_size_def unpack_header_bytes Let_def del: length_header_bytes
       add: length_header_bytes [unfolded header_size_def])

lemma handle_short: "length inb < 16 \<Longrightarrow> handle closed pages inb out = (pages, inb, out, if closed then Quit else Waiting)"
  by (subst handle.simps) (simp add: header_size_def)

lemma handle_Nil [simp]: "handle closed pages [] out = (pages, [], out, if closed then Quit else Waiting)"
  by (simp add: handle_short)

text \<open>While the connection is open the loop only ever waits.\<close>

lemma handle_open_waits: "\<exists>p i ob. handle False pages inb out = (p, i, ob, Waiting)"
proof (induction False pages inb out rule: handle.induct)
  case (1 pages inb out)
  show ?case
    by (subst handle.simps) (use 1 in \<open>auto simp: Let_def split: prod.split\<close>)
qed

text \<open>How the network cuts the byte stream into pieces makes no difference.\<close>

lemma handle_append:
  "handle False pages inb out = (p, i, ob, e) \<Longrightarrow>
     handle closed pages (inb @ bs) out = handle closed p (i @ bs) ob"
proof (induction False pages inb out rule: handle.induct)
  case (1 pages inb out)
  obtain cmd pid address where u: "unpack inb = (cmd, pid, address)" by (cases "unpack inb")
  show ?case
  proof (cases "length inb < header_size")
    case True
    with 1(6) have "p = pages" "i = inb" "ob = out" by (auto simp: handle_short header_size_def)
    then show ?thesis by simp
  next
    case False
    then have u': "unpack (inb @ bs) = (cmd, pid, address)" using u by (simp add: unpack_append header_size_def)
    define rest where "rest = drop header_size inb"
    have d: "drop header_size (inb @ bs) = rest @ bs" using False by (simp add: rest_def)
    note IH = 1(1-5) [OF False u [symmetric], OF refl refl, folded rest_def]
    note step = 1(6) [unfolded handle.simps [of False pages inb out], simplified False u if_False prod.case Let_def]
    show ?thesis
    proof (cases "cmd = 1 \<and> length rest < 4096")
      case True
      with step have "p = pages" "i = inb" "ob = out" by (simp_all add: rest_def [symmetric])
      then show ?thesis by simp
    next
      case no_wait: False
      show ?thesis
      using IH step False no_wait
      by (subst handle.simps [of closed pages "inb @ bs"])
        (auto simp: u' d Let_def rest_def [symmetric] split: if_splits)
    qed
  qed
qed

text \<open>What the loop leaves.\<close>

lemma handle_suffix:
  "handle closed pages inb out = (p, rest, ob, e) \<Longrightarrow>
     (\<exists>done. inb = done @ rest) \<and> (\<exists>out'. ob = out @ out') \<and>
     (length rest < 16 \<or> (fst (unpack rest) = 1 \<and> length rest < 4112)) \<and>
     (e = Waiting \<longleftrightarrow> \<not> closed) \<and> (e = TypeError \<longleftrightarrow> closed \<and> 16 \<le> length rest)"
proof (induction closed pages inb out rule: handle.induct)
  case (1 closed pages inb out)
  obtain cmd pid address where u: "unpack inb = (cmd, pid, address)" by (cases "unpack inb")
  show ?case
  proof (cases "length inb < header_size")
    case True
    with 1(6) show ?thesis by (auto simp: handle_short header_size_def split: if_splits)
  next
    case False
    define rest' where "rest' = drop header_size inb"
    have s1: "\<exists>done. inb = done @ rest" if "\<exists>done. rest' = done @ rest"
      using that append_take_drop_id [of header_size inb] by (metis rest'_def append.assoc)
    have s2: "\<exists>done. inb = done @ rest" if "\<exists>done. drop 4096 rest' = done @ rest"
      using that append_take_drop_id [of 4096 rest'] by (intro s1) (metis append.assoc)
    have len: "length rest' = length inb - 16" by (simp add: rest'_def header_size_def)
    note IH = 1(1-5) [OF False u [symmetric], OF refl refl, folded rest'_def]
    note step = 1(6) [unfolded handle.simps [of closed pages inb out], simplified False u if_False prod.case Let_def,
        folded rest'_def]
    consider (short) "cmd = 1" "length rest' < 4096" | (put) "cmd = 1" "\<not> length rest' < 4096" | (get) "cmd = 2"
      | (rm) "cmd = 3" | (release) "cmd = 4" | (other) "cmd \<noteq> 1" "cmd \<noteq> 2" "cmd \<noteq> 3" "cmd \<noteq> 4" by blast
    then show ?thesis
    proof cases
      case short
      with step False u len show ?thesis by (auto simp: header_size_def split: if_splits)
    next
      case put
      with step IH(1) show ?thesis using s2 by simp
    next
      case get
      with step IH(2) show ?thesis using s1 by auto
    next
      case rm
      with step IH(3) show ?thesis using s1 by simp
    next
      case release
      with step IH(4) show ?thesis using s1 by simp
    next
      case other
      with step IH(5) show ?thesis using s1 by simp
    qed
  qed
qed

text \<open>The handling of a connection whose bytes arrive in pieces.\<close>

definition handle_pieces :: "page_table \<Rightarrow> u8 list list \<Rightarrow> page_table \<times> u8 list \<times> u8 list \<times> loop_end" where
  "handle_pieces pages pieces =
     fold (\<lambda>piece (pages, inb, out, e). handle False pages (inb @ piece) out) pieces (pages, [], [], Waiting)"

lemma handle_waiting: "handle False pages inb out = (p, i, ob, e) \<Longrightarrow> handle False p i ob = (p, i, ob, Waiting)"
  using handle_append [of pages inb out p i ob e False "[]"] handle_open_waits [of pages inb out] by auto

lemma fold_pieces:
  assumes "handle False pages i out = (pages, i, out, Waiting)"
  shows "fold (\<lambda>piece (pages, inb, out, e). handle False pages (inb @ piece) out) pieces (pages, i, out, Waiting) =
    handle False pages (i @ concat pieces) out"
  using assms
proof (induction pieces arbitrary: pages i out)
  case (Cons q qs)
  obtain p' i' o' where q: "handle False pages (i @ q) out = (p', i', o', Waiting)"
    using handle_open_waits by blast
  from Cons.IH [OF handle_waiting [OF q]] handle_append [OF q, of False "concat qs"] show ?case
    by (simp add: q)
qed simp

section \<open>The table as one map\<close>

text \<open>
  The promise of the server: a map from (process, address) to pages, and what each request does
  to it.  \<open>encode\<close> is the message the module sends for a request.
\<close>

datatype request = Put pid_t u64 page | Get pid_t u64 | Rm pid_t u64 | Release

fun encode :: "request \<Rightarrow> u8 list" where
  "encode (Put p a b) = header_bytes \<lparr>command = PROTOCOL_PUT, ph_pid = p, ph_address = a\<rparr> @ page_bytes b"
| "encode (Get p a) = header_bytes \<lparr>command = PROTOCOL_GET, ph_pid = p, ph_address = a\<rparr>"
| "encode (Rm p a) = header_bytes \<lparr>command = PROTOCOL_RM, ph_pid = p, ph_address = a\<rparr>"
| "encode Release = header_bytes \<lparr>command = PROTOCOL_RELEASE, ph_pid = 0, ph_address = 0\<rparr>"

fun apply_request :: "request \<Rightarrow> (pid_t \<times> u64 \<Rightarrow> page option) \<Rightarrow> (pid_t \<times> u64 \<Rightarrow> page option)" where
  "apply_request (Put p a b) T = T((p, a) \<mapsto> b)"
| "apply_request (Get p a) T = T"
| "apply_request (Rm p a) T = T((p, a) := None)"
| "apply_request Release T = Map.empty"

fun reply :: "request \<Rightarrow> (pid_t \<times> u64 \<Rightarrow> page option) \<Rightarrow> u8 list" where
  "reply (Get p a) T = page_bytes (case T (p, a) of Some b \<Rightarrow> b | None \<Rightarrow> zero_page)"
| "reply r T = []"

fun replies :: "request list \<Rightarrow> (pid_t \<times> u64 \<Rightarrow> page option) \<Rightarrow> u8 list" where
  "replies [] T = []"
| "replies (r # rs) T = reply r T @ replies rs (apply_request r T)"

definition table_abs :: "page_table \<Rightarrow> pid_t \<times> u64 \<Rightarrow> page option" where
  "table_abs pages = (\<lambda>(p, a). case pages p of None \<Rightarrow> None
     | Some m \<Rightarrow> map_option (\<lambda>bs. fill_page bs zero_page) (m a))"

text \<open>Only whole pages are stored.\<close>

definition table_ok :: "page_table \<Rightarrow> bool" where
  "table_ok pages \<longleftrightarrow> (\<forall>p m a bs. pages p = Some m \<longrightarrow> m a = Some bs \<longrightarrow> length bs = 4096)"

lemma page_bytes_fill: "length bs = 4096 \<Longrightarrow> page_bytes (fill_page bs old) = bs"
  by (rule nth_equalityI)
    (auto simp: page_bytes_def fill_page_def unat_of_nat take_bit_nat_eq_self_iff unsigned_of_nat)

lemma page_bytes_zero: "page_bytes zero_page = replicate 4096 0"
  by (rule nth_equalityI) (simp_all add: page_bytes_def zero_page_def)

lemma put_page_abs: "table_abs (put_page p a (page_bytes b) pages) = (table_abs pages)((p, a) \<mapsto> b)"
  by (rule ext) (auto simp: table_abs_def put_page_def split: option.splits prod.splits)

lemma put_page_ok: "table_ok pages \<Longrightarrow> length bs = 4096 \<Longrightarrow> table_ok (put_page p a bs pages)"
  by (auto simp: table_ok_def put_page_def split: option.splits if_splits)

lemma rm_page_abs: "table_abs (rm_page p a pages) = (table_abs pages)((p, a) := None)"
  by (rule ext) (auto simp: table_abs_def rm_page_def split: option.splits prod.splits)

lemma rm_page_ok: "table_ok pages \<Longrightarrow> table_ok (rm_page p a pages)"
  by (auto simp: table_ok_def rm_page_def split: option.splits if_splits)

lemma get_stored_abs:
  "table_ok pages \<Longrightarrow>
     get_stored p a pages = page_bytes (case table_abs pages (p, a) of Some b \<Rightarrow> b | None \<Rightarrow> zero_page)"
  by (auto simp: table_ok_def table_abs_def get_stored_def page_bytes_zero page_bytes_fill split: option.splits)

lemma table_empty [simp]: "table_abs Map.empty = Map.empty" "table_ok Map.empty"
  by (auto simp: table_abs_def table_ok_def)

lemma handle_request:
  assumes "table_ok pages"
  shows "\<exists>pages'. handle closed pages (encode r @ rest) out =
       handle closed pages' rest (out @ reply r (table_abs pages)) \<and>
     table_abs pages' = apply_request r (table_abs pages) \<and> table_ok pages'"
  using assms
  by (cases r) (auto simp: handle_header put_page_abs put_page_ok rm_page_abs rm_page_ok get_stored_abs)

lemma handle_requests:
  assumes "table_ok pages"
  shows "\<exists>pages'. handle closed pages (concat (map encode rs) @ rest) out =
       handle closed pages' rest (out @ replies rs (table_abs pages)) \<and>
     table_abs pages' = fold apply_request rs (table_abs pages) \<and> table_ok pages'"
  using assms
proof (induction rs arbitrary: pages out)
  case (Cons r rs)
  from handle_request [OF Cons.prems, of closed r "concat (map encode rs) @ rest" out]
  obtain p1 where p1: "handle closed pages (encode r @ concat (map encode rs) @ rest) out =
       handle closed p1 (concat (map encode rs) @ rest) (out @ reply r (table_abs pages))"
    "table_abs p1 = apply_request r (table_abs pages)" "table_ok p1" by blast
  from Cons.IH [OF p1(3), of "out @ reply r (table_abs pages)"] p1 show ?case by auto
qed auto

section \<open>Properties\<close>

text \<open>
  C24. How the network cuts the byte stream into pieces makes no difference to the server, for
  any bytes whatever: handling the pieces as they arrive equals handling the whole stream.
\<close>

theorem stream_cut_irrelevant:
  "handle_pieces pages pieces = handle False pages (concat pieces) []"
  using fold_pieces [of pages "[]" "[]" pieces] by (simp add: handle_pieces_def)

text \<open>
  C26. The loop always stops, and where it should: it leaves a suffix of its input that is not a
  complete request, it waits exactly while the connection is open, and it dies only inside the
  page of a \<open>PUT\<close>.
\<close>

theorem handle_stops:
  "\<exists>pages' done rest out' e. handle closed pages inb out = (pages', rest, out @ out', e) \<and> inb = done @ rest \<and>
     (length rest < 16 \<or> (fst (unpack rest) = 1 \<and> length rest < 4112)) \<and>
     (e = Waiting \<longleftrightarrow> \<not> closed) \<and> (e = TypeError \<longleftrightarrow> closed \<and> 16 \<le> length rest)"
  using handle_suffix [of closed pages inb out] by (cases "handle closed pages inb out") fastforce

text \<open>
  C21. The server refines a map from (process, address) to pages: for every sequence of
  requests of the module, cut anyhow into pieces by the network, it consumes all of them, the
  table becomes what the map becomes, and the replies are the pages the map holds (zeroes for
  an absent key), in order.
\<close>

theorem server_refines_map:
  assumes "table_ok pages" and "concat pieces = concat (map encode rs)"
  shows "\<exists>pages'. handle_pieces pages pieces = (pages', [], replies rs (table_abs pages), Waiting) \<and>
    table_abs pages' = fold apply_request rs (table_abs pages) \<and> table_ok pages'"
  using handle_requests [OF assms(1), of False rs "[]" "[]"] fold_pieces [of pages "[]" "[]" pieces]
  by (auto simp: handle_pieces_def assms(2))

theorem server_refines_map_witness:
  "\<exists>pages'. handle False Map.empty (encode (Put 7 4096 (\<lambda>_. 5)) @ encode (Get 7 4096)) [] =
     (pages', [], replicate 4096 5, Waiting)"
proof -
  let ?rs = "[Put 7 4096 (\<lambda>_. 5), Get 7 4096]"
  have "page_bytes (\<lambda>_. 5) = replicate 4096 5"
    by (rule nth_equalityI) (simp_all add: page_bytes_def)
  then show ?thesis
    using server_refines_map [OF table_empty(2), of "[concat (map encode ?rs)]" ?rs] by (auto simp: handle_pieces_def)
qed

text \<open>
  A connection that closes inside the page of a \<open>PUT\<close> kills the serving thread with an
  exception instead of ending its loop, because the length of \<open>None\<close> is printed.
\<close>

theorem closed_inside_put_crashes:
  assumes "length bs < 4096"
  shows "handle True pages (header_bytes \<lparr>command = PROTOCOL_PUT, ph_pid = p, ph_address = a\<rparr> @ bs) out =
    (pages, header_bytes \<lparr>command = PROTOCOL_PUT, ph_pid = p, ph_address = a\<rparr> @ bs, out, TypeError)"
  using assms by (simp add: handle_header)

theorem closed_inside_put_crashes_witness:
  "snd (snd (snd (handle True Map.empty (header_bytes \<lparr>command = PROTOCOL_PUT, ph_pid = 7, ph_address = 4096\<rparr> @ [1, 2]) []))) =
     TypeError"
  by (subst closed_inside_put_crashes) simp_all

end
