(* ===== verification/StorageSpec.thy ===== *)
theory StorageSpec
  imports Storage Server
begin

text \<open>
  The contract of a page storage, and that both storages keep it: the kernel storage for
  addresses below \<open>2 ^ 32\<close>, the network storage in front of a server that keeps its table.
\<close>

section \<open>The contract\<close>

text \<open>
  A storage is a map from (process, address) to pages.  \<open>ok\<close> are the states in which it works,
  \<open>valid\<close> the addresses it can handle.
\<close>

locale storage =
  fixes ops :: "'s storage_ops"
    and ok :: "'s \<Rightarrow> bool"
    and valid :: "u64 \<Rightarrow> bool"
    and stored :: "'s \<Rightarrow> pid_t \<times> u64 \<Rightarrow> page option"
  assumes save: "ok s \<Longrightarrow> valid a \<Longrightarrow>
      \<exists>n s'. so_save ops p a b s = Inr (n, s') \<and> 0 \<le> n \<and> ok s' \<and> stored s' = (stored s)((p, a) \<mapsto> b)"
    and load: "ok s \<Longrightarrow> valid a \<Longrightarrow>
      \<exists>n s'. so_load ops p a b s =
          Inr (n, case stored s (p, a) of Some c \<Rightarrow> c | None \<Rightarrow> zero_page, s') \<and>
        0 \<le> n \<and> ok s' \<and> stored s' = stored s"
    and remove: "ok s \<Longrightarrow> valid a \<Longrightarrow>
      \<exists>s'. so_remove ops p a s = Inr s' \<and> ok s' \<and> stored s' = (stored s)((p, a) := None)"
    and release: "ok s \<Longrightarrow> \<exists>s'. so_release ops s = Inr s'"
begin

text \<open>What is saved is read back, also after other pages were saved or removed.\<close>

lemma save_load:
  assumes "ok s" and "valid a" and "so_save ops p a b s = Inr (n, s1)"
  shows "\<exists>m s2. so_load ops p a old s1 = Inr (m, b, s2) \<and> 0 \<le> m \<and> ok s2 \<and> stored s2 = stored s1"
proof -
  from save [OF assms(1,2), of p b] assms(3) have "ok s1" "stored s1 (p, a) = Some b" by auto
  with load [OF this(1) assms(2), of p old] show ?thesis by auto
qed

lemma remove_load:
  assumes "ok s" and "valid a" and "so_remove ops p a s = Inr s1"
  shows "\<exists>m s2. so_load ops p a old s1 = Inr (m, zero_page, s2) \<and> 0 \<le> m"
proof -
  from remove [OF assms(1,2), of p] assms(3) have "ok s1" "stored s1 (p, a) = None" by auto
  with load [OF this(1) assms(2), of p old] show ?thesis by auto
qed

end

section \<open>A storage that may fail\<close>

text \<open>
  What remains of the contract when the storage can fail, because memory runs out or the
  connection to the server is lost (\<open>fails\<close>): a save or a load that fails says so by a negative
  result, a save that fails may or may not have written its page, a removal may be lost without
  notice; nothing ever changes another page, and a load that reports success has the right bytes.
\<close>

locale page_store =
  fixes ops :: "'s storage_ops"
    and ok :: "'s \<Rightarrow> bool"
    and valid :: "u64 \<Rightarrow> bool"
    and stored :: "'s \<Rightarrow> pid_t \<times> u64 \<Rightarrow> page option"
    and fails :: bool
  assumes save_any: "ok s \<Longrightarrow> valid a \<Longrightarrow>
      \<exists>n s'. so_save ops p a b s = Inr (n, s') \<and> ok s' \<and> (n < 0 \<longrightarrow> fails) \<and>
        (stored s' = (stored s)((p, a) \<mapsto> b) \<or> n < 0 \<and> stored s' = stored s)"
    and load_any: "ok s \<Longrightarrow> valid a \<Longrightarrow>
      \<exists>n c s'. so_load ops p a b s = Inr (n, c, s') \<and> ok s' \<and> stored s' = stored s \<and> (n < 0 \<longrightarrow> fails) \<and>
        (0 \<le> n \<longrightarrow> c = (case stored s (p, a) of Some d \<Rightarrow> d | None \<Rightarrow> zero_page))"
    and remove_any: "ok s \<Longrightarrow> valid a \<Longrightarrow>
      \<exists>s'. so_remove ops p a s = Inr s' \<and> ok s' \<and>
        (stored s' = (stored s)((p, a) := None) \<or> fails \<and> stored s' = stored s)"
    and release_any: "ok s \<Longrightarrow> \<exists>s'. so_release ops s = Inr s'"

text \<open>A storage that keeps the full contract is one that never fails.\<close>

sublocale storage \<subseteq> sound: page_store ops ok valid stored False
proof unfold_locales
  fix s p a b
  assume ok: "ok s"
  then show "\<exists>s'. so_release ops s = Inr s'" by (rule release)
  assume val: "valid a"
  show "\<exists>n s'. so_save ops p a b s = Inr (n, s') \<and> ok s' \<and> (n < 0 \<longrightarrow> False) \<and>
      (stored s' = (stored s)((p, a) \<mapsto> b) \<or> n < 0 \<and> stored s' = stored s)"
    using save [OF ok val, of p b] by fastforce
  show "\<exists>n c s'. so_load ops p a b s = Inr (n, c, s') \<and> ok s' \<and> stored s' = stored s \<and> (n < 0 \<longrightarrow> False) \<and>
      (0 \<le> n \<longrightarrow> c = (case stored s (p, a) of Some d \<Rightarrow> d | None \<Rightarrow> zero_page))"
    using load [OF ok val, of p b] by fastforce
  show "\<exists>s'. so_remove ops p a s = Inr s' \<and> ok s' \<and>
      (stored s' = (stored s)((p, a) := None) \<or> False \<and> stored s' = stored s)"
    using remove [OF ok val, of p] by blast
qed

section \<open>The kernel storage keeps it\<close>

definition kernel_stored :: "kstore \<Rightarrow> pid_t \<times> u64 \<Rightarrow> page option" where
  "kernel_stored S = (\<lambda>(p, a). case S of
       KbList l \<Rightarrow> (case find_kb p a l of Some i \<Rightarrow> kb_buffer (l ! i) | None \<Rightarrow> None)
     | _ \<Rightarrow> None)"

definition kb_key :: "kernel_buffer \<Rightarrow> pid_t \<times> u64" where
  "kb_key kb = (kb_pid kb, kb_address kb)"

definition kernel_ok :: "kstore \<Rightarrow> bool" where
  "kernel_ok S \<longleftrightarrow> (case S of KbList l \<Rightarrow> distinct (map kb_key l) | _ \<Rightarrow> False)"

definition low_address :: "u64 \<Rightarrow> bool" where
  "low_address a \<longleftrightarrow> a < 2 ^ 32"

definition kernel_memory_ok :: "kenv \<Rightarrow> bool" where
  "kernel_memory_ok E \<longleftrightarrow>
     (\<forall>p a. kmalloc_ok E (AllocKernelBuffer p a) \<and> kmalloc_ok E (AllocKernelPage p a))"

lemma unat_ucast_ucast: "unat (ucast (ucast a :: u32) :: u64) = unat a mod 2 ^ 32"
proof -
  have "unat (ucast (ucast a :: u32) :: u64) = take_bit 32 (unat a)"
    by (simp add: unsigned_ucast_eq unsigned_take_bit_eq)
  then show ?thesis by (simp only: take_bit_eq_mod)
qed

lemma ucast_low: "low_address a \<Longrightarrow> ucast (ucast a :: u32) = a"
  by (rule word_unat_eq_iff [THEN iffD2])
    (simp add: unat_ucast_ucast low_address_def word_less_nat_alt)

lemma ucast_high: "\<not> low_address a \<Longrightarrow> ucast (ucast a :: u32) \<noteq> a"
proof
  assume "\<not> low_address a" and "ucast (ucast a :: u32) = a"
  then have "unat a mod 2 ^ 32 = unat a" by (metis unat_ucast_ucast)
  moreover have "unat a mod 2 ^ 32 < 2 ^ 32" by simp
  ultimately have "unat a < 2 ^ 32" by simp
  with \<open>\<not> low_address a\<close> show False by (simp add: low_address_def word_less_nat_alt)
qed

lemma find_kb_Some: "find_kb p a l = Some i \<Longrightarrow> i < length l \<and> kb_key (l ! i) = (p, a)"
  by (induction l arbitrary: i) (auto simp: kb_key_def nth_Cons split: if_splits nat.split)

lemma find_kb_None: "find_kb p a l = None \<longleftrightarrow> (p, a) \<notin> kb_key ` set l"
  by (induction l) (auto simp: kb_key_def)

lemma find_kb_iff:
  assumes "distinct (map kb_key l)"
  shows "find_kb p a l = Some i \<longleftrightarrow> i < length l \<and> kb_key (l ! i) = (p, a)"
proof
  assume i: "i < length l \<and> kb_key (l ! i) = (p, a)"
  then have "(p, a) \<in> kb_key ` set l" by (metis image_eqI nth_mem)
  then obtain j where j: "find_kb p a l = Some j" using find_kb_None [of p a l] by auto
  with find_kb_Some [OF j] i have "map kb_key l ! j = map kb_key l ! i" "j < length l" by simp_all
  then have "j = i" using nth_eq_iff_index_eq [OF assms, of j i] i by simp
  with j show "find_kb p a l = Some i" by simp
qed (rule find_kb_Some)

text \<open>Looking a key up in the list is looking it up in an association list.\<close>

lemma kernel_stored_map_of:
  "kernel_stored (KbList l) k = Option.bind (map_of (map (\<lambda>kb. (kb_key kb, kb_buffer kb)) l) k) id"
  by (induction l) (cases k, auto simp: kernel_stored_def kb_key_def split: option.splits)+

lemma find_kb_keys: "map kb_key l = map kb_key l' \<Longrightarrow> find_kb p a l = find_kb p a l'"
proof (induction l arbitrary: l')
  case (Cons x xs)
  then obtain y ys where l': "l' = y # ys" and "kb_key x = kb_key y" and ys: "map kb_key xs = map kb_key ys"
    by (cases l') auto
  then have "kb_pid x = kb_pid y" "kb_address x = kb_address y" by (simp_all add: kb_key_def)
  with Cons.IH [OF ys] show ?case by (simp add: l')
qed simp

lemma find_kb_append:
  "find_kb p a (l @ [x]) = (case find_kb p a l of Some i \<Rightarrow> Some i
     | None \<Rightarrow> if kb_key x = (p, a) then Some (length l) else None)"
  by (induction l) (auto simp: kb_key_def split: option.splits)

lemma kernel_stored_update:
  assumes "distinct (map kb_key l)" and "i < length l" and "kb_key x = kb_key (l ! i)"
  shows "kernel_stored (KbList (l[i := x])) = (kernel_stored (KbList l))(kb_key x := kb_buffer x)"
proof
  fix k :: "pid_t \<times> u64"
  obtain p a where k: "k = (p, a)" by (cases k)
  have "map kb_key (l[i := x]) = map kb_key l"
    using assms by (simp add: map_update list_update_same_conv)
  from find_kb_keys [OF this] have f: "find_kb p a (l[i := x]) = find_kb p a l" .
  show "kernel_stored (KbList (l[i := x])) k = ((kernel_stored (KbList l))(kb_key x := kb_buffer x)) k"
  proof (cases "find_kb p a l")
    case None
    moreover have "kb_key (l ! i) \<in> kb_key ` set l" using assms(2) by simp
    ultimately have "kb_key x \<noteq> k" by (metis assms(3) find_kb_None k)
    with None f show ?thesis by (simp add: kernel_stored_def k)
  next
    case (Some j)
    with find_kb_iff [OF assms(1), of p a j] assms have "j = i \<longleftrightarrow> kb_key x = k" "j < length l"
      by (auto simp: k nth_eq_iff_index_eq) (metis assms(1) length_map nth_eq_iff_index_eq nth_map)
    with Some f show ?thesis by (auto simp: kernel_stored_def k)
  qed
qed

lemma kernel_stored_append:
  assumes "kb_key x \<notin> kb_key ` set l"
  shows "kernel_stored (KbList (l @ [x])) = (kernel_stored (KbList l))(kb_key x := kb_buffer x)"
proof
  fix k :: "pid_t \<times> u64"
  obtain p a where k: "k = (p, a)" by (cases k)
  show "kernel_stored (KbList (l @ [x])) k = ((kernel_stored (KbList l))(kb_key x := kb_buffer x)) k"
    using assms find_kb_Some [of p a l] find_kb_None [of p a l]
    by (auto simp: kernel_stored_def k find_kb_append nth_append image_iff split: option.split)
qed

lemma kernel_stored_filter:
  "kernel_stored (KbList (filter (\<lambda>kb. kb_key kb \<noteq> k) l)) = (kernel_stored (KbList l))(k := None)"
proof
  fix q
  have "map_of (map (\<lambda>kb. (kb_key kb, kb_buffer kb)) (filter (\<lambda>kb. kb_key kb \<noteq> k) l)) =
      (map_of (map (\<lambda>kb. (kb_key kb, kb_buffer kb)) l))(k := None)"
    by (induction l) auto
  then show "kernel_stored (KbList (filter (\<lambda>kb. kb_key kb \<noteq> k) l)) q = ((kernel_stored (KbList l))(k := None)) q"
    by (simp add: kernel_stored_map_of)
qed

lemma kernel_save_spec:
  assumes "kernel_ok S" and "low_address a" and "kernel_memory_ok E"
  shows "\<exists>S'. kernel_save E p a b S = Inr (0, S') \<and> kernel_ok S' \<and>
    kernel_stored S' = (kernel_stored S)((p, a) \<mapsto> b)"
proof -
  from assms(1) obtain l where S: "S = KbList l" and d: "distinct (map kb_key l)"
    by (auto simp: kernel_ok_def split: kstore.splits)
  show ?thesis
  proof (cases "find_kb p a l")
    case None
    define x where "x = \<lparr>kb_pid = p, kb_address = a, kb_buffer = Some b\<rparr>"
    have x: "kb_key x = (p, a)" "kb_buffer x = Some b" by (simp_all add: x_def kb_key_def)
    have "kernel_save E p a b S = Inr (0, KbList (l @ [x]))"
      using None assms(3)
      by (simp add: kernel_save_def S get_kernel_buffer_def ucast_low [OF assms(2)] kernel_memory_ok_def
          Let_def x_def)
    moreover have "kb_key x \<notin> kb_key ` set l" using None by (simp add: x find_kb_None)
    ultimately show ?thesis
      using d kernel_stored_append [of x l] by (auto simp: S kernel_ok_def x)
  next
    case (Some i)
    then have i: "i < length l" "kb_key (l ! i) = (p, a)" by (auto dest: find_kb_Some)
    define x where "x = (l ! i)\<lparr>kb_buffer := Some b\<rparr>"
    have x: "kb_key x = kb_key (l ! i)" "kb_buffer x = Some b" by (simp_all add: x_def kb_key_def)
    have "(l ! i)\<lparr>kb_address := a\<rparr> = l ! i" using i(2) by (simp add: kb_key_def)
    then have "kernel_save E p a b S = Inr (0, KbList (l[i := x]))"
      using Some assms(3)
      by (simp add: kernel_save_def S get_kernel_buffer_def ucast_low [OF assms(2)] kernel_memory_ok_def
          Let_def x_def)
    moreover have "map kb_key (l[i := x]) = map kb_key l"
      using i(1) x(1) by (simp add: map_update list_update_same_conv)
    ultimately show ?thesis
      using kernel_stored_update [OF d i(1) x(1)] d by (simp add: S kernel_ok_def x i(2))
  qed
qed

lemma kernel_load_spec:
  assumes "kernel_ok S" and "low_address a"
  shows "kernel_load E p a b S =
    Inr (0, case kernel_stored S (p, a) of Some c \<Rightarrow> c | None \<Rightarrow> zero_page, S)"
  using assms
  by (auto simp: kernel_ok_def kernel_load_def get_kernel_buffer_def ucast_low kernel_stored_def
      split: kstore.splits option.splits)

lemma kernel_remove_spec:
  assumes "kernel_ok S"
  shows "\<exists>S'. kernel_remove p a S = Inr S' \<and> kernel_ok S' \<and> kernel_stored S' = (kernel_stored S)((p, a) := None)"
proof -
  from assms obtain l where S: "S = KbList l" and d: "distinct (map kb_key l)"
    by (auto simp: kernel_ok_def split: kstore.splits)
  have "(\<lambda>kb. \<not> (kb_address kb = a \<and> kb_pid kb = p)) = (\<lambda>kb. kb_key kb \<noteq> (p, a))"
    by (auto simp: kb_key_def)
  then show ?thesis
    using kernel_stored_filter [of "(p, a)" l] d
    by (simp add: S kernel_remove_def kernel_ok_def distinct_map_filter)
qed

lemma kernel_ops_simps [simp]:
  "so_init (kernel_ops E) = kernel_init E" "so_save (kernel_ops E) = kernel_save E"
  "so_load (kernel_ops E) = kernel_load E" "so_remove (kernel_ops E) = kernel_remove"
  "so_release (kernel_ops E) = kernel_release"
  by (simp_all add: kernel_ops_def)

lemma kernel_storage:
  assumes "kernel_memory_ok E"
  shows "storage (kernel_ops E) kernel_ok low_address kernel_stored"
proof unfold_locales
  fix s p a b
  assume ok: "kernel_ok s"
  show "\<exists>s'. so_release (kernel_ops E) s = Inr s'"
    using ok by (auto simp: kernel_ok_def kernel_release_def split: kstore.splits)
  assume low: "low_address a"
  show "\<exists>n s'. so_save (kernel_ops E) p a b s = Inr (n, s') \<and> 0 \<le> n \<and> kernel_ok s' \<and>
      kernel_stored s' = (kernel_stored s)((p, a) \<mapsto> b)"
    using kernel_save_spec [OF ok low assms, of p b] by auto
  show "\<exists>n s'. so_load (kernel_ops E) p a b s =
        Inr (n, case kernel_stored s (p, a) of Some c \<Rightarrow> c | None \<Rightarrow> zero_page, s') \<and>
      0 \<le> n \<and> kernel_ok s' \<and> kernel_stored s' = kernel_stored s"
    using kernel_load_spec [OF ok low, of E p b] ok by simp
  show "\<exists>s'. so_remove (kernel_ops E) p a s = Inr s' \<and> kernel_ok s' \<and>
      kernel_stored s' = (kernel_stored s)((p, a) := None)"
    using kernel_remove_spec [OF ok, of p a] by simp
qed

lemma linux_ref_kernel_memory: "kernel_memory_ok linux_ref"
  by (simp add: kernel_memory_ok_def linux_ref_def)

interpretation ks: storage "kernel_ops linux_ref" kernel_ok low_address kernel_stored
  by (rule kernel_storage [OF linux_ref_kernel_memory])

section \<open>The network storage keeps it, given a server\<close>

text \<open>
  What the network storage needs of the connection and the server behind it: a message of each
  kind is taken whole and does to a table of pages what it says.
\<close>

locale page_server =
  fixes E :: kenv
    and N :: "'w netenv"
    and wok :: "'w \<Rightarrow> bool"
    and tbl :: "'w \<Rightarrow> pid_t \<times> u64 \<Rightarrow> page option"
  assumes put: "wok w \<Longrightarrow>
      \<exists>w1 w2. sock_sendmsg N (header_bytes \<lparr>command = PROTOCOL_PUT, ph_pid = p, ph_address = a\<rparr>) w = (16, w1) \<and>
        sock_sendmsg N (page_bytes b) w1 = (4096, w2) \<and> wok w2 \<and> tbl w2 = (tbl w)((p, a) \<mapsto> b)"
    and get: "wok w \<Longrightarrow>
      \<exists>w1 w2. sock_sendmsg N (header_bytes \<lparr>command = PROTOCOL_GET, ph_pid = p, ph_address = a\<rparr>) w = (16, w1) \<and>
        sock_recvmsg N 4096 w1 =
          (4096, page_bytes (case tbl w (p, a) of Some c \<Rightarrow> c | None \<Rightarrow> zero_page), w2) \<and>
        wok w2 \<and> tbl w2 = tbl w"
    and rm: "wok w \<Longrightarrow>
      \<exists>w1. sock_sendmsg N (header_bytes \<lparr>command = PROTOCOL_RM, ph_pid = p, ph_address = a\<rparr>) w = (16, w1) \<and>
        wok w1 \<and> tbl w1 = (tbl w)((p, a) := None)"

sublocale page_server \<subseteq> nst: storage "network_ops E N" "\<lambda>n. sock n = SockOpen \<and> wok (world n)"
  "\<lambda>_. True" "\<lambda>n. tbl (world n)"
proof unfold_locales
  fix n :: "'w net" and p a b
  assume n: "sock n = SockOpen \<and> wok (world n)"
  obtain w1 w2 where "sock_sendmsg N (header_bytes \<lparr>command = PROTOCOL_PUT, ph_pid = p, ph_address = a\<rparr>) (world n) = (16, w1)"
    "sock_sendmsg N (page_bytes b) w1 = (4096, w2)" "wok w2" "tbl w2 = (tbl (world n))((p, a) \<mapsto> b)"
    using put [of "world n" p a b] n by blast
  then show "\<exists>k n'. so_save (network_ops E N) p a b n = Inr (k, n') \<and> 0 \<le> k \<and>
      (sock n' = SockOpen \<and> wok (world n')) \<and> tbl (world n') = (tbl (world n))((p, a) \<mapsto> b)"
    using n by (simp add: network_ops_def network_save_def socket_send_def header_size_def)
  obtain w1 w2 where "sock_sendmsg N (header_bytes \<lparr>command = PROTOCOL_GET, ph_pid = p, ph_address = a\<rparr>) (world n) = (16, w1)"
    "sock_recvmsg N 4096 w1 =
       (4096, page_bytes (case tbl (world n) (p, a) of Some c \<Rightarrow> c | None \<Rightarrow> zero_page), w2)"
    "wok w2" "tbl w2 = tbl (world n)"
    using get [of "world n" p a] n by blast
  then show "\<exists>k n'. so_load (network_ops E N) p a b n =
        Inr (k, case tbl (world n) (p, a) of Some c \<Rightarrow> c | None \<Rightarrow> zero_page, n') \<and> 0 \<le> k \<and>
      (sock n' = SockOpen \<and> wok (world n')) \<and> tbl (world n') = tbl (world n)"
    using n by (simp add: network_ops_def network_load_def socket_send_def socket_recv_def header_size_def)
  obtain w1 where "sock_sendmsg N (header_bytes \<lparr>command = PROTOCOL_RM, ph_pid = p, ph_address = a\<rparr>) (world n) = (16, w1)"
    "wok w1" "tbl w1 = (tbl (world n))((p, a) := None)"
    using rm [of "world n" p a] n by blast
  then show "\<exists>n'. so_remove (network_ops E N) p a n = Inr n' \<and>
      (sock n' = SockOpen \<and> wok (world n')) \<and> tbl (world n') = (tbl (world n))((p, a) := None)"
    using n by (simp add: network_ops_def network_remove_def socket_send_def)
  show "\<exists>n'. so_release (network_ops E N) n = Inr n'"
    using n by (simp add: network_ops_def network_release_def socket_send_def socket_release_def split: prod.split)
qed

section \<open>A connection that loses nothing, to \<open>server.py\<close>\<close>

record srv =
  s_pages :: page_table
  s_in :: "u8 list"
  s_out :: "u8 list"

definition server_env :: "srv netenv" where
  "server_env = \<lparr>sock_create = (\<lambda>w. (0, w)),
     sock_connect = (\<lambda>port ip w. (0, w\<lparr>s_in := [], s_out := []\<rparr>)),
     sock_sendmsg = (\<lambda>bs w. case handle False (s_pages w) (s_in w @ bs) (s_out w) of
       (pages, inb, out, _) \<Rightarrow> (int (length bs), \<lparr>s_pages = pages, s_in = inb, s_out = out\<rparr>)),
     sock_recvmsg = (\<lambda>len w. (int (length (take len (s_out w))), take len (s_out w),
       w\<lparr>s_out := drop len (s_out w)\<rparr>)),
     sock_release = id,
     kstrtol = (\<lambda>s. case scan_digits s 0 of (n, rest) \<Rightarrow> if s \<noteq> [] \<and> rest = [] then (0, n) else (- 22, 0))\<rparr>"

definition srv_ok :: "srv \<Rightarrow> bool" where
  "srv_ok w \<longleftrightarrow> s_in w = [] \<and> s_out w = [] \<and> table_ok (s_pages w)"

interpretation srv: page_server E server_env srv_ok "\<lambda>w. table_abs (s_pages w)" for E
proof unfold_locales
  fix w :: srv and p a b
  assume ok: "srv_ok w"
  let ?h = "header_bytes \<lparr>command = PROTOCOL_PUT, ph_pid = p, ph_address = a\<rparr>"
  have "handle False (s_pages w) ?h [] = (s_pages w, ?h, [], Waiting)"
    using handle_header [of False "s_pages w" "\<lparr>command = PROTOCOL_PUT, ph_pid = p, ph_address = a\<rparr>" "[]"] by simp
  moreover have "handle False (s_pages w) (?h @ page_bytes b) [] = (put_page p a (page_bytes b) (s_pages w), [], [], Waiting)"
    by (simp add: handle_header)
  ultimately show "\<exists>w1 w2. sock_sendmsg server_env ?h w = (16, w1) \<and>
      sock_sendmsg server_env (page_bytes b) w1 = (4096, w2) \<and> srv_ok w2 \<and>
      table_abs (s_pages w2) = (table_abs (s_pages w))((p, a) \<mapsto> b)"
    using ok by (simp add: server_env_def srv_ok_def header_size_def put_page_ok put_page_abs)
  have "handle False (s_pages w) (encode (Get p a)) [] =
      (s_pages w, [], page_bytes (case table_abs (s_pages w) (p, a) of Some c \<Rightarrow> c | None \<Rightarrow> zero_page), Waiting)"
    using handle_header [of False "s_pages w" "\<lparr>command = PROTOCOL_GET, ph_pid = p, ph_address = a\<rparr>" "[]" "[]"]
      get_stored_abs [of "s_pages w" p a] ok by (simp add: srv_ok_def)
  then show "\<exists>w1 w2. sock_sendmsg server_env (header_bytes \<lparr>command = PROTOCOL_GET, ph_pid = p, ph_address = a\<rparr>) w = (16, w1) \<and>
      sock_recvmsg server_env 4096 w1 =
        (4096, page_bytes (case table_abs (s_pages w) (p, a) of Some c \<Rightarrow> c | None \<Rightarrow> zero_page), w2) \<and>
      srv_ok w2 \<and> table_abs (s_pages w2) = table_abs (s_pages w)"
    using ok by (simp add: server_env_def srv_ok_def header_size_def)
  have "handle False (s_pages w) (encode (Rm p a)) [] = (rm_page p a (s_pages w), [], [], Waiting)"
    using handle_header [of False "s_pages w" "\<lparr>command = PROTOCOL_RM, ph_pid = p, ph_address = a\<rparr>" "[]" "[]"] by simp
  then show "\<exists>w1. sock_sendmsg server_env (header_bytes \<lparr>command = PROTOCOL_RM, ph_pid = p, ph_address = a\<rparr>) w = (16, w1) \<and>
      srv_ok w1 \<and> table_abs (s_pages w1) = (table_abs (s_pages w))((p, a) := None)"
    using ok by (simp add: server_env_def srv_ok_def header_size_def rm_page_ok rm_page_abs)
qed

section \<open>Properties\<close>

text \<open>
  C28. The kernel storage is a map on addresses below \<open>2 ^ 32\<close>: with memory for its records, saving
  writes exactly the given key, loading answers the page of the key or zeroes and changes nothing,
  removing clears exactly the key; and all of them keep the list well formed.
\<close>

theorem kernel_storage_correct:
  assumes "kernel_ok S" and "low_address a" and "kernel_memory_ok E"
  shows "(\<exists>S'. kernel_save E p a b S = Inr (0, S') \<and> kernel_ok S' \<and>
      kernel_stored S' = (kernel_stored S)((p, a) \<mapsto> b)) \<and>
    kernel_load E p a b S = Inr (0, case kernel_stored S (p, a) of Some c \<Rightarrow> c | None \<Rightarrow> zero_page, S) \<and>
    (\<exists>S'. kernel_remove p a S = Inr S' \<and> kernel_ok S' \<and> kernel_stored S' = (kernel_stored S)((p, a) := None))"
  using kernel_save_spec [OF assms] kernel_load_spec [OF assms(1,2)] kernel_remove_spec [OF assms(1)] by blast

theorem kernel_storage_correct_witness:
  "\<exists>S'. kernel_save linux_ref 7 4096 (\<lambda>_. 5) (KbList []) = Inr (0, S') \<and>
     kernel_stored S' (7, 4096) = Some (\<lambda>_. 5)"
proof -
  have "kernel_ok (KbList [])" and "low_address 4096" by (simp_all add: kernel_ok_def low_address_def)
  from kernel_storage_correct [OF this linux_ref_kernel_memory] show ?thesis by force
qed

lemma kernel_save_high:
  assumes "kernel_ok S" and "\<not> low_address a" and "kernel_memory_ok E"
  shows "\<exists>l. kernel_save E p a b S = Inr (0, KbList l) \<and> find_kb p (ucast (ucast a :: u32)) l = None"
proof -
  let ?t = "ucast (ucast a :: u32) :: u64"
  from assms(1) obtain l where S: "S = KbList l" and d: "distinct (map kb_key l)"
    by (auto simp: kernel_ok_def split: kstore.splits)
  note hi = ucast_high [OF assms(2)]
  show ?thesis
  proof (cases "find_kb p ?t l")
    case None
    define x where "x = \<lparr>kb_pid = p, kb_address = a, kb_buffer = Some b\<rparr>"
    have "kernel_save E p a b S = Inr (0, KbList (l @ [x]))"
      using None assms(3) by (simp add: kernel_save_def S get_kernel_buffer_def kernel_memory_ok_def Let_def x_def)
    then show ?thesis using None hi by (auto simp: find_kb_append x_def kb_key_def)
  next
    case (Some i)
    then have i: "i < length l" "kb_key (l ! i) = (p, ?t)" by (auto dest: find_kb_Some)
    define x where "x = (l ! i)\<lparr>kb_address := a, kb_buffer := Some b\<rparr>"
    have "kernel_save E p a b S = Inr (0, KbList (l[i := x]))"
      using Some assms(3) by (simp add: kernel_save_def S get_kernel_buffer_def kernel_memory_ok_def Let_def x_def)
    moreover have "(p, ?t) \<notin> kb_key ` set (l[i := x])"
    proof
      assume "(p, ?t) \<in> kb_key ` set (l[i := x])"
      then obtain j where j: "j < length l" "kb_key (l[i := x] ! j) = (p, ?t)"
        by (auto simp: in_set_conv_nth)
      have "j \<noteq> i" using j hi i(1) by (auto simp: x_def kb_key_def)
      moreover have "map kb_key l ! j = map kb_key l ! i" using j i \<open>j \<noteq> i\<close> by simp
      ultimately show False using d i(1) j(1) nth_eq_iff_index_eq [OF d, of j i] by simp
    qed
    ultimately show ?thesis by (auto simp: find_kb_None)
  qed
qed

text \<open>
  At an address from \<open>2 ^ 32\<close> on the kernel storage loses the page at once: saving succeeds, and
  loading the same address right after it answers zeroes, because the lookup cuts the address to
  32 bits.
\<close>

theorem kernel_high_address_lost:
  assumes "kernel_ok S" and "\<not> low_address a" and "kernel_memory_ok E"
  shows "\<exists>S'. kernel_save E p a b S = Inr (0, S') \<and> kernel_load E p a old S' = Inr (0, zero_page, S')"
proof -
  from kernel_save_high [OF assms] obtain l where
    l: "kernel_save E p a b S = Inr (0, KbList l)" "find_kb p (ucast (ucast a :: u32)) l = None" by blast
  then have "kernel_load E p a old (KbList l) = Inr (0, zero_page, KbList l)"
    by (simp add: kernel_load_def get_kernel_buffer_def)
  with l show ?thesis by blast
qed

theorem kernel_high_address_lost_witness:
  "\<exists>S'. kernel_save linux_ref 7 (2 ^ 32) (\<lambda>_. 5) (KbList []) = Inr (0, S') \<and>
     kernel_load linux_ref 7 (2 ^ 32) zero_page S' = Inr (0, zero_page, S')"
proof -
  have "kernel_ok (KbList [])" and "\<not> low_address (2 ^ 32)" by (simp_all add: kernel_ok_def low_address_def)
  from kernel_high_address_lost [OF this linux_ref_kernel_memory] show ?thesis by blast
qed

text \<open>
  C20. The network storage over a connection to \<open>server.py\<close> is a map on all addresses: saving writes
  exactly the given key of the server's table, loading answers the page of the key or zeroes,
  removing clears exactly the key; every message is consumed and no reply is left over.
\<close>

theorem network_storage_correct:
  assumes "sock n = SockOpen" and "srv_ok (world n)"
  shows "(\<exists>k n'. network_save server_env p a b n = Inr (k, n') \<and> 0 \<le> k \<and> sock n' = SockOpen \<and> srv_ok (world n') \<and>
      table_abs (s_pages (world n')) = (table_abs (s_pages (world n)))((p, a) \<mapsto> b)) \<and>
    (\<exists>k n'. network_load server_env p a b n =
        Inr (k, case table_abs (s_pages (world n)) (p, a) of Some c \<Rightarrow> c | None \<Rightarrow> zero_page, n') \<and> 0 \<le> k \<and>
      sock n' = SockOpen \<and> srv_ok (world n') \<and> table_abs (s_pages (world n')) = table_abs (s_pages (world n))) \<and>
    (\<exists>n'. network_remove server_env p a n = Inr n' \<and> sock n' = SockOpen \<and> srv_ok (world n') \<and>
      table_abs (s_pages (world n')) = (table_abs (s_pages (world n)))((p, a) := None))"
proof -
  have n: "sock n = SockOpen \<and> srv_ok (world n)" using assms by blast
  show ?thesis
    using srv.nst.save [OF n TrueI, of linux_ref p a b] srv.nst.load [OF n TrueI, of linux_ref p a b]
      srv.nst.remove [OF n TrueI, of linux_ref p a]
    by (simp add: network_ops_def)
qed

definition fresh_net :: "srv net" where
  "fresh_net = \<lparr>sock = SockOpen, world = \<lparr>s_pages = Map.empty, s_in = [], s_out = []\<rparr>\<rparr>"

lemma fresh_net_ok: "sock fresh_net = SockOpen" "srv_ok (world fresh_net)"
  by (simp_all add: fresh_net_def srv_ok_def)

theorem network_storage_correct_witness:
  "\<exists>k n'. network_save server_env 7 (2 ^ 40) (\<lambda>_. 5) fresh_net = Inr (k, n') \<and>
     table_abs (s_pages (world n')) (7, 2 ^ 40) = Some (\<lambda>_. 5)"
  using network_storage_correct [OF fresh_net_ok, of 7 "2 ^ 40" "\<lambda>_. 5"] by force

text \<open>
  A short read counts as success: when fewer than 4096 bytes of a page have arrived,
  \<open>network_load\<close> answers their number, which its caller takes for success, and the rest of the
  buffer keeps the bytes of the page that was there before.
\<close>

theorem short_read_keeps_old_bytes:
  assumes "sock n = SockOpen"
    and "sock_sendmsg N (header_bytes \<lparr>command = PROTOCOL_GET, ph_pid = p, ph_address = a\<rparr>) (world n) = (16, w1)"
    and "sock_recvmsg N 4096 w1 = (int (length bs), bs, w2)" and "length bs < 4096"
  shows "\<exists>b n'. network_load N p a old n = Inr (int (length bs), b, n') \<and>
    (\<forall>i. b i = (if unat i < length bs then bs ! unat i else old i))"
  using assms by (simp add: network_load_def socket_send_def socket_recv_def header_size_def fill_page_def)

theorem short_read_keeps_old_bytes_witness:
  "\<exists>b n'. network_load (server_env\<lparr>sock_recvmsg := \<lambda>_ w. (2, [1, 2], w)\<rparr>) 7 4096 (\<lambda>_. 9) fresh_net = Inr (2, b, n') \<and>
     b 0 = 1 \<and> b 5 = 9"
proof -
  let ?N = "server_env\<lparr>sock_recvmsg := \<lambda>_ w. (2, [1, 2], w)\<rparr>"
  obtain w1 where "sock_sendmsg server_env (header_bytes \<lparr>command = PROTOCOL_GET, ph_pid = 7, ph_address = 4096\<rparr>)
      (world fresh_net) = (16, w1)"
    using srv.get [OF fresh_net_ok(2), of 7 4096] by blast
  then have "sock_sendmsg ?N (header_bytes \<lparr>command = PROTOCOL_GET, ph_pid = 7, ph_address = 4096\<rparr>)
      (world fresh_net) = (16, w1)" by simp
  from short_read_keeps_old_bytes [OF fresh_net_ok(1) this, of "[1, 2]" w1 "\<lambda>_. 9"]
  obtain b n' where r: "network_load ?N 7 4096 (\<lambda>_. 9) fresh_net = Inr (2, b, n')"
    "\<And>i. b i = (if unat i < 2 then [1, 2] ! unat i else 9)"
    by auto
  from r(2) [of 0] r(2) [of 5] have "b 0 = 1" "b 5 = 9" by simp_all
  with r(1) show ?thesis by blast
qed

lemma length_decimal: "n < 1000 \<Longrightarrow> length (decimal n) \<le> 3"
  by (subst decimal.simps, subst decimal.simps, subst decimal.simps) auto

lemma dotted_chars:
  shows "CHR '':'' \<notin> set (dotted a b c d)" and "length (dotted a b c d) \<le> 15"
proof -
  have dig: "\<forall>x\<in>set (decimal n). is_digit x" for n
    by (induction n rule: decimal.induct) (subst decimal.simps, auto simp: digit_char)
  have "CHR '':'' \<notin> set (decimal n)" for n using dig [of n] by (auto simp: is_digit_def)
  then show "CHR '':'' \<notin> set (dotted a b c d)" by (simp add: dotted_def)
  have "length (decimal (unat x)) \<le> 3" for x :: u8
    using unsigned_less [of x, where 'a = nat] by (intro length_decimal) simp
  from this [of a] this [of b] this [of c] this [of d] show "length (dotted a b c d) \<le> 15"
    by (simp add: dotted_def)
qed

text \<open>
  \<open>network_init\<close> on a parameter of the form "a.b.c.d:port" connects the socket to exactly this
  address and port, in network byte order.
\<close>

theorem network_init_connects:
  assumes "kmalloc_ok E AllocAddressDup" and "kstrtol N port = (0, k)"
    and "sock_create N (world n) = (0, w1)"
    and "sock_connect N (htons (word_of_int k)) (un_le [a, b, c, d]) w1 = (error, w2)"
  shows "network_init E N (dotted a b c d @ '':'' @ port) n =
    Inr (error, if error = 0 then n\<lparr>sock := SockOpen, world := w2\<rparr>
                else n\<lparr>sock := SockReleased, world := sock_release N w2\<rparr>)"
proof -
  have t: "takeWhile (\<lambda>x. x \<noteq> CHR '':'') (dotted a b c d @ CHR '':'' # port) = dotted a b c d"
    and r: "dropWhile (\<lambda>x. x \<noteq> CHR '':'') (dotted a b c d @ CHR '':'' # port) = CHR '':'' # port"
    using dotted_chars(1) [of a b c d] by (auto simp: takeWhile_append dropWhile_append)
  have "take 15 (dotted a b c d) = dotted a b c d" using dotted_chars(2) by simp
  then have "parse_address_param E N (dotted a b c d @ '':'' @ port) 16 = (0, dotted a b c d, k)"
    using assms(1,2) r by (simp add: parse_address_param_def t Let_def)
  then show ?thesis
    using assms(3,4) by (simp add: network_init_def socket_init_def inet_addr_shape)
qed

theorem network_init_connects_witness:
  "\<exists>n'. network_init linux_ref server_env ''127.0.0.1:12345''
     \<lparr>sock = SockNull, world = \<lparr>s_pages = Map.empty, s_in = [], s_out = []\<rparr>\<rparr> = Inr (0, n') \<and> sock n' = SockOpen"
proof -
  have p: "''127.0.0.1:12345'' = dotted 127 0 0 1 @ '':'' @ ''12345''"
    by code_simp
  have "kstrtol server_env ''12345'' = (0, 12345)"
    by (simp add: server_env_def is_digit_def)
  with network_init_connects [of linux_ref server_env "''12345''" 12345
      "\<lparr>sock = SockNull, world = \<lparr>s_pages = Map.empty, s_in = [], s_out = []\<rparr>\<rparr>" _ 127 0 0 1]
  show ?thesis unfolding p by (simp add: server_env_def linux_ref_def)
qed

end
