(* ===== verification/PageInv.thy ===== *)
theory PageInv
  imports GenericMalloc StorageSpec
begin

text \<open>
  The invariant that ties page tables, buffers, the index of stored pages and the storage
  together, and what a user process sees of a page.  Processes are identified by their pid;
  \<open>mm_of\<close> gives the address space of each, and no two share one.  The lemmas are proved inside
  the storage contract, so they hold for both storages.
\<close>

section \<open>Definitions\<close>

text \<open>One of the two places of a buffer: what is recorded as mapped is mapped.\<close>

definition slot_ok ::
  "(pid_t \<Rightarrow> mmid) \<Rightarrow> (u64 \<Rightarrow> bool) \<Rightarrow> vmem \<Rightarrow> ptab \<Rightarrow> pid_t \<Rightarrow> vid option \<Rightarrow> u64 \<Rightarrow> frame option \<Rightarrow> bool" where
  "slot_ok mm_of valid V pt p vma start f \<longleftrightarrow> (\<forall>v. vma = Some v \<longrightarrow>
     valid start \<and> f \<noteq> None \<and> pt (mm_of p, start) = f \<and>
     (\<exists>a. vmas V v = Some a \<and> vm_mm a = mm_of p \<and> v \<in> set (mmap V (mm_of p))))"

definition slots_ok ::
  "(pid_t \<Rightarrow> mmid) \<Rightarrow> (u64 \<Rightarrow> bool) \<Rightarrow> vmem \<Rightarrow> ptab \<Rightarrow> mapped_buffer \<Rightarrow> bool" where
  "slots_ok mm_of valid V pt b \<longleftrightarrow>
     slot_ok mm_of valid V pt (b_pid b) (b_vma b) (b_start b) (b_buffer b) \<and>
     slot_ok mm_of valid V pt (b_pid b) (b_cache_vma b) (b_cache_start b) (b_cache b)"

text \<open>The place where a buffer records that a frame is mapped.\<close>

definition maps_at :: "(pid_t \<Rightarrow> mmid) \<Rightarrow> mapped_buffer \<Rightarrow> frame \<Rightarrow> mmid \<times> u64 \<Rightarrow> bool" where
  "maps_at mm_of b f k \<longleftrightarrow>
     (b_buffer b = Some f \<and> b_vma b \<noteq> None \<and> k = (mm_of (b_pid b), b_start b)) \<or>
     (b_cache b = Some f \<and> b_cache_vma b \<noteq> None \<and> k = (mm_of (b_pid b), b_cache_start b))"

text \<open>Frames of the module are mapped only where their buffer says so.\<close>

definition mappings_ok :: "(pid_t \<Rightarrow> mmid) \<Rightarrow> ptab \<Rightarrow> pmem \<Rightarrow> mapped_buffer list \<Rightarrow> bool" where
  "mappings_ok mm_of pt M bufs \<longleftrightarrow> (\<forall>k f. pt k = Some f \<longrightarrow> f < next_frame M \<and>
     (\<forall>p b. buffer_of p bufs = Some b \<longrightarrow> f \<in> set (frames_of b) \<longrightarrow> maps_at mm_of b f k))"

text \<open>The index of stored pages says exactly what is in the storage.\<close>

definition index_ok ::
  "('s \<Rightarrow> bool) \<Rightarrow> (u64 \<Rightarrow> bool) \<Rightarrow> ('s \<Rightarrow> pid_t \<times> u64 \<Rightarrow> page option) \<Rightarrow> 's \<Rightarrow> stored_page list \<Rightarrow> bool" where
  "index_ok ok valid stored s pages \<longleftrightarrow> ok s \<and> pages_ok pages \<and>
     dom (stored s) = page_keys pages \<and> (\<forall>k\<in>page_keys pages. valid (snd k))"

text \<open>
  What is left of it when a save may be refused halfway: what the index names is in the storage,
  and the storage may hold more.
\<close>

definition index_safe ::
  "('s \<Rightarrow> bool) \<Rightarrow> (u64 \<Rightarrow> bool) \<Rightarrow> ('s \<Rightarrow> pid_t \<times> u64 \<Rightarrow> page option) \<Rightarrow> 's \<Rightarrow> stored_page list \<Rightarrow> bool" where
  "index_safe ok valid stored s pages \<longleftrightarrow> ok s \<and> pages_ok pages \<and>
     page_keys pages \<subseteq> dom (stored s) \<and> (\<forall>k\<in>page_keys pages. valid (snd k))"

definition index_exact :: "('s \<Rightarrow> pid_t \<times> u64 \<Rightarrow> page option) \<Rightarrow> 's gstate \<Rightarrow> bool" where
  "index_exact stored st \<longleftrightarrow> dom (stored (g_store st)) = page_keys (g_pages st)"

definition page_safe ::
  "('s \<Rightarrow> bool) \<Rightarrow> (u64 \<Rightarrow> bool) \<Rightarrow> ('s \<Rightarrow> pid_t \<times> u64 \<Rightarrow> page option) \<Rightarrow> (pid_t \<Rightarrow> mmid) \<Rightarrow> 's gstate \<Rightarrow> bool" where
  "page_safe ok valid stored mm_of st \<longleftrightarrow>
     buffers_ok (g_mem st) (g_bufs st) \<and>
     (\<forall>p b. buffer_of p (g_bufs st) = Some b \<longrightarrow> slots_ok mm_of valid (g_mm st) (g_pt st) b) \<and>
     mappings_ok mm_of (g_pt st) (g_mem st) (g_bufs st) \<and>
     index_safe ok valid stored (g_store st) (g_pages st)"

definition page_inv ::
  "('s \<Rightarrow> bool) \<Rightarrow> (u64 \<Rightarrow> bool) \<Rightarrow> ('s \<Rightarrow> pid_t \<times> u64 \<Rightarrow> page option) \<Rightarrow> (pid_t \<Rightarrow> mmid) \<Rightarrow> 's gstate \<Rightarrow> bool" where
  "page_inv ok valid stored mm_of st \<longleftrightarrow>
     buffers_ok (g_mem st) (g_bufs st) \<and>
     (\<forall>p b. buffer_of p (g_bufs st) = Some b \<longrightarrow> slots_ok mm_of valid (g_mm st) (g_pt st) b) \<and>
     mappings_ok mm_of (g_pt st) (g_mem st) (g_bufs st) \<and>
     index_ok ok valid stored (g_store st) (g_pages st)"

text \<open>
  What process \<open>p\<close> sees at page address \<open>a\<close>: the mapped page, or what a fault would bring there,
  the stored page or zeroes.
\<close>

definition page_view ::
  "('s \<Rightarrow> pid_t \<times> u64 \<Rightarrow> page option) \<Rightarrow> (pid_t \<Rightarrow> mmid) \<Rightarrow> 's gstate \<Rightarrow> pid_t \<Rightarrow> u64 \<Rightarrow> page" where
  "page_view stored mm_of st p a =
     (case g_pt st (mm_of p, a) of
        Some f \<Rightarrow> content (g_mem st) f
      | None \<Rightarrow> if is_stored_page p a (g_pages st)
                then (case stored (g_store st) (p, a) of Some b \<Rightarrow> b | None \<Rightarrow> zero_page)
                else zero_page)"

text \<open>
  Two assumptions that have nothing to do with each other.  The kernel has memory, exports its
  symbols, can map pages and behaves as documented.  And the fresh memory of an area does not happen
  to hold a 1 where the field \<open>free\<close> of its list head lies (\<open>head_clean\<close>): that is luck, not a promise of
  \<open>kmalloc\<close>.  The code never sets the field and reads it (\<open>uninitialised_head_bad_free\<close>).
\<close>

definition env_ok :: "kenv \<Rightarrow> bool" where
  "env_ok E \<longleftrightarrow> (\<forall>x. kmalloc_ok E x) \<and> (\<forall>x. kallsyms_ok E x) \<and> (\<forall>f. kmap_ok E f) \<and> head_clean E \<and>
     paging_ok E \<and> insert_vm_ok E \<and> munmap_ok E"

text \<open>
  The least the fault handler needs of it to survive: paging works as documented, and memory does
  not run out between the two pages of a new buffer.
\<close>

definition survivable :: "kenv \<Rightarrow> bool" where
  "survivable E \<longleftrightarrow> paging_ok E \<and> kmalloc_ok E AllocCachePage"

lemma env_ok_survivable: "env_ok E \<Longrightarrow> survivable E"
  by (simp add: env_ok_def survivable_def)

text \<open>The page table has room for every page that is not mapped.\<close>

definition insert_total :: "kenv \<Rightarrow> bool" where
  "insert_total E \<longleftrightarrow> (\<forall>pt m a f. pt (m, a) = None \<longrightarrow> vm_insert_page E pt m a f \<noteq> None)"

lemma linux_ref_insert_total: "insert_total linux_ref"
  by (simp add: insert_total_def linux_ref_def)

lemma env_ok_alloc: "env_ok E \<Longrightarrow> alloc_ok E"
  by (simp add: env_ok_def alloc_ok_def)

lemma linux_ref_env_ok: "env_ok linux_ref"
  using linux_ref_paging_ok linux_ref_insert_vm_ok linux_ref_munmap_ok
  by (simp add: env_ok_def) (simp add: linux_ref_def)

section \<open>Single facts of the invariant\<close>

lemma index_safe_save:
  assumes "index_safe ok valid stored s pages" and "ok s'" and "stored s' = (stored s)((p, a) \<mapsto> b)" and "valid a"
  shows "index_safe ok valid stored s' (if is_stored_page p a pages then pages else ins_stored_page p a pages)"
  using assms spi.enter_once [of pages p a] by (auto simp: index_safe_def)

lemma index_safe_unlisted:
  assumes "index_safe ok valid stored s pages" and "ok s'"
    and "stored s' = (stored s)((p, a) \<mapsto> b) \<or> stored s' = stored s"
  shows "index_safe ok valid stored s' pages"
  using assms by (auto simp: index_safe_def)

lemma index_safe_remove:
  assumes "index_safe ok valid stored s pages" and "ok s'"
    and "stored s' = (stored s)((p, a) := None) \<or> stored s' = stored s"
  shows "index_safe ok valid stored s' (remove_stored_page p a pages)"
proof -
  have "dom (stored s) - {(p, a)} \<subseteq> dom (stored s')" using assms(3) by auto
  then have "page_keys pages - {(p, a)} \<subseteq> dom (stored s')" using assms(1) unfolding index_safe_def by blast
  with assms(1,2) show ?thesis by (simp add: index_safe_def spi.keys_del spi.inv_del)
qed

lemma index_ok_remove:
  assumes "index_ok ok valid stored s pages" and "ok s'" and "stored s' = (stored s)((p, a) := None)"
  shows "index_ok ok valid stored s' (remove_stored_page p a pages)"
  using assms by (auto simp: index_ok_def spi.keys_del spi.inv_del)

lemma maps_at_swap [simp]: "maps_at mm_of (swap_buffer_cache b) f k = maps_at mm_of b f k"
  by (auto simp: maps_at_def)

lemma slots_ok_swap [simp]: "slots_ok mm_of valid V pt (swap_buffer_cache b) = slots_ok mm_of valid V pt b"
  by (auto simp: slots_ok_def)

lemma mappings_okD:
  assumes "mappings_ok mm_of pt M bufs" and "pt k = Some f"
  shows "f < next_frame M" and "buffer_of p bufs = Some b \<Longrightarrow> f \<in> set (frames_of b) \<Longrightarrow> maps_at mm_of b f k"
  using assms unfolding mappings_ok_def by blast+

lemma mappings_okI:
  assumes "\<And>k f. pt k = Some f \<Longrightarrow> f < next_frame M"
    and "\<And>k f p b. pt k = Some f \<Longrightarrow> buffer_of p bufs = Some b \<Longrightarrow> f \<in> set (frames_of b) \<Longrightarrow> maps_at mm_of b f k"
  shows "mappings_ok mm_of pt M bufs"
  using assms unfolding mappings_ok_def by blast

lemma page_safeD:
  assumes "page_safe ok valid stored mm_of st"
  shows "buffers_ok (g_mem st) (g_bufs st)"
    and "buffer_of p (g_bufs st) = Some b \<Longrightarrow> slots_ok mm_of valid (g_mm st) (g_pt st) b"
    and "mappings_ok mm_of (g_pt st) (g_mem st) (g_bufs st)"
    and "index_safe ok valid stored (g_store st) (g_pages st)"
  using assms by (simp_all add: page_safe_def)

lemma page_inv_safe:
  "page_inv ok valid stored mm_of st \<longleftrightarrow> page_safe ok valid stored mm_of st \<and> index_exact stored st"
  by (auto simp: page_inv_def page_safe_def index_ok_def index_safe_def index_exact_def)

lemma page_invD:
  assumes "page_inv ok valid stored mm_of st"
  shows "buffers_ok (g_mem st) (g_bufs st)"
    and "buffer_of p (g_bufs st) = Some b \<Longrightarrow> slots_ok mm_of valid (g_mm st) (g_pt st) b"
    and "mappings_ok mm_of (g_pt st) (g_mem st) (g_bufs st)"
    and "index_ok ok valid stored (g_store st) (g_pages st)"
  using assms by (simp_all add: page_inv_def)

lemma page_safe_buffer:
  assumes "page_safe ok valid stored mm_of st" and "buffer_of p (g_bufs st) = Some b"
  obtains f g where "b_buffer b = Some f" "b_cache b = Some g" "f \<noteq> g" "owned (g_mem st) f" "owned (g_mem st) g"
    "b_pid b = p" "slots_ok mm_of valid (g_mm st) (g_pt st) b"
  using assms buffers_ok_buffer [of "g_mem st" "g_bufs st" p b] by (auto simp: page_safe_def)

lemma page_inv_buffer:
  assumes "page_inv ok valid stored mm_of st" and "buffer_of p (g_bufs st) = Some b"
  obtains f g where "b_buffer b = Some f" "b_cache b = Some g" "f \<noteq> g" "owned (g_mem st) f" "owned (g_mem st) g"
    "b_pid b = p" "slots_ok mm_of valid (g_mm st) (g_pt st) b"
  using assms unfolding page_inv_safe by (elim conjE page_safe_buffer)

text \<open>Exchanging the two places of a buffer.\<close>

lemma swap_inv:
  assumes inv: "page_safe ok valid stored mm_of st" and i: "get_buffer p (g_bufs st) = Some i"
  shows "page_safe ok valid stored mm_of (swap_at i st)"
    and "g_bufs (swap_at i st) = put_buffer (swap_buffer_cache (g_bufs st ! i)) (g_bufs st)"
    and "page_view stored mm_of (swap_at i st) = page_view stored mm_of st"
proof -
  define b where "b = g_bufs st ! i"
  have b: "buffer_of p (g_bufs st) = Some b"
    using get_buffer_buffer_of(1) [OF i] by (simp add: b_def)
  note pid = bt.lookup_key [OF b]
  show put: "g_bufs (swap_at i st) = put_buffer (swap_buffer_cache (g_bufs st ! i)) (g_bufs st)"
    using put_buffer_update [OF i, of "swap_buffer_cache b"] pid by (simp add: swap_at_def b_def)
  show "page_view stored mm_of (swap_at i st) = page_view stored mm_of st"
    by (intro ext) (simp add: page_view_def swap_at_def split: option.split)
  obtain f g where fg: "b_buffer b = Some f" "b_cache b = Some g" "f \<noteq> g"
    and sl: "slots_ok mm_of valid (g_mm st) (g_pt st) b"
    using page_safe_buffer [OF inv b] by metis
  have ok: "buffers_ok (g_mem st) (put_buffer (swap_buffer_cache b) (g_bufs st))"
    using inv b pid fg by (intro buffers_ok_put [of _ _ _ b g f]) (auto simp: page_safe_def frames_swap)
  note D = page_safeD [OF inv]
  have sl': "slots_ok mm_of valid (g_mm st) (g_pt st) c" if "buffer_of q (put_buffer (swap_buffer_cache b) (g_bufs st)) = Some c" for q c
    using that D(2) sl by (auto simp: bt.lookup_put split: if_splits)
  have m': "mappings_ok mm_of (g_pt st) (g_mem st) (put_buffer (swap_buffer_cache b) (g_bufs st))"
  proof (rule mappings_okI)
    fix k x q c
    assume k: "g_pt st k = Some x"
    then show "x < next_frame (g_mem st)" by (rule mappings_okD(1) [OF D(3)])
    assume "buffer_of q (put_buffer (swap_buffer_cache b) (g_bufs st)) = Some c" "x \<in> set (frames_of c)"
    then show "maps_at mm_of c x k"
      using mappings_okD(2) [OF D(3) k] b pid by (auto simp: bt.lookup_put frames_swap split: if_splits)
  qed
  show "page_safe ok valid stored mm_of (swap_at i st)"
    using ok sl' m' D(4) put [folded b_def] by (simp add: page_safe_def) (simp add: swap_at_def)
qed


section \<open>Unmapping one place\<close>

lemma page_view_eqI:
  assumes "\<And>f. g_pt st (mm_of p, a) = Some f \<Longrightarrow>
      (g_pt st' (mm_of p, a) = Some f \<and> content (g_mem st') f = content (g_mem st) f) \<or>
      (g_pt st' (mm_of p, a) = None \<and> is_stored_page p a (g_pages st') \<and>
       stored (g_store st') (p, a) = Some (content (g_mem st) f))"
    and "g_pt st (mm_of p, a) = None \<Longrightarrow>
      (g_pt st' (mm_of p, a) = None \<and> is_stored_page p a (g_pages st') = is_stored_page p a (g_pages st) \<and>
       stored (g_store st') (p, a) = stored (g_store st) (p, a)) \<or>
      (\<exists>f. g_pt st' (mm_of p, a) = Some f \<and> content (g_mem st') f =
         (if is_stored_page p a (g_pages st)
          then (case stored (g_store st) (p, a) of Some b \<Rightarrow> b | None \<Rightarrow> zero_page) else zero_page))"
  shows "page_view stored mm_of st' p a = page_view stored mm_of st p a"
  using assms by (cases "g_pt st (mm_of p, a)") (fastforce simp: page_view_def)+

lemma unmap_facts:
  assumes inv: "page_safe ok valid stored mm_of st" and inj: "inj mm_of"
    and b: "buffer_of p (g_bufs st) = Some b" and v: "b_vma b = Some v" and pid: "b_pid b = p"
    and fg: "b_buffer b = Some f" "b_cache b = Some g" "f \<noteq> g"
    and k: "k = (mm_of p, b_start b)" and b': "b' = b\<lparr>b_vma := None\<rparr>"
  shows "buffers_ok (g_mem st) (put_buffer b' (g_bufs st))"
    and "buffer_of q (put_buffer b' (g_bufs st)) = Some c \<Longrightarrow>
      slots_ok mm_of valid (g_mm st) ((g_pt st)(k := None)) c"
    and "mappings_ok mm_of ((g_pt st)(k := None)) (g_mem st) (put_buffer b' (g_bufs st))"
proof -
  have fr: "frames_of b' = [f, g]" "frames_of b = [f, g]" by (simp_all add: b' frames_of_Some fg)
  show "buffers_ok (g_mem st) (put_buffer b' (g_bufs st))"
    using inv b pid fg by (intro buffers_ok_put [of _ _ _ b f g]) (simp_all add: b' page_safe_def frames_of_Some fr)
  have bs: "slots_ok mm_of valid (g_mm st) (g_pt st) b" using inv b by (auto simp: page_safe_def)
  have other: "slots_ok mm_of valid (g_mm st) ((g_pt st)(k := None)) d"
    if "buffer_of r (g_bufs st) = Some d" "r \<noteq> p" for r d
  proof -
    have "mm_of (b_pid d) \<noteq> mm_of p" using that bt.lookup_key [OF that(1)] inj by (auto dest: injD)
    with that inv show ?thesis by (auto simp: page_safe_def slots_ok_def slot_ok_def k)
  qed
  have own: "slots_ok mm_of valid (g_mm st) ((g_pt st)(k := None)) b'"
    using bs v pid fg by (auto simp: slots_ok_def slot_ok_def k b')
  show "slots_ok mm_of valid (g_mm st) ((g_pt st)(k := None)) c"
    if "buffer_of q (put_buffer b' (g_bufs st)) = Some c"
    using that other [of q c] own pid by (auto simp: bt.lookup_put b' split: if_splits)
  show "mappings_ok mm_of ((g_pt st)(k := None)) (g_mem st) (put_buffer b' (g_bufs st))"
  proof (rule mappings_okI)
    fix j x r c
    assume x: "((g_pt st)(k := None)) j = Some x"
    then have j: "g_pt st j = Some x" "j \<noteq> k" by (auto split: if_splits)
    note m = mappings_okD [OF page_safeD(3) [OF inv] j(1)]
    show "x < next_frame (g_mem st)" by (rule m(1))
    assume c: "buffer_of r (put_buffer b' (g_bufs st)) = Some c" "x \<in> set (frames_of c)"
    show "maps_at mm_of c x j"
    proof (cases "r = p")
      case True
      then have cb: "c = b'" using c pid by (simp add: bt.lookup_put b')
      with c fr have "x \<in> set (frames_of b)" by simp
      with m(2) b have "maps_at mm_of b x j" by blast
      with j(2) pid show ?thesis by (auto simp: maps_at_def cb b' k)
    next
      case False
      with c pid have "buffer_of r (g_bufs st) = Some c" by (simp add: bt.lookup_put b')
      with m(2) c(2) show ?thesis by blast
    qed
  qed
qed

text \<open>
  Saving a page.  A save that is refused, by the storage, for want of memory or because the page
  cannot be mapped into the kernel, says so and loses nothing: the page stays mapped.
\<close>

context page_store
begin

abbreviation "psafe \<equiv> page_safe ok valid stored"

abbreviation "pview \<equiv> page_view stored"

abbreviation "iexact \<equiv> index_exact stored"

lemma copy_page_mapped:
  assumes safe: "psafe mm_of st" and P: "paging_ok E" and val: "valid a"
    and v: "vmas (g_mm st) v = Some vma" "g_pt st (vm_mm vma, a) = Some f"
  shows "\<exists>e s pages. copy_page_from_user E ops p a (Some v) st = Inr (e, st\<lparr>g_store := s, g_pages := pages\<rparr>) \<and>
    e \<le> 0 \<and> index_safe ok valid stored s pages \<and>
    (\<forall>k. k \<noteq> (p, a) \<longrightarrow> stored s k = stored (g_store st) k \<and> (k \<in> page_keys pages \<longleftrightarrow> k \<in> page_keys (g_pages st))) \<and>
    (e = 0 \<longrightarrow> (p, a) \<in> page_keys pages \<and> stored s (p, a) = Some (content (g_mem st) f)) \<and>
    (\<not> fails \<and> env_ok E \<longrightarrow> e = 0 \<and> (iexact st \<longrightarrow> iexact (st\<lparr>g_store := s, g_pages := pages\<rparr>)))"
proof -
  note ix = page_safeD(4) [OF safe]
  have ok: "ok (g_store st)" and po: "pages_ok (g_pages st)" using ix by (simp_all add: index_safe_def)
  have g: "get_user_pages E (g_pt st) (vm_mm vma) a = Some f"
    using P v by (simp add: paging_ok_def)
  let ?pg = "content (g_mem st) f" and ?ins = "ins_stored_page p a (g_pages st)"
  obtain n s where s: "so_save ops p a ?pg (g_store st) = Inr (n, s)" "ok s" "n < 0 \<longrightarrow> fails"
      "stored s = (stored (g_store st))((p, a) \<mapsto> ?pg) \<or> n < 0 \<and> stored s = stored (g_store st)"
    using save_any [OF ok val, of p ?pg] by blast
  have same: "st\<lparr>g_store := s\<rparr> = st\<lparr>g_store := s, g_pages := g_pages st\<rparr>" by simp
  note un = index_safe_unlisted [OF ix s(2), of p a ?pg]
  have other: "stored s k = stored (g_store st) k" if "k \<noteq> (p, a)" for k
    using s(4) that by (metis fun_upd_other)
  consider (nomap) "\<not> kmap_ok E f" | (refused) "kmap_ok E f" "n < 0" | (old) "kmap_ok E f" "0 \<le> n" "is_stored_page p a (g_pages st)"
    | (nomem) "kmap_ok E f" "0 \<le> n" "\<not> is_stored_page p a (g_pages st)" "\<not> kmalloc_ok E (AllocStoredPage p a)"
    | (new) "kmap_ok E f" "0 \<le> n" "\<not> is_stored_page p a (g_pages st)" "kmalloc_ok E (AllocStoredPage p a)" by linarith
  then show ?thesis
  proof cases
    case nomap
    then have "copy_page_from_user E ops p a (Some v) st = Inr (- ENOMEM, st\<lparr>g_store := g_store st, g_pages := g_pages st\<rparr>)"
      using g v by (simp add: copy_page_from_user_def)
    moreover have "\<not> env_ok E" using nomap by (auto simp: env_ok_def)
    ultimately show ?thesis using ix
      by (intro exI [of _ "- ENOMEM"] exI [of _ "g_store st"] exI [of _ "g_pages st"]) (simp add: ENOMEM_def)
  next
    case refused
    then have "copy_page_from_user E ops p a (Some v) st = Inr (n, st\<lparr>g_store := s, g_pages := g_pages st\<rparr>)"
      using g v s by (simp add: copy_page_from_user_def Let_def)
    then show ?thesis using un s(3,4) refused other
      by (intro exI [of _ n] exI [of _ s] exI [of _ "g_pages st"]) auto
  next
    case old
    then have "copy_page_from_user E ops p a (Some v) st = Inr (0, st\<lparr>g_store := s, g_pages := g_pages st\<rparr>)"
      using g v s by (simp add: copy_page_from_user_def Let_def)
    moreover have "stored s = (stored (g_store st))((p, a) \<mapsto> ?pg)" using s(4) old by auto
    ultimately show ?thesis using un old other
      by (intro exI [of _ "0 :: int"] exI [of _ s] exI [of _ "g_pages st"])
        (auto simp: index_exact_def spi.mem_keys)
  next
    case nomem
    then have "copy_page_from_user E ops p a (Some v) st = Inr (- ENOMEM, st\<lparr>g_store := s, g_pages := g_pages st\<rparr>)"
      using g v s by (simp add: copy_page_from_user_def Let_def add_stored_page_def)
    moreover have "\<not> env_ok E" using nomem by (auto simp: env_ok_def)
    moreover have "stored s = (stored (g_store st))((p, a) \<mapsto> ?pg)" using s(4) nomem by auto
    ultimately show ?thesis using un other
      by (intro exI [of _ "- ENOMEM"] exI [of _ s] exI [of _ "g_pages st"]) (simp add: ENOMEM_def)
  next
    case new
    then have "copy_page_from_user E ops p a (Some v) st = Inr (0, st\<lparr>g_store := s, g_pages := ?ins\<rparr>)"
      using g v s by (simp add: copy_page_from_user_def Let_def add_stored_page_ok)
    moreover have up: "stored s = (stored (g_store st))((p, a) \<mapsto> ?pg)" using s(4) new by auto
    moreover have "index_safe ok valid stored s ?ins"
      using index_safe_save [OF ix s(2) up val] new by simp
    moreover have "page_keys ?ins = insert (p, a) (page_keys (g_pages st))" by (rule spi.keys_ins)
    ultimately show ?thesis using other
      by (intro exI [of _ "0 :: int"] exI [of _ s] exI [of _ ?ins]) (auto simp: index_exact_def)
  qed
qed

text \<open>
  Unmapping a mapped place: the page goes to the storage, the mapping goes away, and no process
  sees a difference.  When it is refused the page stays where it is.
\<close>

lemma unmap_buffer_mapped:
  assumes safe: "psafe mm_of st" and inj: "inj mm_of" and P: "survivable E"
    and i: "get_buffer p (g_bufs st) = Some i" and v: "b_vma (g_bufs st ! i) = Some v"
  shows "\<exists>e st'. unmap_buffer E ops i st = Inr (e, st') \<and> e \<le> 0 \<and> psafe mm_of st' \<and>
    g_bufs st' = (if e = 0 then put_buffer ((g_bufs st ! i)\<lparr>b_vma := None\<rparr>) (g_bufs st) else g_bufs st) \<and>
    g_mm st' = g_mm st \<and> g_areas st' = g_areas st \<and> g_mem st' = g_mem st \<and>
    (\<forall>k. g_pt st k = None \<longrightarrow> g_pt st' k = None) \<and> pview mm_of st' = pview mm_of st \<and>
    (\<not> fails \<and> env_ok E \<longrightarrow> e = 0 \<and> (iexact st \<longrightarrow> iexact st'))"
proof -
  have paging: "paging_ok E" using P by (simp add: survivable_def)
  define b where "b = g_bufs st ! i"
  have b: "buffer_of p (g_bufs st) = Some b"
    using get_buffer_buffer_of(1) [OF i] by (simp add: b_def)
  obtain f g where fg: "b_buffer b = Some f" "b_cache b = Some g" "f \<noteq> g" and pid: "b_pid b = p"
    and sl: "slots_ok mm_of valid (g_mm st) (g_pt st) b"
    using page_safe_buffer [OF safe b] by metis
  have vb: "b_vma b = Some v" using v by (simp add: b_def)
  with sl fg pid obtain vma where val: "valid (b_start b)" and pt: "g_pt st (mm_of p, b_start b) = Some f"
    and vma: "vmas (g_mm st) v = Some vma" "vm_mm vma = mm_of p" "v \<in> set (mmap (g_mm st) (mm_of p))"
    by (auto simp: slots_ok_def slot_ok_def)
  define k where "k = (mm_of p, b_start b)"
  have ptv: "g_pt st (vm_mm vma, b_start b) = Some f" using pt vma(2) by simp
  obtain e s pages where
    c: "copy_page_from_user E ops p (b_start b) (Some v) st = Inr (e, st\<lparr>g_store := s, g_pages := pages\<rparr>)" "e \<le> 0"
      "index_safe ok valid stored s pages"
    and other: "\<And>j. j \<noteq> (p, b_start b) \<Longrightarrow> stored s j = stored (g_store st) j \<and> (j \<in> page_keys pages \<longleftrightarrow> j \<in> page_keys (g_pages st))"
    and kept: "e = 0 \<Longrightarrow> (p, b_start b) \<in> page_keys pages \<and> stored s (p, b_start b) = Some (content (g_mem st) f)"
    and sure: "\<not> fails \<and> env_ok E \<longrightarrow> e = 0 \<and> (iexact st \<longrightarrow> iexact (st\<lparr>g_store := s, g_pages := pages\<rparr>))"
    using copy_page_mapped [OF safe paging val vma(1) ptv, of p] by blast
  define st1 where "st1 = st\<lparr>g_store := s, g_pages := pages\<rparr>"
  have ex: "is_existing_vma (g_mm st) (Some v) = Inr True"
    using vma by (simp add: is_existing_vma_live)
  have elsewhere: "q = p \<and> a = b_start b" if "(mm_of q, a) = k" for q a
    using that inj by (auto simp: k_def dest: injD)
  have s1: "psafe mm_of st1"
    using page_safeD [OF safe] c(3) by (simp add: page_safe_def st1_def)
  have "pview mm_of st1 q a = pview mm_of st q a" for q a
  proof (cases "(mm_of q, a) = k")
    case True
    then show ?thesis using pt by (simp add: page_view_def st1_def k_def)
  next
    case False
    then have "(q, a) \<noteq> (p, b_start b)" by (auto simp: k_def)
    then show ?thesis using other by (auto simp: page_view_def st1_def spi.mem_keys split: option.split)
  qed
  then have v1: "pview mm_of st1 = pview mm_of st" by blast
  consider (refused) "e \<noteq> 0" | (nosym) "e = 0" "\<not> kallsyms_ok E ''zap_page_range''" | (zap) "e = 0" "kallsyms_ok E ''zap_page_range''"
    by blast
  then show ?thesis
  proof cases
    case refused
    then have "unmap_buffer E ops i st = Inr (e, st1)"
      using c(1) by (simp add: unmap_buffer_def b_def [symmetric] vb pid ex st1_def)
    with refused c(2) s1 v1 sure show ?thesis
      by (intro exI [of _ e] exI [of _ st1]) (simp add: st1_def)
  next
    case nosym
    then have "unmap_buffer E ops i st = Inr (- 1, st1)"
      using c(1) by (simp add: unmap_buffer_def b_def [symmetric] vb pid ex remove_user_page_def st1_def)
    moreover have "\<not> env_ok E" using nosym by (auto simp: env_ok_def)
    ultimately show ?thesis using s1 v1
      by (intro exI [of _ "- 1 :: int"] exI [of _ st1]) (simp add: st1_def)
  next
    case zap
    define b' where "b' = b\<lparr>b_vma := None\<rparr>"
    define st' where "st' = st1\<lparr>g_pt := (g_pt st)(k := None), g_bufs := put_buffer b' (g_bufs st)\<rparr>"
    have put: "(g_bufs st)[i := b'] = put_buffer b' (g_bufs st)"
      using put_buffer_update [OF i, of b'] pid by (simp add: b'_def)
    have z: "zap_page_range E (g_pt st) (mm_of p) (b_start b) PAGE_SIZE = (g_pt st)(k := None)"
      using paging by (simp add: paging_ok_def k_def)
    have run: "unmap_buffer E ops i st = Inr (0, st')"
      using c(1) zap vma
      by (simp add: unmap_buffer_def b_def [symmetric] vb pid ex remove_user_page_def z put b'_def [symmetric])
        (simp add: st'_def st1_def)
    note facts = unmap_facts [OF safe inj b vb pid fg k_def b'_def]
    have s': "psafe mm_of st'"
      using c(3) facts by (simp add: page_safe_def st'_def st1_def)
    have "pview mm_of st' q a = pview mm_of st q a" for q a
    proof (cases "(mm_of q, a) = k")
      case True
      then show ?thesis
        using pt kept zap(1) elsewhere [OF True] by (simp add: page_view_def st'_def st1_def k_def spi.mem_keys)
    next
      case False
      then have "(q, a) \<noteq> (p, b_start b)" by (auto simp: k_def)
      then show ?thesis using other False by (auto simp: page_view_def st'_def st1_def spi.mem_keys split: option.split)
    qed
    then have "pview mm_of st' = pview mm_of st" by blast
    with run s' sure show ?thesis
      by (intro exI [of _ "0 :: int"] exI [of _ st'])
        (simp add: st'_def st1_def b'_def b_def [symmetric] index_exact_def)
  qed
qed

end

text \<open>The strong invariant, in a storage that keeps the full contract.\<close>

context storage
begin

abbreviation "pinv \<equiv> page_inv ok valid stored"

abbreviation "pview \<equiv> page_view stored"

end

end
