(* ===== verification/Paging.thy ===== *)
theory Paging
  imports PageInv
begin

text \<open>
  Moving pages: unmapping the pages of a process, bringing a page in, the fault handler.  Each
  operation keeps \<open>page_inv\<close> and changes nothing a process can see.
\<close>

lemma get_buffer_update:
  "get_buffer p bs = Some i \<Longrightarrow> b_pid b = p \<Longrightarrow> get_buffer p (bs[i := b]) = Some i"
  by (induction bs arbitrary: i) (auto split: if_splits nat.split)

lemma get_buffer_put:
  "get_buffer p bs = Some i \<Longrightarrow> b_pid b = p \<Longrightarrow>
     get_buffer p (put_buffer b bs) = Some i \<and> put_buffer b bs ! i = b"
  using get_buffer_update [of p bs i b] put_buffer_update [of p bs i b] get_buffer_Some [of p bs i]
  by (metis nth_list_update_eq)

section \<open>Unmapping\<close>

text \<open>A new mapping that its buffer records.\<close>

lemma mappings_ok_map:
  assumes ok: "buffers_ok M bufs" and mo: "mappings_ok mm_of pt M bufs" and of: "buffer_of p bufs = Some b"
    and b: "b_buffer b = Some f" "b_cache b = Some g" "b_vma b = None" and less: "f < next_frame M"
  shows "mappings_ok mm_of (pt((mm_of p, a) \<mapsto> f)) M (put_buffer (b\<lparr>b_vma := Some v, b_start := a\<rparr>) bufs)"
    (is "mappings_ok _ ?pt M (put_buffer ?b bufs)")
proof (rule mappings_okI)
  have pid: "b_pid b = p" by (rule bt.lookup_key [OF of])
  have fr: "frames_of ?b = [f, g]" "frames_of b = [f, g]" using b by (simp_all add: frames_of_def)
  have look: "buffer_of q (put_buffer ?b bufs) = (if q = p then Some ?b else buffer_of q bufs)" for q
    by (simp add: bt.lookup_put pid)
  fix k x q c
  assume k: "?pt k = Some x"
  then show "x < next_frame M" using less mappings_okD(1) [OF mo] by (auto split: if_splits)
  assume c: "buffer_of q (put_buffer ?b bufs) = Some c" "x \<in> set (frames_of c)"
  show "maps_at mm_of c x k"
  proof (cases "q = p")
    case True
    then have cb: "c = ?b" using c(1) look by simp
    show ?thesis
    proof (cases "k = (mm_of p, a)")
      case True
      with k b pid show ?thesis by (simp add: maps_at_def cb)
    next
      case False
      with k have "pt k = Some x" by simp
      from mappings_okD(2) [OF mo this of] c(2) show ?thesis
        using b pid fr by (auto simp: maps_at_def cb)
    qed
  next
    case False
    then have qc: "buffer_of q bufs = Some c" using c(1) look by simp
    have "x \<noteq> f" using buffers_ok_other [OF ok of qc] False c(2) fr by auto
    with k have "pt k = Some x" by (auto split: if_splits)
    from mappings_okD(2) [OF mo this qc c(2)] show ?thesis .
  qed
qed

context page_store
begin

text \<open>
  What an operation on pages answers, in short: an error code that is 0 or negative, a safe state
  in which no process sees a difference; without failures the code is 0 and the index stays exact.
\<close>

definition unmapped :: "(pid_t \<Rightarrow> mmid) \<Rightarrow> kenv \<Rightarrow> 's gstate \<Rightarrow> int \<Rightarrow> 's gstate \<Rightarrow> bool" where
  "unmapped mm_of E st e st' \<longleftrightarrow> e \<le> 0 \<and> psafe mm_of st' \<and> g_mm st' = g_mm st \<and> g_areas st' = g_areas st \<and>
     g_mem st' = g_mem st \<and> (\<forall>k. g_pt st k = None \<longrightarrow> g_pt st' k = None) \<and> pview mm_of st' = pview mm_of st \<and>
     (\<not> fails \<and> env_ok E \<longrightarrow> e = 0 \<and> (iexact st \<longrightarrow> iexact st'))"

lemma unmapped_refl: "psafe mm_of st \<Longrightarrow> unmapped mm_of E st 0 st"
  by (simp add: unmapped_def)

lemma unmapped_trans: "unmapped mm_of E st 0 st1 \<Longrightarrow> unmapped mm_of E st1 e st2 \<Longrightarrow> unmapped mm_of E st e st2"
  by (simp add: unmapped_def)

lemma unmap_place:
  assumes safe: "psafe mm_of st" and inj: "inj mm_of" and P: "survivable E"
    and i: "get_buffer p (g_bufs st) = Some i"
  obtains e st' where
    "(if b_vma (g_bufs st ! i) \<noteq> None then unmap_buffer E ops i st else Inr (0, st)) = Inr (e, st')"
    "unmapped mm_of E st e st'" "get_buffer p (g_bufs st') = Some i"
    "e = 0 \<Longrightarrow> g_bufs st' ! i = (g_bufs st ! i)\<lparr>b_vma := None\<rparr>"
proof (cases "b_vma (g_bufs st ! i)")
  case None
  then have "(g_bufs st ! i)\<lparr>b_vma := None\<rparr> = g_bufs st ! i" by simp
  with None that [of 0 st] unmapped_refl [OF safe] i show thesis by simp
next
  case (Some v)
  let ?b = "(g_bufs st ! i)\<lparr>b_vma := None\<rparr>"
  obtain e st' where u: "unmap_buffer E ops i st = Inr (e, st')" "unmapped mm_of E st e st'"
      "g_bufs st' = (if e = 0 then put_buffer ?b (g_bufs st) else g_bufs st)"
    using unmap_buffer_mapped [OF safe inj P i Some] unfolding unmapped_def by blast
  have "b_pid (g_bufs st ! i) = p" using get_buffer_Some [OF i] by simp
  then have "get_buffer p (g_bufs st') = Some i \<and> (e = 0 \<longrightarrow> g_bufs st' ! i = ?b)"
    using get_buffer_put [OF i, of ?b] u(3) i by simp
  then show thesis using that [of e st'] u Some by simp
qed

lemma swap_at_same [simp]:
  "g_mm (swap_at i st) = g_mm st" "g_pt (swap_at i st) = g_pt st" "g_mem (swap_at i st) = g_mem st"
  "g_areas (swap_at i st) = g_areas st" "g_store (swap_at i st) = g_store st" "g_pages (swap_at i st) = g_pages st"
  by (simp_all add: swap_at_def)

lemma swap_place:
  assumes "psafe mm_of st" and "get_buffer p (g_bufs st) = Some i"
  shows "unmapped mm_of E st 0 (swap_at i st)" and "get_buffer p (g_bufs (swap_at i st)) = Some i"
    and "g_bufs (swap_at i st) ! i = swap_buffer_cache (g_bufs st ! i)"
  using swap_inv [OF assms] get_buffer_put [OF assms(2), of "swap_buffer_cache (g_bufs st ! i)"]
    get_buffer_Some [OF assms(2)] by (simp_all add: unmapped_def index_exact_def)

lemma unmapped_safe: "unmapped mm_of E st e st' \<Longrightarrow> psafe mm_of st'"
  by (simp add: unmapped_def)

text \<open>Before a page is brought in, the older of the two pages is put away.\<close>

lemma unmap_page_cache:
  assumes safe: "psafe mm_of st" and inj: "inj mm_of" and P: "survivable E"
  obtains e st' where "unmap_page E ops p True st = Inr (e, st')" "unmapped mm_of E st e st'"
    "e = 0 \<Longrightarrow> \<forall>b. buffer_of p (g_bufs st') = Some b \<longrightarrow> b_vma b = None"
proof (cases "get_buffer p (g_bufs st)")
  case None
  with that [of 0 st] unmapped_refl [OF safe] show thesis by (simp add: unmap_page_def get_buffer_buffer_of)
next
  case (Some i)
  note sw = swap_place(1) [OF safe Some, of E] swap_place(2,3) [OF safe Some]
  from unmap_place [OF unmapped_safe [OF sw(1)] inj P sw(2)] obtain e st' where
    u: "(if b_vma (g_bufs (swap_at i st) ! i) \<noteq> None then unmap_buffer E ops i (swap_at i st) else Inr (0, swap_at i st)) = Inr (e, st')"
      "unmapped mm_of E (swap_at i st) e st'" "get_buffer p (g_bufs st') = Some i"
      "e = 0 \<Longrightarrow> g_bufs st' ! i = (g_bufs (swap_at i st) ! i)\<lparr>b_vma := None\<rparr>" by metis
  have "unmap_page E ops p True st = Inr (e, st')"
    using u(1) Some sw(3) by (simp add: unmap_page_def)
  then show thesis
  proof (rule that [OF _ unmapped_trans [OF sw(1) u(2)]])
    show "\<forall>b. buffer_of p (g_bufs st') = Some b \<longrightarrow> b_vma b = None" if "e = 0"
      using get_buffer_buffer_of(1) [OF u(3)] u(4) [OF that] by auto
  qed
qed

text \<open>Before the areas of a process change, both pages are put away.\<close>

lemma unmap_page_all:
  assumes safe: "psafe mm_of st" and inj: "inj mm_of" and P: "survivable E"
  obtains e st' where "unmap_page E ops p False st = Inr (e, st')" "unmapped mm_of E st e st'"
    "e = 0 \<Longrightarrow> \<forall>b. buffer_of p (g_bufs st') = Some b \<longrightarrow> b_vma b = None \<and> b_cache_vma b = None"
proof (cases "get_buffer p (g_bufs st)")
  case None
  with that [of 0 st] unmapped_refl [OF safe] show thesis by (simp add: unmap_page_def get_buffer_buffer_of)
next
  case (Some i)
  from unmap_place [OF safe inj P Some] obtain e1 st1 where
    u: "(if b_vma (g_bufs st ! i) \<noteq> None then unmap_buffer E ops i st else Inr (0, st)) = Inr (e1, st1)"
      "unmapped mm_of E st e1 st1" "get_buffer p (g_bufs st1) = Some i"
      "e1 = 0 \<Longrightarrow> g_bufs st1 ! i = (g_bufs st ! i)\<lparr>b_vma := None\<rparr>" by metis
  have fin: "\<forall>b. buffer_of p (g_bufs st') = Some b \<longrightarrow> b_vma b = None \<and> b_cache_vma b = None"
    if "get_buffer p (g_bufs st') = Some i" "b_vma (g_bufs st' ! i) = None" "b_cache_vma (g_bufs st' ! i) = None" for st'
    using that get_buffer_buffer_of(1) [OF that(1)] by simp
  consider (refused) "e1 \<noteq> 0" | (one) "e1 = 0" "b_cache_vma (g_bufs st1 ! i) = None"
    | (two) "e1 = 0" "b_cache_vma (g_bufs st1 ! i) \<noteq> None" by blast
  then show thesis
  proof cases
    case refused
    then have "unmap_page E ops p False st = Inr (e1, st1)"
      using u(1) Some by (simp add: unmap_page_def)
    with refused show thesis by (intro that [OF _ u(2)]) simp_all
  next
    case one
    then have "unmap_page E ops p False st = Inr (e1, st1)"
      using u(1) Some by (simp add: unmap_page_def)
    then show thesis
      by (rule that [OF _ u(2)]) (rule fin [OF u(3)], use u(4) one in simp_all)
  next
    case two
    note sw = swap_place(1) [OF unmapped_safe [OF u(2)] u(3), of E] swap_place(2,3) [OF unmapped_safe [OF u(2)] u(3)]
    from unmap_place [OF unmapped_safe [OF sw(1)] inj P sw(2)] obtain e st' where
      w: "(if b_vma (g_bufs (swap_at i st1) ! i) \<noteq> None then unmap_buffer E ops i (swap_at i st1) else Inr (0, swap_at i st1)) = Inr (e, st')"
        "unmapped mm_of E (swap_at i st1) e st'" "get_buffer p (g_bufs st') = Some i"
        "e = 0 \<Longrightarrow> g_bufs st' ! i = (g_bufs (swap_at i st1) ! i)\<lparr>b_vma := None\<rparr>" by metis
    have "unmap_page E ops p False st = Inr (e, st')"
      using u(1) w(1) Some two sw(3) by (simp add: unmap_page_def)
    moreover have "unmapped mm_of E st e st'"
      using unmapped_trans [OF unmapped_trans [OF u(2) [unfolded two(1)] sw(1)] w(2)] .
    ultimately show thesis
      by (rule that) (rule fin [OF w(3)], use w(4) u(4) two(1) sw(3) in simp_all)
  qed
qed

text \<open>A buffer for the process, an old one or a new one, or none for want of memory.\<close>

lemma ensure_buffer:
  assumes safe: "psafe mm_of st" and P: "survivable E"
    and free: "\<forall>b. buffer_of p (g_bufs st) = Some b \<longrightarrow> b_vma b = None"
  obtains (some) M bufs i f where
    "(case get_buffer p (g_bufs st) of Some i \<Rightarrow> Inr (g_mem st, g_bufs st, Some i)
      | None \<Rightarrow> add_buffer E p (g_mem st) (g_bufs st)) = Inr (M, bufs, Some i)"
    "psafe mm_of (st\<lparr>g_mem := M, g_bufs := bufs\<rparr>)" "pview mm_of (st\<lparr>g_mem := M, g_bufs := bufs\<rparr>) = pview mm_of st"
    "get_buffer p bufs = Some i" "b_vma (bufs ! i) = None" "b_buffer (bufs ! i) = Some f"
  | (none) "(case get_buffer p (g_bufs st) of Some i \<Rightarrow> Inr (g_mem st, g_bufs st, Some i)
      | None \<Rightarrow> add_buffer E p (g_mem st) (g_bufs st)) = Inr (g_mem st, g_bufs st, None)" "\<not> env_ok E"
proof -
  consider (old) i where "get_buffer p (g_bufs st) = Some i"
    | (nomem) "get_buffer p (g_bufs st) = None" "\<not> (kmalloc_ok E AllocMappedBuffer \<and> kmalloc_ok E AllocBufferPage)"
    | (new) "get_buffer p (g_bufs st) = None" "kmalloc_ok E AllocMappedBuffer" "kmalloc_ok E AllocBufferPage" by blast
  then show thesis
  proof cases
    case old
    note b = get_buffer_buffer_of(1) [OF old]
    obtain f where "b_buffer (g_bufs st ! i) = Some f" using page_safe_buffer [OF safe b] by metis
    then show thesis
      by (intro some [of "g_mem st" "g_bufs st" i f]) (use old safe free b in simp_all)
  next
    case nomem
    then show thesis by (intro none) (auto simp: add_buffer_def env_ok_def)
  next
    case new
    then have none: "buffer_of p (g_bufs st) = None" by (simp add: get_buffer_buffer_of)
    note D = page_safeD [OF safe]
    have k: "kmalloc_ok E AllocCachePage" using P by (simp add: survivable_def)
    obtain b f g M' where b: "add_buffer E p (g_mem st) (g_bufs st) = Inr (M', put_buffer b (g_bufs st), Some (length (g_bufs st)))"
      "get_buffer p (put_buffer b (g_bufs st)) = Some (length (g_bufs st))" "put_buffer b (g_bufs st) = g_bufs st @ [b]"
      "b_buffer b = Some f" "b_cache b = Some g" "b_vma b = None" "b_cache_vma b = None" "b_pid b = p"
      and lim: "next_frame (g_mem st) \<le> f" "next_frame (g_mem st) \<le> g" "f < next_frame M'"
      and cont: "\<And>x. x \<noteq> f \<Longrightarrow> x \<noteq> g \<Longrightarrow> content M' x = content (g_mem st) x"
      and ok: "buffers_ok M' (put_buffer b (g_bufs st))"
      using add_buffer_ok [OF D(1) none new(2,3) k] by metis
    let ?st = "st\<lparr>g_mem := M', g_bufs := put_buffer b (g_bufs st)\<rparr>"
    have look: "buffer_of q (put_buffer b (g_bufs st)) = (if q = p then Some b else buffer_of q (g_bufs st))" for q
      using b(8) by (simp add: bt.lookup_put)
    have sb: "slots_ok mm_of valid (g_mm st) (g_pt st) b"
      using b(6,7) by (simp add: slots_ok_def slot_ok_def)
    have mapped: "x \<noteq> f \<and> x \<noteq> g" if "g_pt st j = Some x" for j x
      using mappings_okD(1) [OF D(3) that] lim by auto
    have sl: "slots_ok mm_of valid (g_mm st) (g_pt st) c" if "buffer_of q (put_buffer b (g_bufs st)) = Some c" for q c
      using that D(2) [of q c] sb look [of q] by (cases "q = p") simp_all
    have mo: "mappings_ok mm_of (g_pt st) M' (put_buffer b (g_bufs st))"
    proof (rule mappings_okI)
      fix j x q c
      assume j: "g_pt st j = Some x"
      then show "x < next_frame M'" using mappings_okD(1) [OF D(3) j] lim by simp
      assume "buffer_of q (put_buffer b (g_bufs st)) = Some c" "x \<in> set (frames_of c)"
      then show "maps_at mm_of c x j"
        using mapped [OF j] mappings_okD(2) [OF D(3) j, of q c] look [of q] frames_of_Some [OF b(4,5)]
        by (cases "q = p") auto
    qed
    show thesis
    proof (rule some [of M' "put_buffer b (g_bufs st)" "length (g_bufs st)" f])
      show "psafe mm_of ?st" using ok sl mo D(4) by (simp add: page_safe_def)
      show "pview mm_of ?st = pview mm_of st"
        by (intro ext) (use mapped cont in \<open>auto simp: page_view_def split: option.split\<close>)
      show "(case get_buffer p (g_bufs st) of Some i \<Rightarrow> Inr (g_mem st, g_bufs st, Some i)
        | None \<Rightarrow> add_buffer E p (g_mem st) (g_bufs st)) = Inr (M', put_buffer b (g_bufs st), Some (length (g_bufs st)))"
        using new b(1) by simp
    qed (use b(2-6) in \<open>simp_all add: nth_append\<close>)
  qed
qed

text \<open>The bytes of a page that is not mapped may change.\<close>

lemma write_unmapped:
  fixes pg :: page
  assumes inv: "psafe mm_of st" and b: "buffer_of p (g_bufs st) = Some b" "b_vma b = None" "b_buffer b = Some f"
    and s: "ok s" "stored s = stored (g_store st)"
  defines "st' \<equiv> st\<lparr>g_mem := (g_mem st)\<lparr>content := (content (g_mem st))(f := pg)\<rparr>, g_store := s\<rparr>"
  shows "psafe mm_of st'" and "pview mm_of st' = pview mm_of st" and "owned (g_mem st) f"
proof -
  note D = page_safeD [OF inv]
  obtain f' g where fg: "b_buffer b = Some f'" "b_cache b = Some g" "f' \<noteq> g" "owned (g_mem st) f'"
    using page_safe_buffer [OF inv b(1)] by metis
  then show "owned (g_mem st) f" using b(3) by simp
  have unmapped: "x \<noteq> f" if "g_pt st j = Some x" for j x
  proof
    assume "x = f"
    then have "x \<in> set (frames_of b)" using b(3) by (simp add: frames_member)
    from mappings_okD(2) [OF D(3) that b(1) this] show False
      using b fg \<open>x = f\<close> by (simp add: maps_at_def)
  qed
  show "psafe mm_of st'"
    using inv s by (simp add: page_safe_def st'_def index_safe_def mappings_ok_def)
  show "pview mm_of st' = pview mm_of st"
    by (intro ext) (use unmapped s in \<open>auto simp: page_view_def st'_def split: option.split\<close>)
qed

text \<open>Mapping a page that holds what the process is to see there.\<close>

lemma map_place:
  assumes inv: "psafe mm_of st" and inj: "inj mm_of" and i: "get_buffer p (g_bufs st) = Some i"
    and b: "b_vma (g_bufs st ! i) = None" "b_buffer (g_bufs st ! i) = Some f"
    and none: "g_pt st (mm_of p, a) = None" and val: "valid a"
    and v: "vmas (g_mm st) v = Some vma" "vm_mm vma = mm_of p" "v \<in> set (mmap (g_mm st) (mm_of p))"
    and cont: "content (g_mem st) f = pview mm_of st p a"
  defines "st' \<equiv> st\<lparr>g_pt := (g_pt st)((mm_of p, a) \<mapsto> f),
    g_bufs := (g_bufs st)[i := (g_bufs st ! i)\<lparr>b_vma := Some v, b_start := a\<rparr>]\<rparr>"
  shows "psafe mm_of st'" and "pview mm_of st' = pview mm_of st"
proof -
  note D = page_safeD [OF inv]
  define b0 where "b0 = g_bufs st ! i"
  have of: "buffer_of p (g_bufs st) = Some b0"
    using get_buffer_buffer_of(1) [OF i] by (simp add: b0_def)
  obtain g where g: "b_cache b0 = Some g" "f \<noteq> g" and f: "owned (g_mem st) f" and pid: "b_pid b0 = p"
    using page_safe_buffer [OF inv of] b(2) by (metis b0_def option.inject)
  define b1 where "b1 = b0\<lparr>b_vma := Some v, b_start := a\<rparr>"
  have put: "g_bufs st' = put_buffer b1 (g_bufs st)"
    using put_buffer_update [OF i, of b1] pid by (simp add: st'_def b1_def b0_def)
  have b1: "b_buffer b1 = Some f" "b_cache b1 = Some g" "b_pid b1 = p" "frames_of b1 = [f, g]" "frames_of b0 = [f, g]"
    using b g pid by (simp_all add: b1_def b0_def frames_of_def)
  have ok: "buffers_ok (g_mem st) (put_buffer b1 (g_bufs st))"
    using D(1) of b1 g(2) by (intro buffers_ok_put [of _ _ _ b0 f g]) simp_all
  have less: "f < next_frame (g_mem st)" using D(1) f by (simp add: buffers_ok_def)
  have keep: "slots_ok mm_of valid (g_mm st) ((g_pt st)((mm_of p, a) \<mapsto> f)) c"
    if "slots_ok mm_of valid (g_mm st) (g_pt st) c" for c
    using that none by (auto simp: slots_ok_def slot_ok_def)
  have b1_slots: "slots_ok mm_of valid (g_mm st) ((g_pt st)((mm_of p, a) \<mapsto> f)) b1"
  proof -
    have "slot_ok mm_of valid (g_mm st) ((g_pt st)((mm_of p, a) \<mapsto> f)) p (b_cache_vma b0) (b_cache_start b0) (b_cache b0)"
      using keep [OF D(2) [OF of]] pid by (simp add: slots_ok_def)
    then show ?thesis using v val b(2) pid by (simp add: slots_ok_def b1_def b0_def) (simp add: slot_ok_def)
  qed
  have sl: "slots_ok mm_of valid (g_mm st) ((g_pt st)((mm_of p, a) \<mapsto> f)) c"
    if "buffer_of q (put_buffer b1 (g_bufs st)) = Some c" for q c
    using that keep D(2) b1_slots by (auto simp: bt.lookup_put split: if_splits)
  have mo: "mappings_ok mm_of ((g_pt st)((mm_of p, a) \<mapsto> f)) (g_mem st) (put_buffer b1 (g_bufs st))"
    unfolding b1_def
    by (rule mappings_ok_map [OF D(1,3) of _ g(1) _ less]) (use b in \<open>simp_all add: b0_def\<close>)
  show "psafe mm_of st'"
    using ok sl mo D(4) put by (simp add: page_safe_def) (simp add: st'_def)
  have "pview mm_of st' q c = pview mm_of st q c" for q c
  proof (cases "(mm_of q, c) = (mm_of p, a)")
    case True
    then have "q = p" "c = a" using inj by (auto dest: injD)
    then show ?thesis using cont by (simp add: page_view_def st'_def)
  next
    case False
    then show ?thesis by (auto simp: page_view_def st'_def split: option.split)
  qed
  then show "pview mm_of st' = pview mm_of st" by blast
qed

text \<open>
  Bringing in a page.  The load or the insertion into the page table may be refused, or there may be
  no memory for a buffer; then nothing is mapped.
\<close>

lemma map_page_spec:
  assumes safe: "psafe mm_of st" and inj: "inj mm_of" and P: "survivable E"
    and free: "\<forall>b. buffer_of p (g_bufs st) = Some b \<longrightarrow> b_vma b = None"
    and none: "g_pt st (mm_of p, a) = None" and val: "valid a"
    and v: "vmas (g_mm st) v = Some vma" "vm_mm vma = mm_of p" "v \<in> set (mmap (g_mm st) (mm_of p))"
  shows "\<exists>res st'. map_page E ops p a v st = Inr (res, st') \<and> psafe mm_of st' \<and>
    pview mm_of st' = pview mm_of st \<and> g_mm st' = g_mm st \<and> g_areas st' = g_areas st \<and>
    g_pt st' (mm_of p, a) = res \<and> (iexact st \<longrightarrow> iexact st') \<and>
    (\<not> fails \<and> env_ok E \<and> insert_total E \<longrightarrow> res \<noteq> None)"
  using safe P free
proof (cases rule: ensure_buffer)
  case none': none
  then have "map_page E ops p a v st = Inr (None, st)"
    by (simp add: map_page_def)
  with safe none none'(2) show ?thesis by (intro exI [of _ None] exI [of _ st]) simp
next
  case e: (some M bufs i f)
  have paging: "paging_ok E" using P by (simp add: survivable_def)
  define st1 where "st1 = st\<lparr>g_mem := M, g_bufs := bufs\<rparr>"
  have st1: "g_mem st1 = M" "g_bufs st1 = bufs" "g_mm st1 = g_mm st" "g_pt st1 = g_pt st"
    "g_areas st1 = g_areas st" "g_pages st1 = g_pages st" "g_store st1 = g_store st"
    by (simp_all add: st1_def)
  note e' = e [folded st1_def]
  have ok: "ok (g_store st1)" using e'(2) by (simp add: page_safe_def index_safe_def)
  obtain n c s where
    ld: "so_load ops p a (content M f) (g_store st1) = Inr (n, c, s)" "ok s" "stored s = stored (g_store st1)" "n < 0 \<longrightarrow> fails"
      "0 \<le> n \<longrightarrow> c = (case stored (g_store st1) (p, a) of Some d \<Rightarrow> d | None \<Rightarrow> zero_page)"
    using load_any [OF ok val, of p "content M f"] by blast
  let ?old = "is_stored_page p a (g_pages st1)"
  define pg where "pg = (if ?old then c else zero_page)"
  define s2 where "s2 = (if ?old then s else g_store st1)"
  define st2 where "st2 = st1\<lparr>g_mem := M\<lparr>content := (content M)(f := pg)\<rparr>, g_store := s2\<rparr>"
  have of: "buffer_of p (g_bufs st1) = Some (bufs ! i)"
    using get_buffer_buffer_of(1) [OF e'(4)] by (simp add: st1)
  have s2: "ok s2" "stored s2 = stored (g_store st1)"
    using ld(2,3) ok by (simp_all add: s2_def)
  note w = write_unmapped(1,2) [OF e'(2) of e'(5,6) s2, of pg, unfolded st1(1), folded st2_def]
    write_unmapped(3) [OF e'(2) of e'(5,6) s2, unfolded st1(1)]
  have st2: "g_bufs st2 = bufs" "g_mm st2 = g_mm st" "g_pt st2 = g_pt st" "g_areas st2 = g_areas st"
    "content (g_mem st2) f = pg"
    by (simp_all add: st2_def st1)
  have x2: "iexact st \<longrightarrow> iexact st2" using s2(2) by (simp add: index_exact_def st2_def st1)
  define refused where "refused \<longleftrightarrow> ?old \<and> n < 0"
  have step: "map_page E ops p a v st = (if refused then Inr (None, st2) else
      (case vm_insert_page E (g_pt st) (mm_of p) a f of
         None \<Rightarrow> Inr (None, st2)
       | Some pt \<Rightarrow> Inr (Some f, st2\<lparr>g_pt := pt, g_bufs := bufs[i := (bufs ! i)\<lparr>b_vma := Some v, b_start := a\<rparr>]\<rparr>)))"
    using ld(1) e'(6) v(1,2) w(3)
    by (auto simp: map_page_def e'(1) st1_def [symmetric] st1 write_frame_def pg_def s2_def st2_def refused_def
        split: option.split)
  consider (refused) "refused \<or> vm_insert_page E (g_pt st) (mm_of p) a f = None"
    | (mapped) pt where "\<not> refused" "vm_insert_page E (g_pt st) (mm_of p) a f = Some pt" by blast
  then show ?thesis
  proof cases
    case refused
    then have "map_page E ops p a v st = Inr (None, st2)" using step by auto
    moreover have "\<not> (\<not> fails \<and> env_ok E \<and> insert_total E)"
      using refused none ld(4) unfolding insert_total_def refused_def by blast
    ultimately show ?thesis
      by (intro exI [of _ None] exI [of _ st2]) (use w e'(3) none x2 in \<open>simp add: st2\<close>)
  next
    case (mapped pt)
    with paging have pt: "pt = (g_pt st)((mm_of p, a) \<mapsto> f)" by (auto simp: paging_ok_def)
    define st3 where "st3 = st2\<lparr>g_pt := pt, g_bufs := bufs[i := (bufs ! i)\<lparr>b_vma := Some v, b_start := a\<rparr>]\<rparr>"
    have "pview mm_of st1 p a = pg"
      using none mapped(1) ld(5) by (auto simp: page_view_def st1 pg_def refused_def)
    then have "pg = pview mm_of st2 p a" using w(2) by simp
    then have m: "psafe mm_of st3" "pview mm_of st3 = pview mm_of st2"
      using map_place [OF w(1) inj, of p i f a v vma, unfolded st2] e'(4,5,6) none val v pt
      unfolding st3_def by simp_all
    have "iexact st \<longrightarrow> iexact st3" using x2 by (simp add: index_exact_def st3_def)
    then show ?thesis
      by (intro exI [of _ "Some f"] exI [of _ st3])
        (use step mapped m w(2) e'(3) in \<open>simp add: st3_def [symmetric]\<close>, simp add: st3_def st2 pt)
  qed
qed

text \<open>The fault handler.\<close>

lemma vm_fault_safe:
  assumes safe: "psafe mm_of st" and inj: "inj mm_of" and P: "survivable E" and cur: "p = t_pid cur"
    and none: "g_pt st (mm_of p, a) = None" and val: "valid a"
    and v: "vmas (g_mm st) v = Some vma" "vm_mm vma = mm_of p" "v \<in> set (mmap (g_mm st) (mm_of p))"
    and adr: "is_valid_address a v (g_areas st)"
  shows "\<exists>res st'. generic_malloc_vm_fault E ops cur v a st = Inr (res, st') \<and> psafe mm_of st' \<and>
    pview mm_of st' = pview mm_of st \<and> g_mm st' = g_mm st \<and> g_areas st' = g_areas st \<and>
    res = (case g_pt st' (mm_of p, a) of Some f \<Rightarrow> FaultDone f | None \<Rightarrow> VM_FAULT_SIGBUS) \<and>
    (\<not> fails \<and> env_ok E \<longrightarrow> (iexact st \<longrightarrow> iexact st') \<and> (insert_total E \<longrightarrow> g_pt st' (mm_of p, a) \<noteq> None))"
proof -
  obtain e st1 where u: "unmap_page E ops p True st = Inr (e, st1)" "unmapped mm_of E st e st1"
    "e = 0 \<Longrightarrow> \<forall>b. buffer_of p (g_bufs st1) = Some b \<longrightarrow> b_vma b = None"
    using unmap_page_cache [OF safe inj P] by metis
  have st1: "psafe mm_of st1" "pview mm_of st1 = pview mm_of st" "g_mm st1 = g_mm st" "g_areas st1 = g_areas st"
    "g_pt st1 (mm_of p, a) = None" "\<not> fails \<and> env_ok E \<longrightarrow> e = 0 \<and> (iexact st \<longrightarrow> iexact st1)"
    using u(2) none by (simp_all add: unmapped_def)
  show ?thesis
  proof (cases "e = 0")
    case False
    then have "generic_malloc_vm_fault E ops cur v a st = Inr (VM_FAULT_SIGBUS, st1)"
      using u(1) adr cur by (simp add: generic_malloc_vm_fault_def generic_malloc_get_page_def)
    with False st1 show ?thesis by (intro exI [of _ VM_FAULT_SIGBUS] exI [of _ st1]) auto
  next
    case True
    obtain pg st' where m: "map_page E ops p a v st1 = Inr (pg, st')" "psafe mm_of st'"
      "pview mm_of st' = pview mm_of st1" "g_mm st' = g_mm st1" "g_areas st' = g_areas st1"
      "g_pt st' (mm_of p, a) = pg" "iexact st1 \<longrightarrow> iexact st'" "\<not> fails \<and> env_ok E \<and> insert_total E \<longrightarrow> pg \<noteq> None"
      using map_page_spec [OF st1(1) inj P u(3) [OF True] st1(5) val, of v vma] v st1(3) by auto
    have "generic_malloc_vm_fault E ops cur v a st =
        Inr (case pg of None \<Rightarrow> VM_FAULT_SIGBUS | Some f \<Rightarrow> FaultDone f, st')"
      using u(1) m(1) adr cur True
      by (simp add: generic_malloc_vm_fault_def generic_malloc_get_page_def split: option.split)
    with m st1 show ?thesis
      by (intro exI [of _ "case pg of None \<Rightarrow> VM_FAULT_SIGBUS | Some f \<Rightarrow> FaultDone f"] exI [of _ st']) auto
  qed
qed

end

section \<open>Without failures\<close>

context storage
begin

lemma unmap_page_both:
  assumes inv: "pinv mm_of st" and inj: "inj mm_of" and env: "env_ok E"
  obtains st' where "unmap_page E ops p False st = Inr (0, st')" "pinv mm_of st'"
    "pview mm_of st' = pview mm_of st" "g_mm st' = g_mm st" "g_areas st' = g_areas st"
    "g_mem st' = g_mem st" "\<And>k. g_pt st k = None \<Longrightarrow> g_pt st' k = None"
    "\<And>b. buffer_of p (g_bufs st') = Some b \<Longrightarrow> b_vma b = None \<and> b_cache_vma b = None"
proof -
  note S = inv [unfolded page_inv_safe]
  obtain e st' where u: "unmap_page E ops p False st = Inr (e, st')" "sound.unmapped mm_of E st e st'"
    "e = 0 \<Longrightarrow> \<forall>b. buffer_of p (g_bufs st') = Some b \<longrightarrow> b_vma b = None \<and> b_cache_vma b = None"
    using sound.unmap_page_all [OF conjunct1 [OF S] inj env_ok_survivable [OF env]] by metis
  from u(2) env S have "e = 0" and "pinv mm_of st'" by (simp_all add: sound.unmapped_def page_inv_safe)
  with u show thesis by (intro that [of st']) (auto simp: sound.unmapped_def)
qed

lemma vm_fault_spec:
  assumes inv: "pinv mm_of st" and inj: "inj mm_of" and env: "env_ok E" and cur: "p = t_pid cur"
    and none: "g_pt st (mm_of p, a) = None" and val: "valid a"
    and v: "vmas (g_mm st) v = Some vma" "vm_mm vma = mm_of p" "v \<in> set (mmap (g_mm st) (mm_of p))"
    and adr: "is_valid_address a v (g_areas st)"
  obtains res st' where "generic_malloc_vm_fault E ops cur v a st = Inr (res, st')" "pinv mm_of st'"
    "pview mm_of st' = pview mm_of st" "g_mm st' = g_mm st" "g_areas st' = g_areas st"
    "res = (case g_pt st' (mm_of p, a) of Some f \<Rightarrow> FaultDone f | None \<Rightarrow> VM_FAULT_SIGBUS)"
    "insert_total E \<Longrightarrow> g_pt st' (mm_of p, a) \<noteq> None"
proof -
  note S = inv [unfolded page_inv_safe]
  from sound.vm_fault_safe [OF conjunct1 [OF S] inj env_ok_survivable [OF env] cur none val v adr] env S that
  show thesis by (auto simp: page_inv_safe)
qed

end

end
