(* ===== verification/Homes.thy ===== *)
theory Homes
  imports Area
begin

text \<open>
  Which address space an area lives in, and that allocating only ever grows VMAs or adds one:
  the facts about \<open>create_region\<close> and \<open>remove_region\<close> that the page handling needs.
\<close>

section \<open>Address spaces only grow\<close>

definition grows :: "vmem \<Rightarrow> vmem \<Rightarrow> bool" where
  "grows V V' \<longleftrightarrow> (\<forall>v a. vmas V v = Some a \<longrightarrow>
       (\<exists>a'. vmas V' v = Some a' \<and> vm_mm a' = vm_mm a \<and> vm_start a' = vm_start a \<and> vm_end a \<le> vm_end a')) \<and>
     (\<forall>m. set (mmap V m) \<subseteq> set (mmap V' m))"

lemma grows_refl [simp]: "grows V V"
  by (simp add: grows_def)

lemma growsD:
  assumes "grows V V'" and "vmas V v = Some a"
  obtains a' where "vmas V' v = Some a'" "vm_mm a' = vm_mm a" "vm_start a' = vm_start a" "vm_end a \<le> vm_end a'"
  using assms unfolding grows_def by blast

lemma served_grows:
  assumes "served sz V a V' a'"
  shows "grows V V'"
proof -
  from assms consider "V' = V"
    | v vma extra where "vmas V v = Some vma" "V' = grow_vma V v vma extra"
        "unat (vm_end vma + extra) = unat (vm_end vma) + unat extra"
    unfolding served_def by blast
  then show ?thesis
    by cases (auto simp: grows_def grow_vma_def word_le_nat_alt)
qed

lemma add_vma_grows:
  assumes "add_vma E V cur task ops sz = Inr (V', Some v)" and "insert_vm_ok E" and "spaces_ok V"
    and "t_mm task = t_mm cur" and "\<And>g. get_free_space V (t_mm cur) sz = Inr g \<Longrightarrow> unat g + unat sz < 2 ^ 64"
  shows "grows V V'"
proof -
  note f = add_vma_spaces_ok [OF assms]
  have "vmas V' u = Some a" if "vmas V u = Some a" for u a
    using f(2,4) that by (cases "u = v") auto
  then show ?thesis using f(5) by (auto simp: grows_def)
qed

section \<open>The home of an area\<close>

definition home_ok :: "(pid_t \<Rightarrow> mmid) \<Rightarrow> vmem \<Rightarrow> area_struct \<Rightarrow> bool" where
  "home_ok mm_of V a \<longleftrightarrow> (\<forall>v vma. a_vma a = Some v \<longrightarrow> vmas V v = Some vma \<longrightarrow>
     vm_mm vma = mm_of (a_pid a) \<and> vm_start vma < vm_end vma)"

definition homes_ok :: "(pid_t \<Rightarrow> mmid) \<Rightarrow> vmem \<Rightarrow> area_struct list \<Rightarrow> bool" where
  "homes_ok mm_of V as \<longleftrightarrow> (\<forall>a\<in>set as. home_ok mm_of V a)"

lemma home_ok_grows:
  assumes "home_ok mm_of V a" and "grows V V'" and "area_ok V a" and "a_vma b = a_vma a" and "a_pid b = a_pid a"
  shows "home_ok mm_of V' b"
proof -
  from assms(3) obtain v vma where v: "a_vma a = Some v" "vmas V v = Some vma" by (auto elim: area_okE)
  from growsD [OF assms(2) v(2)] obtain vma' where "vmas V' v = Some vma'" "vm_mm vma' = vm_mm vma"
    "vm_start vma' = vm_start vma" "vm_end vma \<le> vm_end vma'" .
  with assms(1,4,5) v show ?thesis
    by (auto simp: home_ok_def intro: less_le_trans)
qed

lemma align_ceil_nonzero:
  assumes "bounded V sz" and "0 < sz"
  shows "0 < align_ceil sz VMA_SHIFT"
proof -
  have "unat sz \<le> 2 ^ 62" using assms(1) by (simp add: bounded_def)
  then have "round_up 13 (unat sz) < 2 ^ 64" by (intro round_up_fits) auto
  then have "unat (align_ceil sz 13) = round_up 13 (unat sz)"
    by (intro unat_align_ceil) simp_all
  moreover have "unat sz \<le> round_up 13 (unat sz)" by (rule round_up_ge)
  moreover have "0 < unat sz" using assms(2) by (simp add: word_less_nat_alt)
  moreover have "VMA_SHIFT = 13" by (simp add: VMA_SHIFT_def PAGE_SHIFT_def)
  ultimately show ?thesis by (simp add: word_less_nat_alt)
qed

lemma homes_ok_update:
  assumes ho: "homes_ok mm_of V as" and each: "\<forall>a\<in>set as. area_ok V a" and gr: "grows V V'" and i: "i < length as"
    and b: "a_vma b = a_vma (as ! i)" "a_pid b = a_pid (as ! i)"
  shows "homes_ok mm_of V' (as[i := b])"
proof -
  have "home_ok mm_of V' b"
    using home_ok_grows [of mm_of V "as ! i" V' b] ho each gr b i by (simp add: homes_ok_def)
  moreover have "home_ok mm_of V' c" if "c \<in> set as" for c
    using home_ok_grows [of mm_of V c V' c] ho each gr that by (simp add: homes_ok_def)
  ultimately show ?thesis using set_update_subset_insert [of as i b] by (auto simp: homes_ok_def)
qed

text \<open>A new area whose VMA was created at a free address.\<close>

lemma new_area_home:
  assumes sp: "spaces_ok V" and as: "\<forall>a\<in>set as. area_ok V a" and bd: "bounded V sz" and ins: "insert_vm_ok E"
    and sz: "0 < sz" and ho: "homes_ok mm_of V as" and mm: "t_mm task = mm_of (t_pid task)"
    and add: "add_vma E V task task ops (align_ceil sz VMA_SHIFT) = Inr (V1, Some v)"
    and b: "a_vma b = Some v" "a_pid b = t_pid task"
  shows "grows V V1" and "homes_ok mm_of V1 (as @ [b])"
proof -
  define sz' where "sz' = align_ceil sz VMA_SHIFT"
  have nw: "unat g + unat sz' < 2 ^ 64" if "get_free_space V (t_mm task) sz' = Inr g" for g
    using new_area_nowrap [OF sp bd] that by (simp add: sz'_def)
  note f = add_vma_spaces_ok [OF add [folded sz'_def] ins sp refl nw]
  show gr: "grows V V1" by (rule add_vma_grows [OF add [folded sz'_def] ins sp refl nw])
  from f(6) obtain vma where vma: "vmas V1 v = Some vma" "vm_mm vma = t_mm task" "vm_end vma - vm_start vma = sz'"
    by blast
  have "mm_wf V1 (t_mm task)" using f(1) by (simp add: spaces_ok_def)
  from mm_wfD [OF this f(3)] vma(1) have le: "vm_start vma \<le> vm_end vma" by auto
  have "vm_start vma \<noteq> vm_end vma"
    using vma(3) align_ceil_nonzero [OF bd sz] by (auto simp: sz'_def)
  with le have "vm_start vma < vm_end vma" by simp
  then have "home_ok mm_of V1 b" using vma b mm by (simp add: home_ok_def)
  moreover have "home_ok mm_of V1 c" if "c \<in> set as" for c
    using home_ok_grows [of mm_of V c V1 c] ho as gr that by (simp add: homes_ok_def)
  ultimately show "homes_ok mm_of V1 (as @ [b])" by (simp add: homes_ok_def)
qed

lemma create_region_homes:
  assumes sp: "spaces_ok V" and as: "areas_ok V as" and bd: "bounded V sz"
    and al: "alloc_ok E" and ins: "insert_vm_ok E" and sz: "0 < sz"
    and ho: "homes_ok mm_of V as" and mm: "t_mm task = mm_of (t_pid task)"
    and run: "create_region E V sz task as ops = Inr (V', as', Some r)"
  shows "grows V V'" and "homes_ok mm_of V' as'"
proof -
  have k: "kmalloc_ok E AllocSplitRegion" "kmalloc_ok E AllocTailRegion" "kmalloc_ok E AllocArea"
    using al by (simp_all add: alloc_ok_def)
  have each: "\<forall>a\<in>set as. area_ok V a" using as by (simp add: areas_ok_def)
  from scan_areas_spec [OF sp each bd, of "t_pid task"]
  have "grows V V' \<and> homes_ok mm_of V' as'"
  proof (elim disjE exE conjE)
    fix i V1 a1
    assume sc: "scan_areas sz (t_pid task) V as = Inr (V1, as[i := a1], Some i)"
      and i: "i < length as" and pid: "a_pid (as ! i) = t_pid task" and sv: "served sz V (as ! i) V1 a1"
    from served_areas_ok [OF sp as i sv] have ok: "areas_ok V1 (as[i := a1])" by simp
    have i': "i < length (as[i := a1])" using i by simp
    obtain b r' where b: "add_region E V1 (as[i := a1] ! i) sz = Inr (b, Some r')"
      "a_pid b = a_pid (as[i := a1] ! i)" "a_vma b = a_vma (as[i := a1] ! i)"
      by (rule add_region_areas_ok [OF ok i' k(1,2), of sz])
    have "create_region E V sz task as ops = Inr (V1, as[i := b], Some r')"
      using sc b(1) i by (simp add: create_region_def get_area_container_def)
    then have "V' = V1" "as' = as[i := b]" using run by simp_all
    with homes_ok_update [OF ho each served_grows [OF sv] i, of b] served_grows [OF sv] b(2,3) i served_same [OF sv]
    show ?thesis by simp
  next
    assume sc: "scan_areas sz (t_pid task) V as = Inr (V, as, None)"
    define sz' where "sz' = align_ceil sz VMA_SHIFT"
    have nw: "unat g + unat sz' < 2 ^ 64" if "get_free_space V (t_mm task) sz' = Inr g" for g
      using new_area_nowrap [OF sp bd] that by (simp add: sz'_def)
    obtain V1 p where add: "add_vma E V task task ops sz' = Inr (V1, p)"
      using add_vma_returns [OF sp] by blast
    define a where "a = \<lparr>a_vma = p, a_pid = t_pid task, a_size = sz', free_space = sz',
      head = \<lparr>r_free = junk_int E, r_size = junk_long E, virtual_start = junk_long E\<rparr>, regions = []\<rparr>"
    have cont: "get_area_container E V sz task as ops =
        Inr (V1, as @ [a], if p = None then None else Some (length as))"
      using sc add k(3) by (simp add: get_area_container_def add_area_struct_def sz'_def [symmetric] a_def)
    with run obtain v where p: "p = Some v"
      by (cases p) (auto simp: create_region_def)
    have ok: "areas_ok V1 (as @ [a])"
      using areas_ok_new [OF sp as ins add [unfolded p] nw, where a = a] al p
      by (simp add: a_def alloc_ok_def)
    have n: "length as < length (as @ [a])" by simp
    obtain b r' where b: "add_region E V1 ((as @ [a]) ! length as) sz = Inr (b, Some r')"
      "a_pid b = a_pid ((as @ [a]) ! length as)" "a_vma b = a_vma ((as @ [a]) ! length as)"
      by (rule add_region_areas_ok [OF ok n k(1,2), of sz])
    have "create_region E V sz task as ops = Inr (V1, as @ [b], Some r')"
      using cont b(1) p by (simp add: create_region_def)
    then have r: "V' = V1" "as' = as @ [b]" using run by simp_all
    have "a_vma b = Some v" "a_pid b = t_pid task" using b(2,3) p by (simp_all add: a_def)
    with new_area_home [OF sp each bd ins sz ho mm add [unfolded p sz'_def]] show ?thesis by (simp add: r)
  qed
  then show "grows V V'" and "homes_ok mm_of V' as'" by simp_all
qed


section \<open>Giving a region back\<close>

lemma remove_region_shape:
  assumes as: "areas_ok V as" and ho: "homes_ok mm_of V as"
  obtains as' cl where "remove_region V pid address as = Inr (as', cl)" "areas_ok V as'" "homes_ok mm_of V as'"
    "cl = None \<or> (\<exists>i v. cl = Some (Some v) \<and> i < length as' \<and> a_vma (as' ! i) = Some v \<and>
       regions (as' ! i) = [] \<and> a_pid (as' ! i) = pid)"
    "live as' = live as \<or>
     (\<exists>us r ws. live as = us @ (pid, r) # ws \<and> live as' = us @ ws \<and> virtual_start r = address)"
    "\<And>i. get_area V pid address as = Inr (Some i) \<Longrightarrow> i < length as' \<and>
       set (used (regions (as' ! i))) \<subseteq> set (used (regions (as ! i))) \<and>
       (\<forall>pre r post x. get_region (as ! i) address = Some (pre, r, post) \<longrightarrow>
          x \<in> set (used pre) \<union> set (used post) \<longrightarrow> cl = None)"
  using as
proof (cases rule: remove_region_cases [where pid = pid and address = address])
  case none
  have lim: "i < length as" if "get_area V pid address as = Inr (Some i)" for i
    using get_area_spec [of as V pid address] as that by (auto simp: areas_ok_def)
  show thesis
    by (rule that [OF none as ho]) (use lim in auto)
next
  case (found i pre r post)
  obtain rs where f: "i < length as" "a_pid (as ! i) = pid"
    "regions (as ! i) = pre @ r # post" "virtual_start r = address" "used rs = used pre @ used post"
    and run: "remove_region V pid address as =
       Inr (as[i := (as ! i)\<lparr>free_space := free_space (as ! i) + r_size r, regions := rs\<rparr>],
            if rs = [] then Some (a_vma (as ! i)) else None)"
    and ok: "areas_ok V (as[i := (as ! i)\<lparr>free_space := free_space (as ! i) + r_size r, regions := rs\<rparr>])"
    by (rule remove_region_found [OF as found])
  define b where "b = (as ! i)\<lparr>free_space := free_space (as ! i) + r_size r, regions := rs\<rparr>"
  have b: "a_vma b = a_vma (as ! i)" "a_pid b = pid" "regions b = rs" using f(2) by (simp_all add: b_def)
  have "area_ok V (as ! i)" using as f(1) by (simp add: areas_ok_def)
  then obtain v where v: "a_vma (as ! i) = Some v" by (auto elim: area_okE)
  have hb: "homes_ok mm_of V (as[i := b])"
  proof -
    have "home_ok mm_of V (as ! i)" using ho f(1) by (simp add: homes_ok_def)
    then have "home_ok mm_of V b" using b(1,2) f(2) by (simp add: home_ok_def)
    then show ?thesis
      using ho set_update_subset_insert [of as i b] by (auto simp: homes_ok_def)
  qed
  have lv: "live (as[i := b]) = live as \<or>
     (\<exists>us r ws. live as = us @ (pid, r) # ws \<and> live (as[i := b]) = us @ ws \<and> virtual_start r = address)"
    using remove_region_live [OF as, of pid address] run [folded b_def] by auto
  have sub: "set (used rs) \<subseteq> set (used (pre @ r # post))" using f(5) by auto
  have emp: "used pre = [] \<and> used post = []" if "rs = []" using f(5) that by simp
  show thesis
  proof (rule that [OF run [folded b_def] ok [folded b_def] hb _ lv])
    show "(if rs = [] then Some (a_vma (as ! i)) else None) = None \<or>
      (\<exists>j v. (if rs = [] then Some (a_vma (as ! i)) else None) = Some (Some v) \<and> j < length (as[i := b]) \<and>
         a_vma (as[i := b] ! j) = Some v \<and> regions (as[i := b] ! j) = [] \<and> a_pid (as[i := b] ! j) = pid)"
      using b v f(1) by auto
    fix j
    assume "get_area V pid address as = Inr (Some j)"
    with found(1) have "j = i" by simp
    then show "j < length (as[i := b]) \<and> set (used (regions (as[i := b] ! j))) \<subseteq> set (used (regions (as ! j))) \<and>
       (\<forall>pre r post x. get_region (as ! j) address = Some (pre, r, post) \<longrightarrow>
          x \<in> set (used pre) \<union> set (used post) \<longrightarrow> (if rs = [] then Some (a_vma (as ! i)) else None) = None)"
      using f(1,3) sub emp b(3) found(2) by auto
  qed
qed

lemma spaces_ok_unmap:
  assumes sp: "spaces_ok V" and v: "vmas V v = Some a" "v \<in> set (mmap V m)"
  shows "spaces_ok (V\<lparr>mmap := (mmap V)(m := remove1 v (mmap V m)), vmas := (vmas V)(v := None)\<rparr>)"
proof -
  let ?V = "V\<lparr>mmap := (mmap V)(m := remove1 v (mmap V m)), vmas := (vmas V)(v := None)\<rparr>"
  have wf: "mm_wf V n" for n using sp by (simp add: spaces_ok_def)
  have only: "n = m" if "v \<in> set (mmap V n)" for n
    using mm_wfD [OF wf that] mm_wfD [OF wf v(2)] v(1) by (metis option.inject)
  have bef: "before ?V u w" if "before V u w" for u w
    using that by (auto simp: before_def)
  have "mm_wf ?V n" for n
  proof -
    have d: "distinct (mmap V n)" and s: "sorted_wrt (before V) (mmap V n)" using wf [of n] by (simp_all add: mm_wf_def)
    have l: "mmap ?V n = filter (\<lambda>u. u \<noteq> v) (mmap V n)"
      using d only [of n] by (cases "n = m") (auto simp: distinct_remove1_removeAll removeAll_filter_not_eq
          intro!: filter_True [symmetric] filter_cong)
    have "sorted_wrt (before ?V) (mmap ?V n)"
      unfolding l by (rule sorted_wrt_filter) (use s bef in \<open>auto intro: sorted_wrt_mono_rel\<close>)
    moreover have "distinct (mmap ?V n)" unfolding l using d by simp
    moreover have "\<exists>b. vmas ?V u = Some b \<and> vm_mm b = n \<and> u < next_vid ?V \<and> PAGE_SIZE \<le> vm_start b \<and> vm_start b \<le> vm_end b"
      if "u \<in> set (mmap ?V n)" for u
    proof -
      from that have u: "u \<in> set (mmap V n)" "u \<noteq> v" unfolding l by auto
      from mm_wfD [OF wf u(1)] obtain b where "vmas V u = Some b" "vm_mm b = n" "u < next_vid V"
        "PAGE_SIZE \<le> vm_start b" "vm_start b \<le> vm_end b" .
      with u(2) show ?thesis by simp
    qed
    ultimately show ?thesis unfolding mm_wf_def by blast
  qed
  moreover have "vids_fresh ?V" using sp by (auto simp: spaces_ok_def vids_fresh_def)
  ultimately show ?thesis by (simp add: spaces_ok_def)
qed

lemma areas_ok_unmap:
  fixes m :: mmid
  assumes as: "areas_ok V as" and ho: "homes_ok mm_of V as" and i: "i < length as" "a_vma (as ! i) = Some v"
  defines "V' \<equiv> V\<lparr>mmap := (mmap V)(m := remove1 v (mmap V m)), vmas := (vmas V)(v := None)\<rparr>"
  shows "areas_ok V' (take i as @ drop (Suc i) as)" and "homes_ok mm_of V' (take i as @ drop (Suc i) as)"
proof -
  have split: "as = take i as @ as ! i # drop (Suc i) as" using i(1) by (rule id_take_nth_drop)
  define pre post where "pre = take i as" and "post = drop (Suc i) as"
  have l: "as = pre @ as ! i # post" using split by (simp add: pre_def post_def)
  have "distinct (map a_vma (pre @ as ! i # post))" using as l by (simp only: areas_ok_def)
  then have d: "distinct (map a_vma (pre @ post))" "Some v \<notin> a_vma ` set (pre @ post)"
    using i(2) by (simp_all add: image_Un)
  have "area_ok V' a \<and> home_ok mm_of V' a" if a: "a \<in> set (pre @ post)" for a
  proof -
    have "a \<in> set (pre @ as ! i # post)" using a by auto
    then have "a \<in> set as" using l by simp
    with as ho have o: "area_ok V a" "home_ok mm_of V a" by (simp_all add: areas_ok_def homes_ok_def)
    from o(1) obtain w vma where w: "a_vma a = Some w" "vmas V w = Some vma" "w \<in> set (mmap V (vm_mm vma))"
      "a_size a = vm_end vma - vm_start vma" "regions_wf (vm_start vma) (regions a)" "r_free (head a) \<noteq> 1"
      by (rule area_okE)
    have "w \<noteq> v" using d(2) a w(1) by force
    with w o(2) show ?thesis by (auto simp: area_ok_def home_ok_def V'_def)
  qed
  then show "areas_ok V' (take i as @ drop (Suc i) as)" and "homes_ok mm_of V' (take i as @ drop (Suc i) as)"
    using d(1) by (simp_all add: areas_ok_def homes_ok_def pre_def post_def)
qed

text \<open>Which area an address belongs to depends on the processes and VMAs of the areas only.\<close>

lemma get_area_cong:
  "map (\<lambda>a. (a_pid a, a_vma a)) as = map (\<lambda>a. (a_pid a, a_vma a)) bs \<Longrightarrow> get_area V p x as = get_area V p x bs"
proof (induction as arbitrary: bs)
  case (Cons a as)
  then obtain c cs where bs: "bs = c # cs" "a_pid a = a_pid c" "a_vma a = a_vma c"
    "map (\<lambda>a. (a_pid a, a_vma a)) as = map (\<lambda>a. (a_pid a, a_vma a)) cs" by (cases bs) auto
  from Cons.IH [OF bs(4)] bs show ?case by (cases "a_pid c = p") simp_all
qed simp

end
