(* ===== verification/MallocFree.thy ===== *)
theory MallocFree
  imports Paging Homes
begin

text \<open>
  The two system calls as a whole.  \<open>module_inv\<close> is the invariant of the module between two
  operations; allocating and freeing keep it and change nothing another process can see.
\<close>

definition module_inv ::
  "('s \<Rightarrow> bool) \<Rightarrow> (u64 \<Rightarrow> bool) \<Rightarrow> ('s \<Rightarrow> pid_t \<times> u64 \<Rightarrow> page option) \<Rightarrow> (pid_t \<Rightarrow> mmid) \<Rightarrow> 's gstate \<Rightarrow> bool" where
  "module_inv ok valid stored mm_of st \<longleftrightarrow> spaces_ok (g_mm st) \<and> areas_ok (g_mm st) (g_areas st) \<and>
     homes_ok mm_of (g_mm st) (g_areas st) \<and> page_inv ok valid stored mm_of st"

lemma module_invD:
  assumes "module_inv ok valid stored mm_of st"
  shows "spaces_ok (g_mm st)" "areas_ok (g_mm st) (g_areas st)" "homes_ok mm_of (g_mm st) (g_areas st)"
    "page_inv ok valid stored mm_of st"
  using assms by (simp_all add: module_inv_def)

text \<open>What remains of it while the storage or the kernel may refuse what they are asked for.\<close>

definition module_safe ::
  "('s \<Rightarrow> bool) \<Rightarrow> (u64 \<Rightarrow> bool) \<Rightarrow> ('s \<Rightarrow> pid_t \<times> u64 \<Rightarrow> page option) \<Rightarrow> (pid_t \<Rightarrow> mmid) \<Rightarrow> 's gstate \<Rightarrow> bool" where
  "module_safe ok valid stored mm_of st \<longleftrightarrow> spaces_ok (g_mm st) \<and> areas_ok (g_mm st) (g_areas st) \<and>
     homes_ok mm_of (g_mm st) (g_areas st) \<and> page_safe ok valid stored mm_of st"

lemma module_safeD:
  assumes "module_safe ok valid stored mm_of st"
  shows "spaces_ok (g_mm st)" "areas_ok (g_mm st) (g_areas st)" "homes_ok mm_of (g_mm st) (g_areas st)"
    "page_safe ok valid stored mm_of st"
  using assms by (simp_all add: module_safe_def)

lemma module_inv_safe:
  "module_inv ok valid stored mm_of st \<longleftrightarrow> module_safe ok valid stored mm_of st \<and> index_exact stored st"
  by (auto simp: module_inv_def module_safe_def page_inv_safe)

text \<open>
  A kernel that may refuse memory for pages, buffers and the index, mappings, VMAs and the symbol
  \<open>zap_page_range\<close>, but gives memory for the records of areas and regions.
\<close>

definition robust :: "kenv \<Rightarrow> bool" where
  "robust E \<longleftrightarrow> survivable E \<and> alloc_ok E \<and> insert_vm_ok E \<and> munmap_ok E \<and> kallsyms_ok E ''do_munmap''"

lemma env_ok_robust: "env_ok E \<Longrightarrow> robust E"
  using env_ok_survivable [of E] env_ok_alloc [of E] by (simp add: robust_def env_ok_def)

lemma slots_ok_grows:
  assumes "slots_ok mm_of valid V pt b" and "grows V V'"
  shows "slots_ok mm_of valid V' pt b"
proof -
  have "slot_ok mm_of valid V' pt p vma start f" if "slot_ok mm_of valid V pt p vma start f" for p vma start f
    unfolding slot_ok_def
  proof (intro allI impI)
    fix v assume "vma = Some v"
    with that obtain a where s: "valid start" "f \<noteq> None" "pt (mm_of p, start) = f"
      and a: "vmas V v = Some a" "vm_mm a = mm_of p" "v \<in> set (mmap V (mm_of p))"
      by (auto simp: slot_ok_def)
    from growsD [OF assms(2) a(1)] obtain a' where "vmas V' v = Some a'" "vm_mm a' = vm_mm a" .
    moreover have "v \<in> set (mmap V' (mm_of p))" using assms(2) a(3) by (auto simp: grows_def)
    ultimately show "valid start \<and> f \<noteq> None \<and> pt (mm_of p, start) = f \<and>
        (\<exists>a. vmas V' v = Some a \<and> vm_mm a = mm_of p \<and> v \<in> set (mmap V' (mm_of p)))"
      using s a(2) by auto
  qed
  with assms(1) show ?thesis by (simp add: slots_ok_def)
qed

text \<open>Which pages a call of \<open>remove_storage_pages\<close> may take away.\<close>

definition removable :: "area_struct list \<Rightarrow> nat option \<Rightarrow> u64 \<Rightarrow> u64 \<Rightarrow> bool" where
  "removable as found address a \<longleftrightarrow> (\<exists>i pre r post. found = Some i \<and>
     get_region (as ! i) address = Some (pre, r, post) \<and> can_remove_page a (pre, r, post))"

text \<open>Taking a VMA out of an address space, as the other mappings see it.\<close>

lemma unmap_range_sub: "unmap_range pt m start len k = Some f \<Longrightarrow> pt k = Some f"
  by (cases k) (auto simp: unmap_range_def split: if_splits)

lemma unmap_range_keep:
  assumes "start < fin" and "n \<noteq> m \<or> \<not> (start \<le> a \<and> a < fin)"
  shows "unmap_range pt m start (fin - start) (n, a) = pt (n, a)"
proof -
  have "unat start + unat (fin - start) = unat fin"
    using assms(1) by (simp add: unat_sub less_imp_le word_less_nat_alt)
  with assms(2) show ?thesis by (auto simp: unmap_range_def page_range_def word_less_nat_alt)
qed

lemma slot_ok_unmap:
  assumes "slot_ok mm_of valid V pt p w start f" and "vmas V v = Some vma" and "vm_mm vma \<noteq> mm_of p"
    and "vm_start vma < vm_end vma"
  shows "slot_ok mm_of valid (V\<lparr>mmap := (mmap V)(vm_mm vma := l), vmas := (vmas V)(v := None)\<rparr>)
    (unmap_range pt (vm_mm vma) (vm_start vma) (vm_end vma - vm_start vma)) p w start f"
  unfolding slot_ok_def
proof (intro allI impI)
  fix u assume "w = Some u"
  with assms(1) obtain a where s: "valid start" "f \<noteq> None" "pt (mm_of p, start) = f"
    and a: "vmas V u = Some a" "vm_mm a = mm_of p" "u \<in> set (mmap V (mm_of p))"
    by (auto simp: slot_ok_def)
  have "u \<noteq> v" using a(1,2) assms(2,3) by auto
  with s a assms(3) show "valid start \<and> f \<noteq> None \<and>
      unmap_range pt (vm_mm vma) (vm_start vma) (vm_end vma - vm_start vma) (mm_of p, start) = f \<and>
      (\<exists>a. vmas (V\<lparr>mmap := (mmap V)(vm_mm vma := l), vmas := (vmas V)(v := None)\<rparr>) u = Some a \<and> vm_mm a = mm_of p \<and>
        u \<in> set (mmap (V\<lparr>mmap := (mmap V)(vm_mm vma := l), vmas := (vmas V)(v := None)\<rparr>) (mm_of p)))"
    by (simp add: unmap_range_keep [OF assms(4)])
qed

section \<open>Allocating\<close>

context page_store
begin

abbreviation "msafe \<equiv> module_safe ok valid stored"

text \<open>
  A region that was made is handed out unless the page in the buffer cannot be put away; then the
  answer is \<open>NULL\<close>, and the region stays.
\<close>

lemma malloc_any:
  assumes safe: "msafe mm_of st" and inj: "inj mm_of" and R: "robust E"
    and cur: "t_mm cur = mm_of (t_pid cur)" and bd: "bounded (g_mm st) sz" and sz: "0 < sz"
  obtains (made) V as r ptr st' us ws where
      "create_region E (g_mm st) sz cur (g_areas st) module_vm_ops = Inr (V, as, Some r)"
      "generic_malloc E ops cur sz st = Inr (ptr, st')" "ptr = virtual_start r \<or> ptr = 0" "msafe mm_of st'"
      "pview mm_of st' = pview mm_of st" "r_size r = sz" "r_free r = 0"
      "live (g_areas st) = us @ ws" "live (g_areas st') = us @ (t_pid cur, r) # ws"
      "grows (g_mm st) (g_mm st')" "\<not> fails \<Longrightarrow> env_ok E \<Longrightarrow> ptr = virtual_start r \<and> (iexact st \<longrightarrow> iexact st')"
  | (refused) V as st' where
      "create_region E (g_mm st) sz cur (g_areas st) module_vm_ops = Inr (V, as, None)"
      "generic_malloc E ops cur sz st = Inr (0, st')"
      "pview mm_of st' = pview mm_of st" "live (g_areas st') = live (g_areas st)"
proof -
  note D = module_safeD [OF safe]
  have e: "alloc_ok E" "insert_vm_ok E" "survivable E" using R by (simp_all add: robust_def)
  from D(1,2) bd e(1,2) show thesis
  proof (cases rule: create_region_spec [where task = cur and ops = module_vm_ops])
    case (served V as r us ws i)
    note h = create_region_homes [OF D(1,2) bd e(1,2) sz D(3) cur served(1)]
    define st1 where "st1 = st\<lparr>g_mm := V, g_areas := as\<rparr>"
    note P = page_safeD [OF D(4)]
    have p1: "psafe mm_of st1"
      using P slots_ok_grows [OF P(2) h(1)] by (simp add: page_safe_def st1_def)
    have v1: "pview mm_of st1 = pview mm_of st"
      by (intro ext) (simp add: page_view_def st1_def split: option.split)
    have x1: "iexact st1 = iexact st" by (simp add: index_exact_def st1_def)
    obtain er st' where u: "unmap_page E ops (t_pid cur) False st1 = Inr (er, st')" "unmapped mm_of E st1 er st'"
      using unmap_page_all [OF p1 inj e(3)] by metis
    have w: "psafe mm_of st'" "pview mm_of st' = pview mm_of st" "g_mm st' = V" "g_areas st' = as"
      "\<not> fails \<and> env_ok E \<longrightarrow> er = 0 \<and> (iexact st \<longrightarrow> iexact st')"
      using u(2) v1 x1 by (simp_all add: unmapped_def) (simp_all add: st1_def)
    define ptr where "ptr = (if er < 0 then 0 else virtual_start r)"
    have "generic_malloc E ops cur sz st = Inr (ptr, st')"
      using served(1) u(1) by (simp add: generic_malloc_def st1_def [symmetric] ptr_def)
    moreover have "ptr = virtual_start r \<or> ptr = 0" by (simp add: ptr_def)
    moreover have "msafe mm_of st'"
      using served(2,3) h w by (simp add: module_safe_def)
    moreover have "ptr = virtual_start r \<and> (iexact st \<longrightarrow> iexact st')" if "\<not> fails" "env_ok E"
      using w(5) that by (simp add: ptr_def)
    ultimately show thesis
      by (intro made [OF served(1), of ptr st' us ws]) (use w served h(1) in simp_all)
  next
    case (refused V a)
    have "generic_malloc E ops cur sz st = Inr (0, st\<lparr>g_mm := V, g_areas := g_areas st @ [a]\<rparr>)"
      using refused(1) by (simp add: generic_malloc_def)
    moreover have "pview mm_of (st\<lparr>g_mm := V, g_areas := g_areas st @ [a]\<rparr>) = pview mm_of st"
      by (intro ext) (simp add: page_view_def split: option.split)
    ultimately show thesis
      by (rule that(2) [OF refused(1)]) (simp add: refused)
  qed
qed

section \<open>Removing pages\<close>

lemma remove_pages_any:
  assumes "index_safe ok valid stored (g_store st) (g_pages st)"
  shows "\<exists>s pages. remove_pages ops p cursor as st = Inr (st\<lparr>g_store := s, g_pages := pages\<rparr>) \<and>
    index_safe ok valid stored s pages \<and>
    (\<forall>k. stored s k \<noteq> stored (g_store st) k \<or> (k \<in> page_keys pages) \<noteq> (k \<in> page_keys (g_pages st)) \<longrightarrow>
       (\<exists>a\<in>set as. k = (p, a) \<and> can_remove_page a cursor)) \<and>
    (\<not> fails \<longrightarrow> iexact st \<longrightarrow> iexact (st\<lparr>g_store := s, g_pages := pages\<rparr>))"
  using assms
proof (induction as arbitrary: st)
  case Nil
  then show ?case by (intro exI [of _ "g_store st"] exI [of _ "g_pages st"]) simp
next
  case (Cons a as)
  show ?case
  proof (cases "is_stored_page p a (g_pages st) \<and> can_remove_page a cursor")
    case True
    have val: "valid a" using Cons.prems True by (force simp: index_safe_def spi.mem_keys)
    have ok: "ok (g_store st)" "pages_ok (g_pages st)" using Cons.prems by (simp_all add: index_safe_def)
    obtain s where s: "so_remove ops p a (g_store st) = Inr s" "ok s"
      "stored s = (stored (g_store st))((p, a) := None) \<or> fails \<and> stored s = stored (g_store st)"
      using remove_any [OF ok(1) val, of p] by blast
    define st1 where "st1 = st\<lparr>g_store := s, g_pages := remove_stored_page p a (g_pages st)\<rparr>"
    have keys: "page_keys (g_pages st1) = page_keys (g_pages st) - {(p, a)}"
      using spi.keys_del [OF ok(2)] by (simp add: st1_def)
    have "index_safe ok valid stored (g_store st1) (g_pages st1)"
      using index_safe_remove [OF Cons.prems s(2)] s(3) by (auto simp: st1_def)
    from Cons.IH [OF this] obtain s' pages where
      r: "remove_pages ops p cursor as st1 = Inr (st1\<lparr>g_store := s', g_pages := pages\<rparr>)"
        "index_safe ok valid stored s' pages"
      and ch: "\<And>k. stored s' k \<noteq> stored (g_store st1) k \<or> (k \<in> page_keys pages) \<noteq> (k \<in> page_keys (g_pages st1)) \<Longrightarrow>
         \<exists>a\<in>set as. k = (p, a) \<and> can_remove_page a cursor"
      and x: "\<not> fails \<longrightarrow> iexact st1 \<longrightarrow> iexact (st1\<lparr>g_store := s', g_pages := pages\<rparr>)"
      by blast
    have "remove_pages ops p cursor (a # as) st = Inr (st\<lparr>g_store := s', g_pages := pages\<rparr>)"
      using True s(1) r(1) by (simp add: st1_def)
    moreover have "\<exists>b\<in>set (a # as). k = (p, b) \<and> can_remove_page b cursor"
      if k: "stored s' k \<noteq> stored (g_store st) k \<or> (k \<in> page_keys pages) \<noteq> (k \<in> page_keys (g_pages st))" for k
    proof (cases "k = (p, a)")
      case False
      have "stored s k = stored (g_store st) k" using s(3) False by (metis fun_upd_other)
      with k keys False have "stored s' k \<noteq> stored (g_store st1) k \<or> (k \<in> page_keys pages) \<noteq> (k \<in> page_keys (g_pages st1))"
        by (auto simp: st1_def)
      from ch [OF this] show ?thesis by auto
    qed (use True in auto)
    moreover have "iexact (st\<lparr>g_store := s', g_pages := pages\<rparr>)" if "\<not> fails" "iexact st"
    proof -
      have "stored s = (stored (g_store st))((p, a) := None)" using s(3) that(1) by blast
      with that(2) keys have "iexact st1" by (simp add: index_exact_def st1_def)
      with x that(1) show ?thesis by (simp add: index_exact_def)
    qed
    ultimately show ?thesis using r(2) by blast
  next
    case False
    from Cons.IH [OF Cons.prems] obtain s pages where
      r: "remove_pages ops p cursor as st = Inr (st\<lparr>g_store := s, g_pages := pages\<rparr>)"
        "index_safe ok valid stored s pages"
        "\<And>k. stored s k \<noteq> stored (g_store st) k \<or> (k \<in> page_keys pages) \<noteq> (k \<in> page_keys (g_pages st)) \<Longrightarrow>
         \<exists>a\<in>set as. k = (p, a) \<and> can_remove_page a cursor"
        "\<not> fails \<longrightarrow> iexact st \<longrightarrow> iexact (st\<lparr>g_store := s, g_pages := pages\<rparr>)"
      by blast
    have "remove_pages ops p cursor (a # as) st = Inr (st\<lparr>g_store := s, g_pages := pages\<rparr>)"
      using False r(1) by auto
    moreover have "\<exists>b\<in>set (a # as). k = (p, b) \<and> can_remove_page b cursor"
      if "stored s k \<noteq> stored (g_store st) k \<or> (k \<in> page_keys pages) \<noteq> (k \<in> page_keys (g_pages st))" for k
      using r(3) [OF that] by auto
    ultimately show ?thesis using r(2,4) by blast
  qed
qed

text \<open>Nothing is assumed of page tables and buffers here: the pages only go from index and storage.\<close>

lemma remove_storage_pages_index:
  assumes ix: "index_safe ok valid stored (g_store st) (g_pages st)"
    and ga: "get_area (g_mm st) p address (g_areas st) = Inr found"
  shows "\<exists>s pages. remove_storage_pages ops p address st = Inr (st\<lparr>g_store := s, g_pages := pages\<rparr>) \<and>
      index_safe ok valid stored s pages \<and>
      (\<forall>k. stored s k \<noteq> stored (g_store st) k \<or> (k \<in> page_keys pages) \<noteq> (k \<in> page_keys (g_pages st)) \<longrightarrow>
         (\<exists>a. k = (p, a) \<and> removable (g_areas st) found address a)) \<and>
      (\<not> fails \<longrightarrow> iexact st \<longrightarrow> iexact (st\<lparr>g_store := s, g_pages := pages\<rparr>))"
proof (cases "\<exists>i pre r post. found = Some i \<and> get_region (g_areas st ! i) address = Some (pre, r, post)")
  case False
  then have "remove_storage_pages ops p address st = Inr st"
    using ga by (auto simp: remove_storage_pages_def split: option.split)
  with ix show ?thesis by (intro exI [of _ "g_store st"] exI [of _ "g_pages st"]) simp
next
  case True
  then obtain i pre r post where i: "found = Some i" "get_region (g_areas st ! i) address = Some (pre, r, post)"
    by blast
  define addrs where "addrs = page_addrs (align_floor (virtual_start r) PAGE_SHIFT)
    (align_ceil (virtual_start r + r_size r) PAGE_SHIFT)"
  from remove_pages_any [OF ix, of p "(pre, r, post)" addrs] obtain s pages where
    r: "remove_pages ops p (pre, r, post) addrs st = Inr (st\<lparr>g_store := s, g_pages := pages\<rparr>)"
      "index_safe ok valid stored s pages"
      "\<forall>k. stored s k \<noteq> stored (g_store st) k \<or> (k \<in> page_keys pages) \<noteq> (k \<in> page_keys (g_pages st)) \<longrightarrow>
         (\<exists>a\<in>set addrs. k = (p, a) \<and> can_remove_page a (pre, r, post))"
      "\<not> fails \<longrightarrow> iexact st \<longrightarrow> iexact (st\<lparr>g_store := s, g_pages := pages\<rparr>)"
    by blast
  then have "remove_storage_pages ops p address st = Inr (st\<lparr>g_store := s, g_pages := pages\<rparr>)"
    using ga i by (simp add: remove_storage_pages_def Let_def addrs_def)
  moreover have "\<forall>a. can_remove_page a (pre, r, post) \<longrightarrow> removable (g_areas st) found address a"
    using i by (auto simp: removable_def)
  ultimately show ?thesis using r(2,3,4) by (intro exI [of _ s] exI [of _ pages]) blast
qed

text \<open>What a process sees does not change where neither the storage nor the index does.\<close>

lemma same_view:
  assumes "stored s (q, a) = stored (g_store st) (q, a)" and "((q, a) \<in> page_keys pages) = ((q, a) \<in> page_keys (g_pages st))"
  shows "pview mm_of (st\<lparr>g_store := s, g_pages := pages\<rparr>) q a = pview mm_of st q a"
  using assms unfolding spi.mem_keys [symmetric] by (simp add: page_view_def spi.mem_keys split: option.split)

lemma remove_storage_pages_any:
  assumes safe: "psafe mm_of st" and ga: "get_area (g_mm st) p address (g_areas st) = Inr found"
  shows "\<exists>s pages. remove_storage_pages ops p address st = Inr (st\<lparr>g_store := s, g_pages := pages\<rparr>) \<and>
    psafe mm_of (st\<lparr>g_store := s, g_pages := pages\<rparr>) \<and>
    (\<forall>q a. q \<noteq> p \<or> \<not> removable (g_areas st) found address a \<longrightarrow>
       pview mm_of (st\<lparr>g_store := s, g_pages := pages\<rparr>) q a = pview mm_of st q a) \<and>
    (\<not> fails \<longrightarrow> iexact st \<longrightarrow> iexact (st\<lparr>g_store := s, g_pages := pages\<rparr>))"
proof -
  note P = page_safeD [OF safe]
  from remove_storage_pages_index [OF P(4) ga] obtain s pages where
    run: "remove_storage_pages ops p address st = Inr (st\<lparr>g_store := s, g_pages := pages\<rparr>)"
    and ix: "index_safe ok valid stored s pages"
    and ch: "\<And>k. stored s k \<noteq> stored (g_store st) k \<or> (k \<in> page_keys pages) \<noteq> (k \<in> page_keys (g_pages st)) \<Longrightarrow>
       \<exists>a. k = (p, a) \<and> removable (g_areas st) found address a"
    and x: "\<not> fails \<longrightarrow> iexact st \<longrightarrow> iexact (st\<lparr>g_store := s, g_pages := pages\<rparr>)"
    by blast
  have "psafe mm_of (st\<lparr>g_store := s, g_pages := pages\<rparr>)" using P ix by (simp add: page_safe_def)
  moreover have "pview mm_of (st\<lparr>g_store := s, g_pages := pages\<rparr>) q a = pview mm_of st q a"
    if "q \<noteq> p \<or> \<not> removable (g_areas st) found address a" for q a
    using ch [of "(q, a)"] that by (intro same_view) blast+
  ultimately show ?thesis using run x by (intro exI [of _ s] exI [of _ pages]) blast
qed

end

text \<open>Without failures: exactly the removable pages go.\<close>

context storage
begin

abbreviation "minv \<equiv> module_inv ok valid stored"

lemma remove_pages_spec:
  assumes "index_ok ok valid stored (g_store st) (g_pages st)"
  shows "\<exists>s pages. remove_pages ops p cursor as st = Inr (st\<lparr>g_store := s, g_pages := pages\<rparr>) \<and>
    index_ok ok valid stored s pages \<and>
    stored s = (\<lambda>k. if \<exists>a\<in>set as. k = (p, a) \<and> can_remove_page a cursor then None else stored (g_store st) k)"
  using assms
proof (induction as arbitrary: st)
  case Nil
  then show ?case by (intro exI [of _ "g_store st"] exI [of _ "g_pages st"]) simp
next
  case (Cons a as)
  show ?case
  proof (cases "is_stored_page p a (g_pages st) \<and> can_remove_page a cursor")
    case True
    have "valid a" using Cons.prems True by (force simp: index_ok_def spi.mem_keys)
    from Cons.prems have "ok (g_store st)" by (simp add: index_ok_def)
    from remove [OF this \<open>valid a\<close>, of p] obtain s where
      s: "so_remove ops p a (g_store st) = Inr s" "ok s" "stored s = (stored (g_store st))((p, a) := None)" by blast
    define st1 where "st1 = st\<lparr>g_store := s, g_pages := remove_stored_page p a (g_pages st)\<rparr>"
    have "index_ok ok valid stored (g_store st1) (g_pages st1)"
      using index_ok_remove [OF Cons.prems s(2,3)] by (simp add: st1_def)
    from Cons.IH [OF this] obtain s' pages where
      r: "remove_pages ops p cursor as st1 = Inr (st1\<lparr>g_store := s', g_pages := pages\<rparr>)"
        "index_ok ok valid stored s' pages"
        "stored s' = (\<lambda>k. if \<exists>a\<in>set as. k = (p, a) \<and> can_remove_page a cursor then None else stored (g_store st1) k)"
      by blast
    have "remove_pages ops p cursor (a # as) st = Inr (st\<lparr>g_store := s', g_pages := pages\<rparr>)"
      using True s(1) r(1) by (simp add: st1_def)
    with r(2,3) s(3) True show ?thesis by (intro exI [of _ s'] exI [of _ pages]) (auto simp: st1_def)
  next
    case False
    have gone: "stored (g_store st) (p, a) = None" if "can_remove_page a cursor"
      using False that Cons.prems by (auto simp: index_ok_def spi.mem_keys)
    from Cons.IH [OF Cons.prems] False obtain s' pages where
      r: "remove_pages ops p cursor (a # as) st = Inr (st\<lparr>g_store := s', g_pages := pages\<rparr>)"
        "index_ok ok valid stored s' pages"
        "stored s' = (\<lambda>k. if \<exists>a\<in>set as. k = (p, a) \<and> can_remove_page a cursor then None else stored (g_store st) k)"
      by auto
    with gone show ?thesis by (intro exI [of _ s'] exI [of _ pages]) auto
  qed
qed

end

section \<open>Closing an empty area\<close>

lemma find_area_distinct:
  "distinct (map a_vma as) \<Longrightarrow> i < length as \<Longrightarrow> a_vma (as ! i) = Some v \<Longrightarrow> find_area v as = Some i"
proof (induction as arbitrary: i)
  case (Cons a as)
  show ?case
  proof (cases i)
    case (Suc j)
    have "a_vma (as ! j) \<in> set (map a_vma as)" using Cons.prems(2) Suc by simp
    then have "a_vma a \<noteq> Some v" using Cons.prems(1,3) Suc by auto
    moreover have "find_area v as = Some j" using Cons.prems Suc by (intro Cons.IH) simp_all
    ultimately show ?thesis using Suc by simp
  qed (use Cons.prems in simp)
qed simp

text \<open>The state without area \<open>i\<close>, its VMA, and the buffer of \<open>p\<close> when this was its last area.\<close>

definition without_area :: "nat \<Rightarrow> pid_t \<Rightarrow> vid \<Rightarrow> vm_area \<Rightarrow> pmem \<Rightarrow> 's gstate \<Rightarrow> 's gstate" where
  "without_area i p v vma M st =
     (let areas = take i (g_areas st) @ drop (Suc i) (g_areas st); m = vm_mm vma; V = g_mm st; lastone = (get_area_count p areas = 0)
      in st\<lparr>g_mm := V\<lparr>mmap := (mmap V)(m := remove1 v (mmap V m)), vmas := (vmas V)(v := None)\<rparr>,
            g_pt := unmap_range (g_pt st) m (vm_start vma) (vm_end vma - vm_start vma), g_areas := areas,
            g_mem := (if lastone then M else g_mem st), g_bufs := (if lastone then drop_buffer p (g_bufs st) else g_bufs st)\<rparr>)"

context page_store
begin

text \<open>
  The area at \<open>i\<close> has no region left.  The VMA goes away and with it the area, and the buffer of
  the process when this was its last area; what the buffer records of the VMA stays.
\<close>

lemma unmap_area_run:
  assumes inv: "msafe mm_of st" and env: "robust E"
    and i: "i < length (g_areas st)" "a_vma (g_areas st ! i) = Some v" "regions (g_areas st ! i) = []"
      "a_pid (g_areas st ! i) = p"
  obtains vma M where "vmas (g_mm st) v = Some vma" "v \<in> set (mmap (g_mm st) (mm_of p))" "vm_mm vma = mm_of p"
    "vm_start vma < vm_end vma"
    "content M = content (g_mem st)" "next_frame M = next_frame (g_mem st)" "buffers_ok M (drop_buffer p (g_bufs st))"
    "kbind (remove_vma E (g_mm st) (g_pt st) (Some v)) (\<lambda>(V, pt, closed).
       close_all ops closed (st\<lparr>g_mm := V, g_pt := pt\<rparr>)) = Inr (without_area i p v vma M st)"
proof -
  note D = module_safeD [OF inv]
  note P = page_safeD [OF D(4)]
  let ?as = "g_areas st"
  let ?V = "g_mm st"
  have ai: "?as ! i \<in> set ?as" using i(1) by simp
  then have "area_ok ?V (?as ! i)" "home_ok mm_of ?V (?as ! i)"
    using D(2,3) by (simp_all add: areas_ok_def homes_ok_def)
  then obtain vma where vma: "vmas ?V v = Some vma" "v \<in> set (mmap ?V (mm_of p))" "vm_mm vma = mm_of p"
    "vm_start vma < vm_end vma"
    using i(2,4) by (auto elim!: area_okE simp: home_ok_def)
  have wf: "mm_wf ?V (mm_of p)" using D(1) by (simp add: spaces_ok_def)
  have rm: "remove_vma E ?V (g_pt st) (Some v) = Inr (?V\<lparr>mmap := (mmap ?V)(mm_of p := remove1 v (mmap ?V (mm_of p)))\<rparr>,
      unmap_range (g_pt st) (mm_of p) (vm_start vma) (vm_end vma - vm_start vma), [v])"
    by (rule remove_vma_exact [OF _ wf vma(2,1,4)]) (use env in \<open>simp_all add: robust_def\<close>)
  have find: "find_area v ?as = Some i"
    using D(2) i by (intro find_area_distinct) (simp_all add: areas_ok_def)
  obtain M where M: "remove_buffer p (g_mem st) (g_bufs st) = Inr (M, drop_buffer p (g_bufs st))"
    "content M = content (g_mem st)" "next_frame M = next_frame (g_mem st)" "buffers_ok M (drop_buffer p (g_bufs st))"
    using remove_buffer_ok [OF P(1), of p] by blast
  have "kbind (remove_vma E ?V (g_pt st) (Some v)) (\<lambda>(V, pt, closed).
       close_all ops closed (st\<lparr>g_mm := V, g_pt := pt\<rparr>)) = Inr (without_area i p v vma M st)"
    using find i(3,4) M(1)
    by (simp add: rm generic_malloc_vm_close_def close_vma_def Let_def without_area_def vma(3))
  then show thesis by (rule that [OF vma M(2-4)])
qed

text \<open>When no page of the process is mapped nothing dangles.\<close>

lemma unmap_area:
  assumes inv: "msafe mm_of st" and inj: "inj mm_of" and env: "robust E"
    and i: "i < length (g_areas st)" "a_vma (g_areas st ! i) = Some v" "regions (g_areas st ! i) = []"
      "a_pid (g_areas st ! i) = p"
    and free: "\<And>b. buffer_of p (g_bufs st) = Some b \<Longrightarrow> b_vma b = None \<and> b_cache_vma b = None"
  obtains st' where
    "kbind (remove_vma E (g_mm st) (g_pt st) (Some v)) (\<lambda>(V, pt, closed).
       close_all ops closed (st\<lparr>g_mm := V, g_pt := pt\<rparr>)) = Inr st'"
    "msafe mm_of st'" "live (g_areas st') = live (g_areas st)" "iexact st' = iexact st"
    "\<And>q a. q \<noteq> p \<or> (\<forall>vma. vmas (g_mm st) v = Some vma \<longrightarrow> \<not> (vm_start vma \<le> a \<and> a < vm_end vma)) \<Longrightarrow>
       pview mm_of st' q a = pview mm_of st q a"
proof -
  note D = module_safeD [OF inv]
  note P = page_safeD [OF D(4)]
  let ?as = "g_areas st"
  let ?V = "g_mm st"
  obtain vma M where vma: "vmas ?V v = Some vma" "v \<in> set (mmap ?V (mm_of p))" "vm_mm vma = mm_of p"
      "vm_start vma < vm_end vma"
    and M: "content M = content (g_mem st)" "next_frame M = next_frame (g_mem st)" "buffers_ok M (drop_buffer p (g_bufs st))"
    and run: "kbind (remove_vma E ?V (g_pt st) (Some v)) (\<lambda>(V, pt, closed).
       close_all ops closed (st\<lparr>g_mm := V, g_pt := pt\<rparr>)) = Inr (without_area i p v vma M st)"
    using unmap_area_run [OF inv env i] by metis
  define st' where "st' = without_area i p v vma M st"
  define V2 where "V2 = ?V\<lparr>mmap := (mmap ?V)(mm_of p := remove1 v (mmap ?V (mm_of p))), vmas := (vmas ?V)(v := None)\<rparr>"
  define pt where "pt = unmap_range (g_pt st) (mm_of p) (vm_start vma) (vm_end vma - vm_start vma)"
  define areas where "areas = take i ?as @ drop (Suc i) ?as"
  note w = without_area_def [of i p v vma M st, folded st'_def, unfolded vma(3), folded areas_def V2_def pt_def, unfolded Let_def]
  have st': "g_mm st' = V2" "g_pt st' = pt" "g_areas st' = areas" "content (g_mem st') = content (g_mem st)"
    "next_frame (g_mem st') = next_frame (g_mem st)" "g_pages st' = g_pages st" "g_store st' = g_store st"
    using M(1,2) by (simp_all add: w V2_def pt_def areas_def)
  have bufs: "buffer_of q (g_bufs st) = Some c" if "buffer_of q (g_bufs st') = Some c" for q c
    using that P(1) by (auto simp: w bt.lookup_del buffers_ok_def split: if_splits)
  have b_ok: "buffers_ok (g_mem st') (g_bufs st')"
    using M(3) P(1) by (simp add: w)
  have pt_sub: "g_pt st k = Some f" if "pt k = Some f" for k f
    using that unfolding pt_def by (rule unmap_range_sub)
  have pt_keep: "pt (mm_of q, a) = g_pt st (mm_of q, a)"
    if "q \<noteq> p \<or> \<not> (vm_start vma \<le> a \<and> a < vm_end vma)" for q a
    unfolding pt_def using that inj by (intro unmap_range_keep [OF vma(4)]) (auto dest: injD)
  have sl: "slots_ok mm_of valid V2 pt c" if c: "buffer_of q (g_bufs st') = Some c" for q c
  proof (cases "q = p")
    case True
    with free bufs [OF c] show ?thesis by (simp add: slots_ok_def slot_ok_def)
  next
    case False
    then have "mm_of (b_pid c) \<noteq> mm_of p" using bt.lookup_key [OF bufs [OF c]] inj by (auto dest: injD)
    then show ?thesis
      using P(2) [OF bufs [OF c]] slot_ok_unmap [OF _ vma(1) _ vma(4), where mm_of = mm_of and pt = "g_pt st" and p = "b_pid c"]
      by (simp add: slots_ok_def V2_def pt_def vma(3))
  qed
  have mo: "mappings_ok mm_of pt (g_mem st') (g_bufs st')"
  proof (rule mappings_okI)
    fix k f q c
    assume k: "pt k = Some f"
    then show "f < next_frame (g_mem st')" using mappings_okD(1) [OF P(3) pt_sub] st' by simp
    assume "buffer_of q (g_bufs st') = Some c" "f \<in> set (frames_of c)"
    then show "maps_at mm_of c f k" using mappings_okD(2) [OF P(3) pt_sub [OF k] bufs] by blast
  qed
  have "psafe mm_of st'" using b_ok sl mo P(4) by (simp add: page_safe_def st')
  moreover have "spaces_ok V2" unfolding V2_def by (rule spaces_ok_unmap [OF D(1) vma(1,2)])
  moreover have "areas_ok V2 areas" "homes_ok mm_of V2 areas"
    unfolding V2_def areas_def by (rule areas_ok_unmap [OF D(2,3) i(1,2)])+
  ultimately have inv': "msafe mm_of st'" by (simp add: module_safe_def st')
  have "live ?as = live (take i ?as) @ live [?as ! i] @ live (drop (Suc i) ?as)"
    using id_take_nth_drop [OF i(1)] by (metis append_Cons append_Nil live_simps(3))
  then have "live areas = live ?as" using i(3) by (simp add: areas_def)
  moreover have "pview mm_of st' q a = pview mm_of st q a"
    if "q \<noteq> p \<or> (\<forall>vma. vmas ?V v = Some vma \<longrightarrow> \<not> (vm_start vma \<le> a \<and> a < vm_end vma))" for q a
    using pt_keep [of q a] that vma(1) by (simp add: page_view_def st' split: option.split)
  ultimately show thesis by (intro that [OF run [folded st'_def] inv']) (simp_all add: st' index_exact_def)
qed

section \<open>Freeing\<close>

text \<open>
  \<open>e\<close> is the error code of the first step, which \<open>generic_free\<close> ignores.  Freeing is sound unless that
  step failed and the region was the last of its VMA.
\<close>

lemma free_any:
  assumes safe: "msafe mm_of st" and inj: "inj mm_of" and R: "robust E" and p: "p = t_pid cur"
    and ga: "get_area (g_mm st) p ptr (g_areas st) = Inr found"
    and rr: "remove_region (g_mm st) p ptr (g_areas st) = Inr (as', cl)"
    and u0: "unmap_page E ops p False st = Inr (e, st1)" and sound: "e = 0 \<or> cl = None"
  shows "\<exists>st'. generic_free E ops cur ptr st = Inr st' \<and> msafe mm_of st' \<and> live (g_areas st') = live as' \<and>
    (\<forall>q a. q \<noteq> p \<or> (\<not> removable (g_areas st) found ptr a \<and>
        (\<forall>v vma. cl = Some (Some v) \<longrightarrow> vmas (g_mm st) v = Some vma \<longrightarrow> \<not> (vm_start vma \<le> a \<and> a < vm_end vma))) \<longrightarrow>
       pview mm_of st' q a = pview mm_of st q a) \<and>
    (\<not> fails \<and> env_ok E \<longrightarrow> iexact st \<longrightarrow> iexact st')"
proof -
  note D = module_safeD [OF safe]
  have surv: "survivable E" using R by (simp add: robust_def)
  have um: "unmapped mm_of E st e st1"
    and free: "e = 0 \<Longrightarrow> \<forall>b. buffer_of p (g_bufs st1) = Some b \<longrightarrow> b_vma b = None \<and> b_cache_vma b = None"
    by (rule unmap_page_all [OF D(4) inj surv, of p], use u0 in simp)+
  from um have u: "psafe mm_of st1" "pview mm_of st1 = pview mm_of st" "g_mm st1 = g_mm st" "g_areas st1 = g_areas st"
    "\<not> fails \<and> env_ok E \<longrightarrow> iexact st \<longrightarrow> iexact st1" by (simp_all add: unmapped_def)
  have "get_area (g_mm st1) p ptr (g_areas st1) = Inr found" using ga u(3,4) by simp
  from remove_storage_pages_any [OF u(1) this] obtain s pages where
    r: "remove_storage_pages ops p ptr st1 = Inr (st1\<lparr>g_store := s, g_pages := pages\<rparr>)"
    "psafe mm_of (st1\<lparr>g_store := s, g_pages := pages\<rparr>)"
    "\<forall>q a. q \<noteq> p \<or> \<not> removable (g_areas st) found ptr a \<longrightarrow>
       pview mm_of (st1\<lparr>g_store := s, g_pages := pages\<rparr>) q a = pview mm_of st1 q a"
    "\<not> fails \<longrightarrow> iexact st1 \<longrightarrow> iexact (st1\<lparr>g_store := s, g_pages := pages\<rparr>)"
    unfolding u(4) by blast
  obtain cl' as'' where sh: "remove_region (g_mm st) p ptr (g_areas st) = Inr (as'', cl')" "areas_ok (g_mm st) as''"
    "homes_ok mm_of (g_mm st) as''"
    "cl' = None \<or> (\<exists>i v. cl' = Some (Some v) \<and> i < length as'' \<and> a_vma (as'' ! i) = Some v \<and>
       regions (as'' ! i) = [] \<and> a_pid (as'' ! i) = p)"
    by (rule remove_region_shape [OF D(2,3), of p ptr]) blast
  with rr have eq: "as'' = as'" "cl' = cl" by simp_all
  define st3 where "st3 = st1\<lparr>g_store := s, g_pages := pages, g_areas := as'\<rparr>"
  have st3: "g_mm st3 = g_mm st" "g_areas st3 = as'" "g_bufs st3 = g_bufs st1"
    by (simp_all add: st3_def u(3))
  have x3: "\<not> fails \<and> env_ok E \<longrightarrow> iexact st \<longrightarrow> iexact st3"
    using u(5) r(4) by (simp add: index_exact_def st3_def)
  have p3: "psafe mm_of st3" using r(2) by (simp add: page_safe_def st3_def)
  then have safe3: "msafe mm_of st3" using D(1) sh(2,3) by (simp add: module_safe_def st3 eq)
  have v3: "pview mm_of st3 q a = pview mm_of st q a" if "q \<noteq> p \<or> \<not> removable (g_areas st) found ptr a" for q a
  proof -
    have "pview mm_of st3 q a = pview mm_of (st1\<lparr>g_store := s, g_pages := pages\<rparr>) q a"
      by (simp add: page_view_def st3_def split: option.split)
    also have "\<dots> = pview mm_of st q a" using r(3) that u(2) by simp
    finally show ?thesis .
  qed
  have run: "generic_free E ops cur ptr st =
      (case cl of None \<Rightarrow> Inr st3
       | Some vma \<Rightarrow> kbind (remove_vma E (g_mm st3) (g_pt st3) vma) (\<lambda>(V, pt, closed).
             close_all ops closed (st3\<lparr>g_mm := V, g_pt := pt\<rparr>)))"
    using u0 u(3,4) r(1) rr
    by (simp add: generic_free_def p [symmetric] st3_def Let_def split: option.split)
  show ?thesis
  proof (cases cl)
    case None
    then show ?thesis using run safe3 v3 x3 by (intro exI [of _ st3]) (simp add: st3)
  next
    case (Some c)
    with sh(4) eq obtain i v where i: "cl = Some (Some v)" "i < length as'" "a_vma (as' ! i) = Some v"
      "regions (as' ! i) = []" "a_pid (as' ! i) = p" by auto
    have free3: "b_vma b = None \<and> b_cache_vma b = None" if "buffer_of p (g_bufs st3) = Some b" for b
      using free sound Some that by (simp add: st3)
    obtain st' where a: "kbind (remove_vma E (g_mm st3) (g_pt st3) (Some v)) (\<lambda>(V, pt, closed).
             close_all ops closed (st3\<lparr>g_mm := V, g_pt := pt\<rparr>)) = Inr st'" "msafe mm_of st'"
      "live (g_areas st') = live (g_areas st3)" "iexact st' = iexact st3"
      "\<And>q a. q \<noteq> p \<or> (\<forall>vma. vmas (g_mm st3) v = Some vma \<longrightarrow> \<not> (vm_start vma \<le> a \<and> a < vm_end vma)) \<Longrightarrow>
         pview mm_of st' q a = pview mm_of st3 q a"
      using unmap_area [OF safe3 inj R, of i v p] i free3 unfolding st3 by metis
    have "generic_free E ops cur ptr st = Inr st'" using run i(1) a(1) by simp
    with a v3 x3 i(1) show ?thesis by (intro exI [of _ st']) (auto simp: st3)
  qed
qed

end

section \<open>Without failures\<close>

context storage
begin

lemma malloc_spec:
  assumes inv: "minv mm_of st" and inj: "inj mm_of" and env: "env_ok E"
    and cur: "t_mm cur = mm_of (t_pid cur)" and bd: "bounded (g_mm st) sz" and sz: "0 < sz"
  obtains (granted) V as r st' us ws where
      "create_region E (g_mm st) sz cur (g_areas st) module_vm_ops = Inr (V, as, Some r)"
      "generic_malloc E ops cur sz st = Inr (virtual_start r, st')" "minv mm_of st'"
      "pview mm_of st' = pview mm_of st" "r_size r = sz" "r_free r = 0"
      "live (g_areas st) = us @ ws" "live (g_areas st') = us @ (t_pid cur, r) # ws"
      "grows (g_mm st) (g_mm st')"
  | (refused) V as st' where
      "create_region E (g_mm st) sz cur (g_areas st) module_vm_ops = Inr (V, as, None)"
      "generic_malloc E ops cur sz st = Inr (0, st')"
      "pview mm_of st' = pview mm_of st" "live (g_areas st') = live (g_areas st)"
proof -
  note S = inv [unfolded module_inv_safe]
  from conjunct1 [OF S] inj env_ok_robust [OF env] cur bd sz show thesis
  proof (cases rule: sound.malloc_any)
    case (made V as r ptr st' us ws)
    from made(11) env S have "ptr = virtual_start r" "index_exact stored st'" by simp_all
    with made show thesis by (intro granted) (simp_all add: module_inv_safe)
  next
    case (refused V as st')
    then show thesis by (rule that(2))
  qed
qed

lemma free_spec:
  assumes inv: "minv mm_of st" and inj: "inj mm_of" and env: "env_ok E" and p: "p = t_pid cur"
    and ga: "get_area (g_mm st) p ptr (g_areas st) = Inr found"
    and rr: "remove_region (g_mm st) p ptr (g_areas st) = Inr (as', cl)"
  obtains st' where "generic_free E ops cur ptr st = Inr st'" "minv mm_of st'"
    "live (g_areas st') = live as'"
    "\<And>q a. q \<noteq> p \<or> (\<not> removable (g_areas st) found ptr a \<and>
        (\<forall>v vma. cl = Some (Some v) \<longrightarrow> vmas (g_mm st) v = Some vma \<longrightarrow> \<not> (vm_start vma \<le> a \<and> a < vm_end vma))) \<Longrightarrow>
       pview mm_of st' q a = pview mm_of st q a"
proof -
  note S = inv [unfolded module_inv_safe]
  obtain st1 where u: "unmap_page E ops p False st = Inr (0, st1)"
    using unmap_page_both [OF module_invD(4) [OF inv] inj env] by metis
  from sound.free_any [OF conjunct1 [OF S] inj env_ok_robust [OF env] p ga rr u] env S that
  show thesis by (auto simp: module_inv_safe)
qed

end

end
