(* ===== verification/Sharing.thy ===== *)
theory Sharing
  imports MallocFree
begin

text \<open>
  Regions share pages: \<open>can_remove_page\<close> decides whether a stored page may go with the region
  that is freed.  What it lets go belongs to no other region in use.
\<close>

section \<open>Pages of a region\<close>

text \<open>The test of \<open>is_valid_address\<close> for one region.\<close>

definition on_page :: "region_struct \<Rightarrow> u64 \<Rightarrow> bool" where
  "on_page r a \<longleftrightarrow> align_floor (virtual_start r) PAGE_SHIFT \<le> a \<and>
     a < align_ceil (virtual_start r + r_size r) PAGE_SHIFT"

lemma scan_used_first:
  assumes "x \<in> set xs" and "r_free x = 0"
  obtains us ws where "xs = us @ scan_used c xs # ws" "\<forall>u\<in>set us. r_free u \<noteq> 0" "r_free (scan_used c xs) = 0"
proof -
  have "\<exists>us ws. xs = us @ scan_used c xs # ws \<and> (\<forall>u\<in>set us. r_free u \<noteq> 0) \<and> r_free (scan_used c xs) = 0"
    using assms(1)
  proof (induction xs arbitrary: c)
    case (Cons y ys)
    show ?case
    proof (cases "r_free y = 0")
      case True
      then show ?thesis by (intro exI [of _ "[]"] exI [of _ ys]) simp
    next
      case False
      with assms(2) Cons.prems have "x \<in> set ys" by auto
      from Cons.IH [OF this, of y] obtain us ws where
        "ys = us @ scan_used y ys # ws" "\<forall>u\<in>set us. r_free u \<noteq> 0" "r_free (scan_used y ys) = 0" by blast
      then show ?thesis using False by (intro exI [of _ "y # us"] exI [of _ ws]) simp
    qed
  qed simp
  then show thesis using that by blast
qed

lemma round_up_mono: "m \<le> n \<Longrightarrow> round_up s m \<le> round_up s n"
  using round_up_ge [of n s] by (intro round_up_least) auto

lemma can_remove_page_no_other:
  assumes t: "tiled b (pre @ r # post)" and nw: "unat b + bytes (pre @ r # post) \<le> 18446744073709547520"
    and a: "unat a + 4096 < 2 ^ 64" and can: "can_remove_page a (pre, r, post)"
    and x: "x \<in> set (used pre) \<union> set (used post)"
  shows "\<not> on_page x a"
proof -
  let ?rs = "pre @ r # post"
  have nw': "unat b + bytes ?rs < 2 ^ 64" using nw by simp
  note bd = tiled_bounds [OF t nw']
  have srt: "sorted_wrt (\<lambda>x y. r_end x \<le> unat (virtual_start y)) ?rs" by (rule tiled_sorted [OF t nw'])
  have ende: "unat (virtual_start y + r_size y) = r_end y" "r_end y \<le> 18446744073709547520" if "y \<in> set ?rs" for y
    using bd [OF that] nw by (auto simp: r_end_def intro!: unat_plus_no_wrap)
  have ceil: "unat (align_ceil (virtual_start y + r_size y) PAGE_SHIFT) = round_up 12 (r_end y)" if "y \<in> set ?rs" for y
    using ende [OF that] by (subst unat_align_ceil_page) simp_all
  from x consider "x \<in> set pre" "r_free x = 0" | "x \<in> set post" "r_free x = 0"
    by (auto simp: used_def)
  then show ?thesis
  proof cases
    case 1
    define y where "y = scan_used r (rev pre)"
    have "x \<in> set (rev pre)" using 1(1) by simp
    from scan_used_first [OF this 1(2), of r] obtain us ws where
      y: "rev pre = us @ y # ws" "\<forall>u\<in>set us. r_free u \<noteq> 0" unfolding y_def by metis
    then have pre: "pre = rev ws @ y # rev us" by (metis rev_append rev_rev_ident rev.simps(2) append_assoc append_Cons append_Nil)
    have "x = y \<or> x \<in> set ws" using 1 y by (metis Un_iff set_ConsD set_append set_rev)
    then have "r_end x \<le> r_end y"
      using srt unfolding pre by (auto simp: sorted_wrt_append r_end_def)
    moreover have "align_ceil (virtual_start y + r_size y) PAGE_SHIFT \<le> a"
      using can 1(1) by (auto simp: can_remove_page_def y_def Let_def not_less split: if_splits)
    moreover have "x \<in> set ?rs" "y \<in> set ?rs" using 1(1) by (auto simp: pre)
    ultimately have "align_ceil (virtual_start x + r_size x) PAGE_SHIFT \<le> a"
      using round_up_mono [of "r_end x" "r_end y" 12] by (simp add: word_le_nat_alt ceil)
    then show ?thesis by (auto simp: on_page_def)
  next
    case 2
    define y where "y = scan_used r post"
    from scan_used_first [OF 2, of r] obtain us ws where
      y: "post = us @ y # ws" "\<forall>u\<in>set us. r_free u \<noteq> 0" unfolding y_def by metis
    have "x = y \<or> x \<in> set ws" using 2 y by auto
    then have le: "unat (virtual_start y) \<le> unat (virtual_start x)"
      using srt unfolding y(1) by (auto simp: sorted_wrt_append r_end_def)
    have "post \<noteq> []" using 2(1) by auto
    then have "\<not> align_floor (virtual_start y) PAGE_SHIFT < a + PAGE_SIZE"
      using can by (auto simp: can_remove_page_def y_def Let_def split: if_splits)
    moreover have "unat (a + PAGE_SIZE) = unat a + 4096"
      using a by (subst unat_plus_no_wrap) (simp_all add: PAGE_SIZE_def)
    ultimately have "unat a + 4096 \<le> unat (virtual_start y) div 4096 * 4096"
      by (simp add: word_less_nat_alt not_less unat_align_floor_page)
    also have "\<dots> \<le> unat (virtual_start x) div 4096 * 4096"
      using le by (intro mult_le_mono1 div_le_mono)
    finally show ?thesis
      by (auto simp: on_page_def word_le_nat_alt unat_align_floor_page)
  qed
qed

text \<open>
  The loop over the pages of a region: from one page boundary to another it never wraps around
  and visits each page once.
\<close>

lemma page_step:
  assumes "4096 dvd unat lo" and "4096 dvd unat fin" and "lo < (fin :: u64)"
  shows "unat (lo + PAGE_SIZE) = unat lo + 4096" and "lo < lo + PAGE_SIZE" and "lo + PAGE_SIZE \<le> fin"
proof -
  have lt: "unat lo < unat fin" using assms(3) by (simp add: word_less_nat_alt)
  with assms(1,2) have le: "unat lo + 4096 \<le> unat fin" by (auto elim!: dvdE)
  then show u: "unat (lo + PAGE_SIZE) = unat lo + 4096"
    using unat64_bound [of fin] by (subst unat_plus_no_wrap) (simp_all add: PAGE_SIZE_def)
  show "lo < lo + PAGE_SIZE" and "lo + PAGE_SIZE \<le> fin"
    using le by (simp_all add: word_less_nat_alt word_le_nat_alt u)
qed

lemma page_addrs_mem:
  assumes "4096 dvd unat lo" and "4096 dvd unat fin"
  shows "a \<in> set (page_addrs lo fin) \<longleftrightarrow> lo \<le> a \<and> a < fin \<and> 4096 dvd unat a"
  using assms
proof (induction lo fin rule: page_addrs.induct)
  case (1 lo fin)
  show ?case
  proof (cases "lo < fin")
    case True
    note st = page_step [OF 1(2,3) True]
    have "4096 dvd unat (lo + PAGE_SIZE)" using 1(2) st(1) by simp
    from 1(1) [OF True st(2) this 1(3)] have IH: "a \<in> set (page_addrs (lo + PAGE_SIZE) fin) \<longleftrightarrow>
        unat lo + 4096 \<le> unat a \<and> a < fin \<and> 4096 dvd unat a"
      by (simp add: word_le_nat_alt st(1))
    have "page_addrs lo fin = lo # page_addrs (lo + PAGE_SIZE) fin"
      using True st(2) by (subst page_addrs.simps) simp
    moreover have "lo \<le> a \<and> 4096 dvd unat a \<longleftrightarrow> a = lo \<or> (unat lo + 4096 \<le> unat a \<and> 4096 dvd unat a)"
      using 1(2) by (auto simp: word_le_nat_alt word_unat_eq_iff elim!: dvdE)
    ultimately show ?thesis using IH True by auto
  next
    case False
    then show ?thesis by (subst page_addrs.simps) auto
  qed
qed

end
