(* ===== verification/Owners.thy ===== *)
theory Owners
  imports MallocFree
begin

text \<open>
  Who owns a buffer: every buffer in the table belongs to a process that has an area.  This is what
  lets the module forget a process when the last of its VMAs is closed.  It is a fact about the
  two lists alone, so the lemmas follow the code and need neither the page tables nor the storage.
\<close>

definition bufs_owned :: "'s gstate \<Rightarrow> bool" where
  "bufs_owned st \<longleftrightarrow> b_pid ` set (g_bufs st) \<subseteq> a_pid ` set (g_areas st)"

lemma map_update_same: "f y = f (xs ! i) \<Longrightarrow> map f (xs[i := y]) = map f xs"
  by (cases "i < length xs") (simp_all add: map_update list_update_same_conv list_update_beyond)

text \<open>The pids of the buffers and of the areas, in the order of the lists.\<close>

abbreviation buf_pids :: "'s gstate \<Rightarrow> pid_t list" where
  "buf_pids st \<equiv> map b_pid (g_bufs st)"

abbreviation area_pids :: "'s gstate \<Rightarrow> pid_t list" where
  "area_pids st \<equiv> map a_pid (g_areas st)"

lemma bufs_owned_pids: "bufs_owned st \<longleftrightarrow> set (buf_pids st) \<subseteq> set (area_pids st)"
  by (simp add: bufs_owned_def)

section \<open>Paging\<close>

lemma copy_page_frame:
  "copy_page_from_user E ops p a v st = Inr (e, st') \<Longrightarrow> g_bufs st' = g_bufs st \<and> g_areas st' = g_areas st"
  by (auto simp: copy_page_from_user_def Let_def split: option.splits if_splits prod.splits sum.splits elim!: kbind_InrE)

lemma remove_user_page_frame:
  "remove_user_page E a v st = Inr (e, st') \<Longrightarrow> g_bufs st' = g_bufs st \<and> g_areas st' = g_areas st"
  by (auto simp: remove_user_page_def split: if_splits elim!: kbind_InrE)

lemma unmap_buffer_frame:
  assumes "unmap_buffer E ops i st = Inr (e, st')"
  shows "buf_pids st' = buf_pids st \<and> g_areas st' = g_areas st"
  using assms
  by (auto simp: unmap_buffer_def Let_def map_update_same split: if_splits elim!: kbind_InrE
      dest!: copy_page_frame remove_user_page_frame)

lemma swap_at_frame [simp]: "buf_pids (swap_at i st) = buf_pids st" "g_areas (swap_at i st) = g_areas st"
  by (simp_all add: swap_at_def map_update_same)

lemma unmap_page_frame:
  assumes "unmap_page E ops p cache st = Inr (e, st')"
  shows "buf_pids st' = buf_pids st \<and> g_areas st' = g_areas st"
  using assms
  by (auto simp: unmap_page_def split: option.splits if_splits elim!: kbind_InrE dest!: unmap_buffer_frame)

lemma map_page_frame:
  assumes "map_page E ops p a v st = Inr (res, st')"
  shows "(buf_pids st' = buf_pids st \<or> buf_pids st' = buf_pids st @ [p]) \<and> g_areas st' = g_areas st"
  using assms
  by (auto simp: map_page_def Let_def add_buffer_def map_update_same nth_append list_update_append
      split: option.splits if_splits prod.splits elim!: kbind_InrE)

lemma vm_fault_frame:
  assumes "generic_malloc_vm_fault E ops cur v a st = Inr (res, st')"
  shows "(buf_pids st' = buf_pids st \<or> buf_pids st' = buf_pids st @ [t_pid cur]) \<and> g_areas st' = g_areas st"
  using assms
  by (fastforce simp: generic_malloc_vm_fault_def generic_malloc_get_page_def
      split: option.splits if_splits elim!: kbind_InrE dest!: unmap_page_frame map_page_frame)

section \<open>Areas\<close>

lemma scan_areas_frame:
  "scan_areas sz p V as = Inr (V', as', found) \<Longrightarrow> map a_pid as' = map a_pid as"
  by (induction as arbitrary: V' as' found)
    (auto simp: Let_def extend_vma_def split: if_splits elim!: kbind_InrE)

lemma add_region_after_frame:
  "add_region_after ok V a front post sz = Inr (a', r) \<Longrightarrow> a_pid a' = a_pid a"
  by (auto simp: add_region_after_def Let_def split: if_splits elim!: kbind_InrE)

lemma merge_neighbors_frame:
  "merge_neighbors_region a pre r post = Inr a' \<Longrightarrow> a_pid a' = a_pid a \<and> a_vma a' = a_vma a"
  by (auto simp: merge_neighbors_region_def split: if_splits prod.splits)

lemma get_free_region_frame:
  "get_free_region_loop E V a sz pre post = Inr (a', r) \<Longrightarrow> a_pid a' = a_pid a"
  by (induction E V a sz pre post arbitrary: a' r rule: get_free_region_loop.induct)
    (auto simp: Let_def split: if_splits option.splits elim!: kbind_InrE
      dest!: add_region_after_frame merge_neighbors_frame)

lemma add_region_frame:
  "add_region E V a sz = Inr (a', r) \<Longrightarrow> a_pid a' = a_pid a"
  by (auto simp: add_region_def get_free_region_def split: option.splits elim!: kbind_InrE
      dest!: add_region_after_frame get_free_region_frame)

lemma create_region_frame:
  assumes "create_region E V sz cur as ops = Inr (V', as', r)"
  shows "set (map a_pid as) \<subseteq> set (map a_pid as')"
proof -
  obtain V1 as1 found where c: "get_area_container E V sz cur as ops = Inr (V1, as1, found)"
    and r: "(case found of None \<Rightarrow> Inr (V1, as1, None)
       | Some i \<Rightarrow> kbind (add_region E V1 (as1 ! i) sz) (\<lambda>(a, region). Inr (V1, as1[i := a], region))) = Inr (V', as', r)"
    using assms by (auto simp: create_region_def elim!: kbind_InrE)
  have "map a_pid as1 = map a_pid as \<or> (\<exists>p. map a_pid as1 = map a_pid as @ [p])"
    using c by (auto simp: get_area_container_def Let_def split: option.splits elim!: kbind_InrE dest!: scan_areas_frame)
  moreover have "map a_pid as' = map a_pid as1"
    using r by (auto simp: map_update_same split: option.splits elim!: kbind_InrE dest!: add_region_frame)
  ultimately show ?thesis by (elim disjE exE) auto
qed

lemma remove_region_frame:
  assumes "remove_region V p a as = Inr (as', cl)"
  shows "map a_pid as' = map a_pid as"
  using assms
  by (auto simp: remove_region_def Let_def map_update_same split: option.splits elim!: kbind_InrE
      dest!: merge_neighbors_frame)

section \<open>Closing\<close>

lemma remove_pages_frame:
  "remove_pages ops p c as st = Inr st' \<Longrightarrow> g_bufs st' = g_bufs st \<and> g_areas st' = g_areas st"
proof (induction as arbitrary: st)
  case (Cons a as)
  from Cons.prems obtain st1 where "remove_pages ops p c as st1 = Inr st'" "g_bufs st1 = g_bufs st" "g_areas st1 = g_areas st"
    by (auto split: if_splits elim!: kbind_InrE)
  with Cons.IH show ?case by simp
qed simp

lemma remove_storage_pages_frame:
  "remove_storage_pages ops p a st = Inr st' \<Longrightarrow> g_bufs st' = g_bufs st \<and> g_areas st' = g_areas st"
  by (auto simp: remove_storage_pages_def Let_def split: option.splits elim!: kbind_InrE dest!: remove_pages_frame)

lemma close_regions_frame:
  "close_regions ops i rs st = Inr st' \<Longrightarrow> g_bufs st' = g_bufs st \<and> area_pids st' = area_pids st"
  by (induction rs arbitrary: st) (auto simp: map_update_same elim!: kbind_InrE dest!: remove_storage_pages_frame)

lemma get_area_count_none: "get_area_count p as = 0 \<longleftrightarrow> p \<notin> set (map a_pid as)"
  by (induction as) auto

lemma remove_buffer_frame:
  assumes "remove_buffer p M bs = Inr (M', bs')" and "distinct (map b_pid bs)"
  shows "set (map b_pid bs') = set (map b_pid bs) - {p} \<and> distinct (map b_pid bs')"
proof -
  have "bs' = drop_buffer p bs"
    using assms(1) by (auto simp: remove_buffer_def drop_buffer_def split: option.splits elim!: kbind_InrE)
  moreover have "set (map b_pid (drop_buffer p bs)) = set (map b_pid bs) - {p} \<and> distinct (map b_pid (drop_buffer p bs))"
    using assms(2) by (induction bs) (auto simp del: set_map simp: set_map [symmetric])
  ultimately show ?thesis by simp
qed

lemma find_area_Some: "find_area v as = Some i \<Longrightarrow> i < length as \<and> a_vma (as ! i) = Some v"
  by (induction as arbitrary: i) (auto split: if_splits)

lemma set_without: "i < length xs \<Longrightarrow> insert (xs ! i) (set (take i xs @ drop (Suc i) xs)) = set xs"
  by (metis Un_insert_right id_take_nth_drop list.simps(15) set_append)

text \<open>Closing a VMA takes its area away, and the buffer with the last area of the process.\<close>

lemma close_vma_owned:
  assumes "generic_malloc_vm_close ops v st = Inr st'" and own: "bufs_owned st" and dist: "distinct (buf_pids st)"
  shows "bufs_owned st' \<and> distinct (buf_pids st')"
proof (cases "find_area v (g_areas st)")
  case None
  with assms show ?thesis by (simp add: generic_malloc_vm_close_def close_vma_def)
next
  case (Some i)
  define p where "p = a_pid (g_areas st ! i)"
  obtain st1 where c: "close_regions ops i (regions (g_areas st ! i)) st = Inr st1"
    using assms(1) Some by (auto simp: generic_malloc_vm_close_def close_vma_def elim!: kbind_InrE)
  note f = close_regions_frame [OF c]
  have len: "length (g_areas st1) = length (g_areas st)" using f by (metis length_map)
  have i: "i < length (g_areas st1)" using find_area_Some [OF Some] len by simp
  have p: "a_pid (g_areas st1 ! i) = p" using f i len by (metis nth_map p_def)
  define areas where "areas = take i (g_areas st1) @ drop (Suc i) (g_areas st1)"
  have sub: "set (buf_pids st1) \<subseteq> insert p (set (map a_pid areas))"
    using own f set_without [OF i] p unfolding bufs_owned_pids areas_def
    by (metis (no_types, lifting) image_insert list.set_map)
  show ?thesis
  proof (cases "get_area_count p areas = 0")
    case True
    then obtain M bs where b: "remove_buffer p (g_mem st1) (g_bufs st1) = Inr (M, bs)"
      and st': "st' = st1\<lparr>g_areas := areas, g_mem := M, g_bufs := bs\<rparr>"
      using assms(1) Some c p
      by (auto simp: generic_malloc_vm_close_def close_vma_def Let_def areas_def [symmetric] elim!: kbind_InrE)
    have "distinct (buf_pids st1)" using dist f by simp
    from remove_buffer_frame [OF b this] sub show ?thesis by (auto simp: bufs_owned_pids st')
  next
    case False
    then have "st' = st1\<lparr>g_areas := areas\<rparr>"
      using assms(1) Some c p by (simp add: generic_malloc_vm_close_def close_vma_def Let_def areas_def [symmetric])
    moreover have "p \<in> set (map a_pid areas)" using False by (simp only: get_area_count_none) simp
    ultimately show ?thesis using sub f dist by (auto simp: bufs_owned_pids)
  qed
qed

lemma close_all_owned:
  "close_all ops vs st = Inr st' \<Longrightarrow> bufs_owned st \<Longrightarrow> distinct (buf_pids st) \<Longrightarrow> bufs_owned st' \<and> distinct (buf_pids st')"
proof (induction vs arbitrary: st)
  case (Cons v vs)
  from Cons.prems(1) obtain st1 where st1: "generic_malloc_vm_close ops v st = Inr st1"
    "close_all ops vs (st1\<lparr>g_mm := (g_mm st1)\<lparr>vmas := (vmas (g_mm st1))(v := None)\<rparr>\<rparr>) = Inr st'"
    by (auto elim!: kbind_InrE)
  from close_vma_owned [OF st1(1) Cons.prems(2,3)] Cons.IH [OF st1(2)] show ?case
    by (simp add: bufs_owned_def)
qed simp

section \<open>The operations of the module\<close>

lemma malloc_owned:
  assumes "generic_malloc E ops cur sz st = Inr (ptr, st')" and "bufs_owned st"
  shows "bufs_owned st'"
proof -
  obtain V as r where c: "create_region E (g_mm st) sz cur (g_areas st) module_vm_ops = Inr (V, as, r)"
    and rest: "(case r of None \<Rightarrow> Inr (0, st\<lparr>g_mm := V, g_areas := as\<rparr>)
       | Some x \<Rightarrow> kbind (unmap_page E ops (t_pid cur) False (st\<lparr>g_mm := V, g_areas := as\<rparr>)) (\<lambda>(error, st2).
           if error < 0 then Inr (0, st2) else Inr (virtual_start x, st2))) = Inr (ptr, st')"
    using assms(1) by (auto simp: generic_malloc_def Let_def elim!: kbind_InrE)
  have "buf_pids st' = buf_pids st \<and> g_areas st' = as"
    using rest by (auto split: option.splits if_splits elim!: kbind_InrE dest!: unmap_page_frame)
  with create_region_frame [OF c] assms(2) show ?thesis unfolding bufs_owned_pids by auto
qed

lemma free_owned:
  assumes "generic_free E ops cur ptr st = Inr st'" and own: "bufs_owned st" and dist: "distinct (buf_pids st)"
  shows "bufs_owned st'"
proof -
  obtain e st1 st2 as cl where
    u: "unmap_page E ops (t_pid cur) False st = Inr (e, st1)" and
    r: "remove_storage_pages ops (t_pid cur) ptr st1 = Inr st2" and
    rr: "remove_region (g_mm st2) (t_pid cur) ptr (g_areas st2) = Inr (as, cl)" and
    rest: "(case cl of None \<Rightarrow> Inr (st2\<lparr>g_areas := as\<rparr>)
       | Some vma \<Rightarrow> kbind (remove_vma E (g_mm (st2\<lparr>g_areas := as\<rparr>)) (g_pt (st2\<lparr>g_areas := as\<rparr>)) vma) (\<lambda>(V, pt, closed).
             close_all ops closed (st2\<lparr>g_areas := as, g_mm := V, g_pt := pt\<rparr>))) = Inr st'"
    using assms(1) by (auto simp: generic_free_def Let_def elim!: kbind_InrE)
  have f: "buf_pids st2 = buf_pids st" "map a_pid as = area_pids st"
    using unmap_page_frame [OF u] remove_storage_pages_frame [OF r] remove_region_frame [OF rr] by simp_all
  show ?thesis
  proof (cases cl)
    case None
    with rest have "st' = st2\<lparr>g_areas := as\<rparr>" by simp
    then have "buf_pids st' = buf_pids st" "area_pids st' = area_pids st" using f by simp_all
    with own show ?thesis by (simp only: bufs_owned_pids)
  next
    case (Some vma)
    with rest obtain V pt closed where "close_all ops closed (st2\<lparr>g_areas := as, g_mm := V, g_pt := pt\<rparr>) = Inr st'"
      by (auto elim!: kbind_InrE)
    from close_all_owned [OF this] f own dist show ?thesis by (simp add: bufs_owned_pids)
  qed
qed

lemma pids_grow: "xs' = xs \<or> xs' = xs @ [p] \<Longrightarrow> p \<in> A \<Longrightarrow> set xs \<subseteq> A \<Longrightarrow> set xs' \<subseteq> A"
  by auto

lemma fault_owned:
  assumes "generic_malloc_vm_fault E ops cur v a st = Inr (res, st')" and own: "bufs_owned st"
    and ho: "homes_ok mm_of (g_mm st) (g_areas st)" and inj: "inj mm_of" and mm: "t_mm cur = mm_of (t_pid cur)"
    and v: "vmas (g_mm st) v = Some vma" "vm_mm vma = t_mm cur"
  shows "bufs_owned st'"
proof (cases "is_valid_address a v (g_areas st)")
  case False
  with assms(1) own show ?thesis by (simp add: generic_malloc_vm_fault_def)
next
  case True
  then obtain b where b: "b \<in> set (g_areas st)" "a_vma b = Some v" by (auto simp: is_valid_address_def list_ex_iff)
  with ho v mm have "mm_of (a_pid b) = mm_of (t_pid cur)" by (simp add: homes_ok_def home_ok_def)
  then have "a_pid b = t_pid cur" using inj by (simp add: inj_eq)
  with b(1) have "t_pid cur \<in> set (area_pids st)" by force
  with pids_grow [OF conjunct1 [OF vm_fault_frame [OF assms(1)]]] own vm_fault_frame [OF assms(1)]
  show ?thesis unfolding bufs_owned_pids by metis
qed

end
