(* ===== verification/Exit.thy ===== *)
theory Exit
  imports Owners
begin

text \<open>
  The end of a process.  When a process exits the kernel tears down its page tables, takes its VMAs
  out of the address space and calls the \<open>close\<close> handler of each before it frees it.  The handler
  then finds the lists of the module as they were, while the pages the buffer of the process
  records are no longer mapped.  The lemmas hold for every storage, those that fail included.
\<close>

section \<open>Exit\<close>

definition torn_down :: "mmid \<Rightarrow> 's gstate \<Rightarrow> 's gstate" where
  "torn_down m st = st\<lparr>g_pt := (\<lambda>(n, a). if n = m then None else g_pt st (n, a)),
     g_mm := (g_mm st)\<lparr>mmap := (mmap (g_mm st))(m := [])\<rparr>\<rparr>"

lemma torn_down_same [simp]:
  "g_mem (torn_down m st) = g_mem st" "g_areas (torn_down m st) = g_areas st" "g_pages (torn_down m st) = g_pages st"
  "g_bufs (torn_down m st) = g_bufs st" "g_store (torn_down m st) = g_store st"
  "g_pt (torn_down m st) (n, a) = (if n = m then None else g_pt st (n, a))"
  "vmas (g_mm (torn_down m st)) = vmas (g_mm st)" "mmap (g_mm (torn_down m st)) n = (if n = m then [] else mmap (g_mm st) n)"
  by (simp_all add: torn_down_def)

text \<open>\<open>vs\<close> are the VMAs of the process, in the order in which the kernel closes them.\<close>

definition process_exit :: "'s storage_ops \<Rightarrow> mmid \<Rightarrow> vid list \<Rightarrow> 's gstate \<Rightarrow> kfault + 's gstate" where
  "process_exit ops m vs st = close_all ops vs (torn_down m st)"

section \<open>Between two VMAs\<close>

text \<open>An area whose VMA can be looked at.\<close>

definition area_at :: "vmem \<Rightarrow> vid set \<Rightarrow> area_struct \<Rightarrow> bool" where
  "area_at V vs a \<longleftrightarrow> (\<exists>v\<in>vs. a_vma a = Some v \<and> vmas V v \<noteq> None)"

lemma get_area_total:
  "\<forall>a\<in>set as. a_pid a = p \<longrightarrow> area_at V vs a \<Longrightarrow> \<exists>res. get_area V p x as = Inr res"
  by (induction as) (fastforce simp: area_at_def Let_def)+

lemma area_ok_drop_vma:
  assumes "area_ok V a" and "\<forall>vma. vmas V v = Some vma \<longrightarrow> v \<notin> set (mmap V (vm_mm vma))"
  shows "area_ok (V\<lparr>vmas := (vmas V)(v := None)\<rparr>) a"
proof -
  from assms(1) obtain w vma where w: "a_vma a = Some w" "vmas V w = Some vma" "w \<in> set (mmap V (vm_mm vma))"
    "a_size a = vm_end vma - vm_start vma" "regions_wf (vm_start vma) (regions a)" "r_free (head a) \<noteq> 1"
    by (rule area_okE)
  with assms(2) have "w \<noteq> v" by auto
  with w show ?thesis by (simp add: area_ok_def)
qed

lemma spaces_ok_drop_vma:
  assumes sp: "spaces_ok V" and out: "\<forall>vma. vmas V v = Some vma \<longrightarrow> v \<notin> set (mmap V (vm_mm vma))"
  shows "spaces_ok (V\<lparr>vmas := (vmas V)(v := None)\<rparr>)"
proof -
  have "mm_wf (V\<lparr>vmas := (vmas V)(v := None)\<rparr>) n" for n
  proof (rule mm_wf_cong [where V = V])
    show wf: "mm_wf V n" using sp by (simp add: spaces_ok_def)
    show "vmas (V\<lparr>vmas := (vmas V)(v := None)\<rparr>) u = vmas V u" if u: "u \<in> set (mmap V n)" for u
      using mm_wfD [OF wf u] out u by auto
  qed simp_all
  moreover have "vids_fresh (V\<lparr>vmas := (vmas V)(v := None)\<rparr>)" using sp by (auto simp: spaces_ok_def vids_fresh_def)
  ultimately show ?thesis by (simp add: spaces_ok_def)
qed

lemma slots_ok_drop_vma:
  assumes "slots_ok mm_of valid V pt b" and "\<forall>vma. vmas V v = Some vma \<longrightarrow> vm_mm vma \<noteq> mm_of (b_pid b)"
  shows "slots_ok mm_of valid (V\<lparr>vmas := (vmas V)(v := None)\<rparr>) pt b"
  using assms by (fastforce simp: slots_ok_def slot_ok_def)

text \<open>The regions in use of the other processes.\<close>

abbreviation live_but :: "pid_t \<Rightarrow> area_struct list \<Rightarrow> (pid_t \<times> region_struct) list" where
  "live_but p as \<equiv> filter (\<lambda>(q, _). q \<noteq> p) (live as)"

lemma live_but_pid: "live_but p as = live (filter (\<lambda>a. a_pid a \<noteq> p) as)"
  by (induction as) (auto simp: filter_empty_conv)

lemma live_but_without:
  assumes "i < length as" and "a_pid (as ! i) = p"
  shows "live_but p (take i as @ drop (Suc i) as) = live_but p as"
  unfolding live_but_pid using id_take_nth_drop [OF assms(1)] assms(2) by (metis (mono_tags, lifting) filter.simps(2) filter_append)

context page_store
begin

text \<open>
  The state between two calls of the handler while process \<open>p\<close> exits, with the VMAs \<open>vs\<close> still to
  close: its areas are those of the VMAs that are left, its address space is empty, and nothing is
  known of what its buffer records.
\<close>

definition closing :: "(pid_t \<Rightarrow> mmid) \<Rightarrow> pid_t \<Rightarrow> vid list \<Rightarrow> 's gstate \<Rightarrow> bool" where
  "closing mm_of p vs st \<longleftrightarrow>
     spaces_ok (g_mm st) \<and> mmap (g_mm st) (mm_of p) = [] \<and> (\<forall>a. g_pt st (mm_of p, a) = None) \<and>
     (\<forall>v\<in>set vs. \<forall>vma. vmas (g_mm st) v = Some vma \<longrightarrow> vm_mm vma = mm_of p) \<and>
     distinct (map a_vma (g_areas st)) \<and>
     (\<forall>a\<in>set (g_areas st). if a_pid a = p then area_at (g_mm st) (set vs) a
        else area_ok (g_mm st) a \<and> home_ok mm_of (g_mm st) a) \<and>
     buffers_ok (g_mem st) (g_bufs st) \<and> bufs_owned st \<and>
     (\<forall>q b. q \<noteq> p \<longrightarrow> buffer_of q (g_bufs st) = Some b \<longrightarrow> slots_ok mm_of valid (g_mm st) (g_pt st) b) \<and>
     mappings_ok mm_of (g_pt st) (g_mem st) (g_bufs st) \<and>
     index_safe ok valid stored (g_store st) (g_pages st)"

lemma closingD:
  assumes "closing mm_of p vs st"
  shows "spaces_ok (g_mm st)" "mmap (g_mm st) (mm_of p) = []" "\<And>a. g_pt st (mm_of p, a) = None"
    "\<And>v vma. v \<in> set vs \<Longrightarrow> vmas (g_mm st) v = Some vma \<Longrightarrow> vm_mm vma = mm_of p"
    "distinct (map a_vma (g_areas st))"
    "\<And>a. a \<in> set (g_areas st) \<Longrightarrow> a_pid a = p \<Longrightarrow> area_at (g_mm st) (set vs) a"
    "\<And>a. a \<in> set (g_areas st) \<Longrightarrow> a_pid a \<noteq> p \<Longrightarrow> area_ok (g_mm st) a \<and> home_ok mm_of (g_mm st) a"
    "buffers_ok (g_mem st) (g_bufs st)" "bufs_owned st"
    "\<And>q b. q \<noteq> p \<Longrightarrow> buffer_of q (g_bufs st) = Some b \<Longrightarrow> slots_ok mm_of valid (g_mm st) (g_pt st) b"
    "mappings_ok mm_of (g_pt st) (g_mem st) (g_bufs st)"
    "index_safe ok valid stored (g_store st) (g_pages st)"
  using assms unfolding closing_def by (auto split: if_splits)

lemma close_regions_any:
  assumes "index_safe ok valid stored (g_store st) (g_pages st)" and "i < length (g_areas st)" and "a_pid (g_areas st ! i) = p"
    and "regions (g_areas st ! i) = rs" and "\<And>x as. map (\<lambda>a. (a_pid a, a_vma a)) as = map (\<lambda>a. (a_pid a, a_vma a)) (g_areas st) \<Longrightarrow>
      \<exists>res. get_area (g_mm st) p x as = Inr res"
  shows "\<exists>s pages. close_regions ops i rs st = Inr (st\<lparr>g_store := s, g_pages := pages,
       g_areas := (g_areas st)[i := (g_areas st ! i)\<lparr>regions := []\<rparr>]\<rparr>) \<and> index_safe ok valid stored s pages \<and>
    (\<forall>k. fst k \<noteq> p \<longrightarrow> stored s k = stored (g_store st) k \<and> (k \<in> page_keys pages) = (k \<in> page_keys (g_pages st))) \<and>
    (\<not> fails \<longrightarrow> iexact st \<longrightarrow> iexact (st\<lparr>g_store := s, g_pages := pages\<rparr>))"
  using assms
proof (induction rs arbitrary: st)
  case Nil
  have "(g_areas st ! i)\<lparr>regions := []\<rparr> = g_areas st ! i" using Nil.prems(4) by simp
  then have "st\<lparr>g_store := g_store st, g_pages := g_pages st, g_areas := (g_areas st)[i := (g_areas st ! i)\<lparr>regions := []\<rparr>]\<rparr> = st"
    by simp
  then show ?case by (intro exI [of _ "g_store st"] exI [of _ "g_pages st"]) (use Nil.prems(1) in simp)
next
  case (Cons r rs)
  obtain found where ga: "get_area (g_mm st) p (virtual_start r) (g_areas st) = Inr found"
    using Cons.prems(5) [of "g_areas st"] by blast
  from remove_storage_pages_index [OF Cons.prems(1) ga] obtain s1 pages1 where
    s1: "remove_storage_pages ops p (virtual_start r) st = Inr (st\<lparr>g_store := s1, g_pages := pages1\<rparr>)"
      "index_safe ok valid stored s1 pages1"
    and ch: "\<And>k. stored s1 k \<noteq> stored (g_store st) k \<or> (k \<in> page_keys pages1) \<noteq> (k \<in> page_keys (g_pages st)) \<Longrightarrow> fst k = p"
    and x1: "\<not> fails \<longrightarrow> iexact st \<longrightarrow> iexact (st\<lparr>g_store := s1, g_pages := pages1\<rparr>)"
    by (elim exE conjE) fastforce
  define as1 where "as1 = (g_areas st)[i := (g_areas st ! i)\<lparr>regions := rs\<rparr>]"
  define st1 where "st1 = st\<lparr>g_store := s1, g_pages := pages1, g_areas := as1\<rparr>"
  have st1: "g_store st1 = s1" "g_pages st1 = pages1" by (simp_all add: st1_def)
  have i: "i < length as1" "a_pid (as1 ! i) = p" "regions (as1 ! i) = rs"
    using Cons.prems(2,3) by (simp_all add: as1_def)
  have same: "map (\<lambda>a. (a_pid a, a_vma a)) as1 = map (\<lambda>a. (a_pid a, a_vma a)) (g_areas st)"
    using Cons.prems(2) by (simp add: as1_def map_update list_update_same_conv)
  have "\<exists>s pages. close_regions ops i rs st1 = Inr (st1\<lparr>g_store := s, g_pages := pages,
       g_areas := (g_areas st1)[i := (g_areas st1 ! i)\<lparr>regions := []\<rparr>]\<rparr>) \<and> index_safe ok valid stored s pages \<and>
    (\<forall>k. fst k \<noteq> p \<longrightarrow> stored s k = stored (g_store st1) k \<and> (k \<in> page_keys pages) = (k \<in> page_keys (g_pages st1))) \<and>
    (\<not> fails \<longrightarrow> iexact st1 \<longrightarrow> iexact (st1\<lparr>g_store := s, g_pages := pages\<rparr>))"
    by (rule Cons.IH) (use i s1(2) Cons.prems(5) same in \<open>simp_all add: st1_def\<close>)
  then obtain s pages where s: "close_regions ops i rs st1 = Inr (st1\<lparr>g_store := s, g_pages := pages,
       g_areas := (g_areas st1)[i := (g_areas st1 ! i)\<lparr>regions := []\<rparr>]\<rparr>)" "index_safe ok valid stored s pages"
    and ch1: "\<And>k. fst k \<noteq> p \<Longrightarrow> stored s k = stored s1 k \<and> (k \<in> page_keys pages) = (k \<in> page_keys pages1)"
    and x: "\<not> fails \<longrightarrow> iexact st1 \<longrightarrow> iexact (st1\<lparr>g_store := s, g_pages := pages\<rparr>)"
    unfolding st1 by blast
  have areas: "(g_areas st1)[i := (g_areas st1 ! i)\<lparr>regions := []\<rparr>] = (g_areas st)[i := (g_areas st ! i)\<lparr>regions := []\<rparr>]"
    using Cons.prems(2) by (simp add: st1_def as1_def)
  have "close_regions ops i (r # rs) st = close_regions ops i rs st1"
    using s1(1) Cons.prems(3) by (simp add: st1_def as1_def)
  also have "\<dots> = Inr (st\<lparr>g_store := s, g_pages := pages, g_areas := (g_areas st)[i := (g_areas st ! i)\<lparr>regions := []\<rparr>]\<rparr>)"
    unfolding s(1) areas by (simp add: st1_def)
  finally have run: "close_regions ops i (r # rs) st = \<dots>" .
  have "stored s k = stored (g_store st) k \<and> (k \<in> page_keys pages) = (k \<in> page_keys (g_pages st))" if "fst k \<noteq> p" for k
    using ch1 [OF that] ch [of k] that by auto
  moreover have "\<not> fails \<longrightarrow> iexact st \<longrightarrow> iexact (st\<lparr>g_store := s, g_pages := pages\<rparr>)"
    using x x1 by (simp add: index_exact_def st1_def)
  ultimately show ?case using run s(2) by (intro exI [of _ s] exI [of _ pages]) simp
qed

text \<open>One VMA is closed and freed.\<close>

definition freed_vma :: "vid \<Rightarrow> 's gstate \<Rightarrow> 's gstate" where
  "freed_vma v st = st\<lparr>g_mm := (g_mm st)\<lparr>vmas := (vmas (g_mm st))(v := None)\<rparr>\<rparr>"

text \<open>What is left of the state when the area of \<open>v\<close> is gone, if it had one.\<close>

lemma closing_next:
  assumes cl: "closing mm_of p (v # vs) st" and inj: "inj mm_of"
    and same: "g_mm st1 = g_mm st" "g_pt st1 = g_pt st" "next_frame (g_mem st1) = next_frame (g_mem st)"
    and areas: "set (g_areas st1) \<subseteq> set (g_areas st)" "distinct (map a_vma (g_areas st1))"
    and no: "\<forall>a\<in>set (g_areas st1). a_vma a \<noteq> Some v"
    and bufs: "buffers_ok (g_mem st1) (g_bufs st1)" "bufs_owned st1"
    and sub: "\<And>q b. buffer_of q (g_bufs st1) = Some b \<Longrightarrow> buffer_of q (g_bufs st) = Some b"
    and ix: "index_safe ok valid stored (g_store st1) (g_pages st1)"
  shows "closing mm_of p vs (freed_vma v st1)"
proof -
  note D = closingD [OF cl]
  let ?V = "(g_mm st)\<lparr>vmas := (vmas (g_mm st))(v := None)\<rparr>"
  have mm: "\<forall>vma. vmas (g_mm st) v = Some vma \<longrightarrow> vm_mm vma = mm_of p" using D(4) [of v] by simp
  then have out: "\<forall>vma. vmas (g_mm st) v = Some vma \<longrightarrow> v \<notin> set (mmap (g_mm st) (vm_mm vma))" using D(2) by auto
  have vs: "\<forall>u\<in>set vs. \<forall>vma. vmas (g_mm st) u = Some vma \<longrightarrow> vm_mm vma = mm_of p"
    using D(4) by (metis list.set_intros(2))
  have a1: "area_at ?V (set vs) a" if "a \<in> set (g_areas st1)" "a_pid a = p" for a
  proof -
    have "a \<in> set (g_areas st)" using that areas(1) by blast
    from D(6) [OF this that(2)] obtain w where "w \<in> set (v # vs)" "a_vma a = Some w" "vmas (g_mm st) w \<noteq> None"
      by (auto simp: area_at_def)
    with no that(1) show ?thesis by (auto simp: area_at_def)
  qed
  have a2: "area_ok ?V a \<and> home_ok mm_of ?V a" if "a \<in> set (g_areas st1)" "a_pid a \<noteq> p" for a
    using D(7) [of a] that areas(1) area_ok_drop_vma [OF _ out, of a] by (auto simp: home_ok_def)
  have sl: "slots_ok mm_of valid ?V (g_pt st) b" if "q \<noteq> p" "buffer_of q (g_bufs st1) = Some b" for q b
  proof (rule slots_ok_drop_vma [OF D(10) [OF that(1) sub [OF that(2)]]])
    have "mm_of (b_pid b) \<noteq> mm_of p" using bt.lookup_key [OF that(2)] that(1) inj by (auto dest: injD)
    with mm show "\<forall>vma. vmas (g_mm st) v = Some vma \<longrightarrow> vm_mm vma \<noteq> mm_of (b_pid b)" by auto
  qed
  have mo: "mappings_ok mm_of (g_pt st) (g_mem st1) (g_bufs st1)"
  proof (rule mappings_okI)
    fix k f q b
    assume k: "g_pt st k = Some f"
    then show "f < next_frame (g_mem st1)" using mappings_okD(1) [OF D(11)] same(3) by simp
    assume "buffer_of q (g_bufs st1) = Some b" "f \<in> set (frames_of b)"
    with mappings_okD(2) [OF D(11) k sub] show "maps_at mm_of b f k" by blast
  qed
  have "bufs_owned (freed_vma v st1)" using bufs(2) by (simp add: bufs_owned_def freed_vma_def)
  moreover have "spaces_ok ?V" by (rule spaces_ok_drop_vma [OF D(1) out])
  ultimately show ?thesis
    using D(2,3) vs areas(2) a1 a2 bufs(1) sl mo ix unfolding closing_def by (simp add: freed_vma_def same)
qed

lemma close_step_any:
  assumes cl: "closing mm_of p (v # vs) st" and inj: "inj mm_of"
  shows "\<exists>st1. generic_malloc_vm_close ops v st = Inr st1 \<and> closing mm_of p vs (freed_vma v st1) \<and>
    live_but p (g_areas st1) = live_but p (g_areas st) \<and>
    (\<forall>q a. q \<noteq> p \<longrightarrow> pview mm_of (freed_vma v st1) q a = pview mm_of st q a) \<and>
    (\<not> fails \<longrightarrow> iexact st \<longrightarrow> iexact (freed_vma v st1))"
proof (cases "find_area v (g_areas st)")
  case None
  note D = closingD [OF cl]
  have "\<forall>a\<in>set as. a_vma a \<noteq> Some v" if "find_area v as = None" for as
    using that by (induction as) (auto split: if_splits)
  then have "\<forall>a\<in>set (g_areas st). a_vma a \<noteq> Some v" using None by blast
  then have "closing mm_of p vs (freed_vma v st)"
    using closing_next [OF cl inj, of st] D by simp
  moreover have "pview mm_of (freed_vma v st) = pview mm_of st"
    by (intro ext) (simp add: page_view_def freed_vma_def split: option.split)
  moreover have "iexact (freed_vma v st) = iexact st" by (simp add: index_exact_def freed_vma_def)
  ultimately show ?thesis
    using None by (intro exI [of _ st]) (simp add: generic_malloc_vm_close_def close_vma_def)
next
  case (Some i)
  note D = closingD [OF cl]
  let ?as = "g_areas st"
  note i = find_area_Some [OF Some]
  have ai: "?as ! i \<in> set ?as" using i by simp
  have p: "a_pid (?as ! i) = p"
  proof (rule ccontr)
    assume "a_pid (?as ! i) \<noteq> p"
    with D(7) [OF ai] i obtain vma where "vmas (g_mm st) v = Some vma" "v \<in> set (mmap (g_mm st) (vm_mm vma))"
      by (auto elim!: area_okE)
    with D(2) D(4) [of v vma] show False by simp
  qed
  define rs where "rs = regions (?as ! i)"
  have look: "\<exists>res. get_area (g_mm st) p x as = Inr res"
    if m: "map (\<lambda>a. (a_pid a, a_vma a)) as = map (\<lambda>a. (a_pid a, a_vma a)) ?as" for x as
  proof -
    have "\<exists>res. get_area (g_mm st) p x ?as = Inr res"
      by (rule get_area_total [of _ _ _ "set (v # vs)"]) (use D(6) in auto)
    then show ?thesis using get_area_cong [OF m] by simp
  qed
  from close_regions_any [OF D(12) conjunct1 [OF i] p rs_def [symmetric] look] obtain s pages where
    c: "close_regions ops i rs st = Inr (st\<lparr>g_store := s, g_pages := pages,
       g_areas := ?as[i := (?as ! i)\<lparr>regions := []\<rparr>]\<rparr>)" "index_safe ok valid stored s pages"
    and other: "\<And>k. fst k \<noteq> p \<Longrightarrow> stored s k = stored (g_store st) k \<and> (k \<in> page_keys pages) = (k \<in> page_keys (g_pages st))"
    and x: "\<not> fails \<longrightarrow> iexact st \<longrightarrow> iexact (st\<lparr>g_store := s, g_pages := pages\<rparr>)"
    by blast
  obtain M where M: "remove_buffer p (g_mem st) (g_bufs st) = Inr (M, drop_buffer p (g_bufs st))"
    "content M = content (g_mem st)" "next_frame M = next_frame (g_mem st)" "buffers_ok M (drop_buffer p (g_bufs st))"
    using remove_buffer_ok [OF D(8), of p] by blast
  define areas where "areas = take i ?as @ drop (Suc i) ?as"
  define lastone where "lastone = (get_area_count p areas = 0)"
  define st1 where "st1 = st\<lparr>g_store := s, g_pages := pages, g_areas := areas,
    g_mem := (if lastone then M else g_mem st), g_bufs := (if lastone then drop_buffer p (g_bufs st) else g_bufs st)\<rparr>"
  have run: "generic_malloc_vm_close ops v st = Inr st1"
    using i c(1) M(1) Some p
    by (simp add: generic_malloc_vm_close_def close_vma_def rs_def [symmetric] Let_def
        areas_def [symmetric] st1_def lastone_def [symmetric])
  have split: "?as = take i ?as @ ?as ! i # drop (Suc i) ?as" using i by (intro id_take_nth_drop) simp
  have "distinct (map a_vma (take i ?as @ ?as ! i # drop (Suc i) ?as))" using D(5) split by simp
  then have dist: "distinct (map a_vma areas)" and "Some v \<notin> a_vma ` set areas"
    using i unfolding areas_def by (simp_all add: image_Un)
  then have no: "\<forall>a\<in>set areas. a_vma a \<noteq> Some v" by (metis imageI)
  have dst: "distinct (map b_pid (g_bufs st))" using D(8) by (simp add: buffers_ok_def)
  have cl1: "closing mm_of p vs (freed_vma v st1)"
  proof (rule closing_next [OF cl inj])
    show "set (g_areas st1) \<subseteq> set ?as"
      using set_take_subset [of i ?as] set_drop_subset [of "Suc i" ?as] by (simp add: st1_def areas_def)
    show "bufs_owned st1" using close_vma_owned [OF run D(9) dst] by simp
    show "buffer_of q (g_bufs st) = Some b" if "buffer_of q (g_bufs st1) = Some b" for q b
      using that dst by (auto simp: st1_def bt.lookup_del split: if_splits)
  qed (use M D(8) c(2) dist no in \<open>simp_all add: st1_def\<close>)
  have "pview mm_of (freed_vma v st1) q a = pview mm_of st q a" if "q \<noteq> p" for q a
    using other [of "(q, a)"] that M(2)
    by (simp add: page_view_def freed_vma_def st1_def spi.mem_keys split: option.split)
  moreover have "iexact (freed_vma v st1)" if "\<not> fails" "iexact st"
    using x that by (simp add: index_exact_def freed_vma_def st1_def)
  moreover have "live_but p (g_areas st1) = live_but p ?as"
    using live_but_without [OF conjunct1 [OF i] p] by (simp add: st1_def areas_def)
  ultimately show ?thesis using run cl1 by (intro exI [of _ st1]) simp
qed

lemma close_all_any:
  assumes "closing mm_of p vs st" and inj: "inj mm_of"
  shows "\<exists>st'. close_all ops vs st = Inr st' \<and> closing mm_of p [] st' \<and>
    live_but p (g_areas st') = live_but p (g_areas st) \<and>
    (\<forall>q a. q \<noteq> p \<longrightarrow> pview mm_of st' q a = pview mm_of st q a) \<and> (\<not> fails \<longrightarrow> iexact st \<longrightarrow> iexact st')"
  using assms(1)
proof (induction vs arbitrary: st)
  case (Cons v vs)
  from close_step_any [OF Cons.prems inj] obtain st1 where
    st1: "generic_malloc_vm_close ops v st = Inr st1" "closing mm_of p vs (freed_vma v st1)"
      "live_but p (g_areas st1) = live_but p (g_areas st)"
      "\<forall>q a. q \<noteq> p \<longrightarrow> pview mm_of (freed_vma v st1) q a = pview mm_of st q a"
      "\<not> fails \<longrightarrow> iexact st \<longrightarrow> iexact (freed_vma v st1)" by blast
  from Cons.IH [OF st1(2)] obtain st' where
    st': "close_all ops vs (freed_vma v st1) = Inr st'" "closing mm_of p [] st'"
      "live_but p (g_areas st') = live_but p (g_areas (freed_vma v st1))"
      "\<forall>q a. q \<noteq> p \<longrightarrow> pview mm_of st' q a = pview mm_of (freed_vma v st1) q a"
      "\<not> fails \<longrightarrow> iexact (freed_vma v st1) \<longrightarrow> iexact st'" by blast
  have "close_all ops (v # vs) st = Inr st'" using st1(1) st'(1) by (simp add: freed_vma_def)
  moreover have "live_but p (g_areas st') = live_but p (g_areas st)"
    using st'(3) st1(3) by (simp add: freed_vma_def)
  ultimately show ?case using st'(2,4,5) st1(4,5) by (intro exI [of _ st']) simp
qed auto

section \<open>Exit keeps the module safe\<close>

lemma torn_down_closing:
  assumes safe: "msafe mm_of st" and own: "bufs_owned st" and inj: "inj mm_of"
    and vs: "set vs = set (mmap (g_mm st) (mm_of p))"
  shows "closing mm_of p vs (torn_down (mm_of p) st)"
proof -
  note D = module_safeD [OF safe]
  note P = page_safeD [OF D(4)]
  let ?V = "(g_mm st)\<lparr>mmap := (mmap (g_mm st))(mm_of p := [])\<rparr>"
  let ?pt = "\<lambda>(n, a). if n = mm_of p then None else g_pt st (n, a)"
  have wf: "mm_wf (g_mm st) n" for n using D(1) by (simp add: spaces_ok_def)
  have "mm_wf ?V n" for n
  proof (cases "n = mm_of p")
    case False
    with mm_wf_cong [OF wf, of ?V n] show ?thesis by simp
  qed (simp add: mm_wf_def)
  moreover have "vids_fresh ?V" using D(1) by (auto simp: spaces_ok_def vids_fresh_def)
  ultimately have sp: "spaces_ok ?V" by (simp add: spaces_ok_def)
  have own_vma: "vm_mm vma = mm_of p" if "v \<in> set vs" "vmas (g_mm st) v = Some vma" for v vma
    using mm_wfD [OF wf, of v "mm_of p"] that vs by auto
  have oh: "area_ok (g_mm st) a" "home_ok mm_of (g_mm st) a" if "a \<in> set (g_areas st)" for a
    using D(2,3) that by (simp_all add: areas_ok_def homes_ok_def)
  have a1: "area_at ?V (set vs) a" if a: "a \<in> set (g_areas st)" "a_pid a = p" for a
    using oh(1) [OF a(1)] oh(2) [OF a(1)] a(2) vs by (auto elim!: area_okE simp: area_at_def home_ok_def)
  have a2: "area_ok ?V a \<and> home_ok mm_of ?V a" if a: "a \<in> set (g_areas st)" "a_pid a \<noteq> p" for a
  proof -
    from oh(1) [OF a(1)] obtain v vma where v: "a_vma a = Some v" "vmas (g_mm st) v = Some vma"
      "v \<in> set (mmap (g_mm st) (vm_mm vma))" "a_size a = vm_end vma - vm_start vma"
      "regions_wf (vm_start vma) (regions a)" "r_free (head a) \<noteq> 1" by (rule area_okE)
    have h: "home_ok mm_of (g_mm st) a" by (rule oh(2) [OF a(1)])
    with v have "vm_mm vma = mm_of (a_pid a)" by (simp add: home_ok_def)
    then have "vm_mm vma \<noteq> mm_of p" using a(2) inj by (auto dest: injD)
    with v h show ?thesis by (simp add: area_ok_def home_ok_def)
  qed
  have sl: "slots_ok mm_of valid ?V ?pt b" if b: "q \<noteq> p" "buffer_of q (g_bufs st) = Some b" for q b
  proof -
    have "mm_of (b_pid b) \<noteq> mm_of p" using bt.lookup_key [OF b(2)] b(1) inj by (auto dest: injD)
    with P(2) [OF b(2)] show ?thesis by (simp add: slots_ok_def slot_ok_def)
  qed
  have mo: "mappings_ok mm_of ?pt (g_mem st) (g_bufs st)"
    by (rule mappings_okI) (use mappings_okD [OF P(3)] in \<open>auto split: if_splits\<close>)
  have "distinct (map a_vma (g_areas st))" using D(2) by (simp add: areas_ok_def)
  then show ?thesis
    using sp own_vma a1 a2 P(1,4) own sl mo unfolding closing_def by (simp add: torn_down_def bufs_owned_def)
qed

lemma closing_end:
  assumes cl: "closing mm_of p [] st"
  shows "msafe mm_of st" and "buffer_of p (g_bufs st) = None" and "live_but p (g_areas st) = live (g_areas st)"
    and "\<forall>a\<in>set (g_areas st). a_pid a \<noteq> p"
proof -
  note D = closingD [OF cl]
  show no: "\<forall>a\<in>set (g_areas st). a_pid a \<noteq> p" using D(6) by (auto simp: area_at_def)
  then show "live_but p (g_areas st) = live (g_areas st)" unfolding live_but_pid by simp
  have "p \<notin> a_pid ` set (g_areas st)" using no by (metis imageE)
  then have "p \<notin> b_pid ` set (g_bufs st)" using D(9) unfolding bufs_owned_def by (rule contra_subsetD [rotated])
  then show none: "buffer_of p (g_bufs st) = None" by (rule buffer_of_None)
  have "slots_ok mm_of valid (g_mm st) (g_pt st) b" if "buffer_of q (g_bufs st) = Some b" for q b
    using D(10) [of q b] that none by (cases "q = p") simp_all
  moreover have "areas_ok (g_mm st) (g_areas st)" "homes_ok mm_of (g_mm st) (g_areas st)"
    using D(5,7) no by (simp_all add: areas_ok_def homes_ok_def)
  ultimately show "msafe mm_of st"
    using D(1,8,11,12) by (simp add: module_safe_def page_safe_def)
qed

lemma exit_any:
  assumes safe: "msafe mm_of st" and own: "bufs_owned st" and inj: "inj mm_of"
    and vs: "set vs = set (mmap (g_mm st) (mm_of p))"
  shows "\<exists>st'. process_exit ops (mm_of p) vs st = Inr st' \<and> msafe mm_of st' \<and> bufs_owned st' \<and>
    live (g_areas st') = live_but p (g_areas st) \<and> buffer_of p (g_bufs st') = None \<and> mmap (g_mm st') (mm_of p) = [] \<and>
    (\<forall>a\<in>set (g_areas st'). a_pid a \<noteq> p) \<and>
    (\<forall>q a. q \<noteq> p \<longrightarrow> pview mm_of st' q a = pview mm_of st q a) \<and> (\<not> fails \<longrightarrow> iexact st \<longrightarrow> iexact st')"
proof -
  from close_all_any [OF torn_down_closing [OF safe own inj vs] inj] obtain st' where
    st': "close_all ops vs (torn_down (mm_of p) st) = Inr st'" "closing mm_of p [] st'"
      "live_but p (g_areas st') = live_but p (g_areas (torn_down (mm_of p) st))"
      "\<forall>q a. q \<noteq> p \<longrightarrow> pview mm_of st' q a = pview mm_of (torn_down (mm_of p) st) q a"
      "\<not> fails \<longrightarrow> iexact (torn_down (mm_of p) st) \<longrightarrow> iexact st'" by blast
  note e = closing_end [OF st'(2)]
  have "pview mm_of (torn_down (mm_of p) st) q a = pview mm_of st q a" if "q \<noteq> p" for q a
    using that inj by (simp add: page_view_def inj_eq split: option.split)
  moreover have "iexact (torn_down (mm_of p) st) = iexact st" by (simp add: index_exact_def torn_down_def)
  ultimately show ?thesis using st' e closingD(2,9) [OF st'(2)]
    by (intro exI [of _ st']) (simp add: process_exit_def torn_down_def)
qed

end

end
