(* ===== verification/Module.thy ===== *)
theory Module
  imports Sharing Exit
begin

text \<open>
  The module as a state machine: allocations, frees, page faults, user writes and exits in any
  order, by any number of single-threaded processes.  The invariant holds in every reachable state, no
  operation dereferences a bad pointer, and the properties of single operations follow for the
  two storages.
\<close>

section \<open>The state machine\<close>

text \<open>
  The guards say what the kernel and the caller are assumed to do: a fault comes from an unmapped
  page of a VMA of the faulting process, every process has its own address space, and a write goes
  to a mapped page of the module (others do not concern it).  A process that exits has its VMAs
  closed in some order; its pid may be used again.

  Three guards leave out calls that the code accepts, because the code does not survive them or
  breaks its own lists: a size of 0 (\<open>empty_request_aliases\<close>), sizes and addresses beyond \<open>2 ^ 62\<close>
  (\<open>bounded\<close>; \<open>huge_request_shrinks_vma\<close>), and a call whose VMA the kernel refuses (\<open>create_region\<close>
  must find a region; \<open>refused_vma_poisons\<close>: the next call may dereference NULL).
\<close>

datatype module_op = MallocOp pid_t u64 | FreeOp pid_t u64 | FaultOp pid_t u64 | WriteOp pid_t u64 page |
  ExitOp pid_t

inductive module_does ::
  "'s storage_ops \<Rightarrow> (u64 \<Rightarrow> bool) \<Rightarrow> (pid_t \<Rightarrow> mmid) \<Rightarrow> module_op \<Rightarrow> 's gstate \<Rightarrow> 's gstate \<Rightarrow> bool"
  for ops valid mm_of where
  Malloc: "env_ok E \<Longrightarrow> t_mm cur = mm_of (t_pid cur) \<Longrightarrow> bounded (g_mm st) sz \<Longrightarrow> 0 < sz \<Longrightarrow>
    create_region E (g_mm st) sz cur (g_areas st) module_vm_ops = Inr (V, as, Some r) \<Longrightarrow>
    generic_malloc E ops cur sz st = Inr (ptr, st') \<Longrightarrow> module_does ops valid mm_of (MallocOp (t_pid cur) sz) st st'"
| Free: "env_ok E \<Longrightarrow> t_mm cur = mm_of (t_pid cur) \<Longrightarrow>
    generic_free E ops cur ptr st = Inr st' \<Longrightarrow> module_does ops valid mm_of (FreeOp (t_pid cur) ptr) st st'"
| Fault: "env_ok E \<Longrightarrow> t_mm cur = mm_of (t_pid cur) \<Longrightarrow> v \<in> set (mmap (g_mm st) (t_mm cur)) \<Longrightarrow>
    g_pt st (t_mm cur, a) = None \<Longrightarrow> valid a \<Longrightarrow>
    generic_malloc_vm_fault E ops cur v a st = Inr (res, st') \<Longrightarrow>
    module_does ops valid mm_of (FaultOp (t_pid cur) a) st st'"
| Write: "g_pt st (mm_of p, a) = Some f \<Longrightarrow> b \<in> set (g_bufs st) \<Longrightarrow> f \<in> set (frames_of b) \<Longrightarrow>
    module_does ops valid mm_of (WriteOp p a pg) st
      (st\<lparr>g_mem := (g_mem st)\<lparr>content := (content (g_mem st))(f := pg)\<rparr>\<rparr>)"
| Exit: "set vs = set (mmap (g_mm st) (mm_of p)) \<Longrightarrow> process_exit ops (mm_of p) vs st = Inr st' \<Longrightarrow>
    module_does ops valid mm_of (ExitOp p) st st'"

inductive_cases module_doesE: "module_does ops valid mm_of l st st'"

definition module_step ::
  "'s storage_ops \<Rightarrow> (u64 \<Rightarrow> bool) \<Rightarrow> (pid_t \<Rightarrow> mmid) \<Rightarrow> 's gstate \<Rightarrow> 's gstate \<Rightarrow> bool" where
  "module_step ops valid mm_of st st' \<longleftrightarrow> (\<exists>l. module_does ops valid mm_of l st st')"

text \<open>The state after loading: no areas, pages or buffers, an empty storage.\<close>

definition loaded :: "('s \<Rightarrow> bool) \<Rightarrow> ('s \<Rightarrow> pid_t \<times> u64 \<Rightarrow> page option) \<Rightarrow> 's gstate \<Rightarrow> bool" where
  "loaded ok stored st \<longleftrightarrow> g_areas st = init_area_list \<and> g_pages st = init_stored_pages \<and> g_bufs st = init_buffers \<and>
     spaces_ok (g_mm st) \<and> ok (g_store st) \<and> stored (g_store st) = Map.empty \<and>
     (\<forall>k f. g_pt st k = Some f \<longrightarrow> f < next_frame (g_mem st)) \<and>
     (\<forall>f. owned (g_mem st) f \<longrightarrow> f < next_frame (g_mem st))"

lemma loaded_inv: "loaded ok stored st \<Longrightarrow> module_inv ok valid stored mm_of st"
  by (auto simp: loaded_def module_inv_def page_inv_def init_area_list_def init_stored_pages_def init_buffers_def
      areas_ok_def homes_ok_def buffers_ok_def mappings_ok_def index_ok_def pages_ok_def)

lemma loaded_owned: "loaded ok stored st \<Longrightarrow> bufs_owned st"
  by (simp add: loaded_def bufs_owned_def init_buffers_def)

lemma vma_of_mm:
  assumes "spaces_ok V" and "v \<in> set (mmap V m)"
  obtains vma where "vmas V v = Some vma" "vm_mm vma = m"
  using assms mm_wfD [of V m v] by (metis spaces_ok_def)

text \<open>Frames of the module are mapped at one place only.\<close>

lemma module_frame_once:
  assumes inv: "page_inv ok valid stored mm_of st" and b: "buffer_of p (g_bufs st) = Some b" "f \<in> set (frames_of b)"
    and k: "g_pt st k = Some f" and k': "g_pt st k' = Some f"
  shows "k = k'"
proof -
  obtain x y where xy: "b_buffer b = Some x" "b_cache b = Some y" "x \<noteq> y"
    using page_inv_buffer [OF inv b(1)] by metis
  note P = page_invD(3) [OF inv]
  show ?thesis
    using mappings_okD(2) [OF P k b] mappings_okD(2) [OF P k' b] xy by (auto simp: maps_at_def)
qed

lemma buffer_of_mem: "distinct (map b_pid bs) \<Longrightarrow> b \<in> set bs \<Longrightarrow> buffer_of (b_pid b) bs = Some b"
  by (induction bs) (auto simp: image_iff)

lemma page_inv_member:
  "page_inv ok valid stored mm_of st \<Longrightarrow> b \<in> set (g_bufs st) \<Longrightarrow> buffer_of (b_pid b) (g_bufs st) = Some b"
  by (rule buffer_of_mem) (simp_all add: page_inv_def buffers_ok_def)

lemma resident_once:
  assumes "page_inv ok valid stored mm_of st"
  shows "\<forall>k k' f b. b \<in> set (g_bufs st) \<longrightarrow> f \<in> set (frames_of b) \<longrightarrow> g_pt st k = Some f \<longrightarrow> g_pt st k' = Some f \<longrightarrow> k = k'"
  using module_frame_once [OF assms] page_inv_member [OF assms] by blast

lemma resident_card:
  assumes inv: "page_inv ok valid stored mm_of st" and inj: "inj mm_of"
  shows "card {a. \<exists>f b. g_pt st (mm_of p, a) = Some f \<and> b \<in> set (g_bufs st) \<and> f \<in> set (frames_of b)} \<le> 2"
    (is "card ?A \<le> 2")
proof -
  define A where "A = {a. \<exists>f b. g_pt st (mm_of p, a) = Some f \<and> b \<in> set (g_bufs st) \<and> f \<in> set (frames_of b)}"
  have at: "\<exists>b. buffer_of p (g_bufs st) = Some b \<and> a \<in> {b_start b, b_cache_start b}" if "a \<in> A" for a
  proof -
    from that obtain f b where f: "g_pt st (mm_of p, a) = Some f" "b \<in> set (g_bufs st)" "f \<in> set (frames_of b)"
      by (auto simp: A_def)
    note b = page_inv_member [OF inv f(2)]
    from mappings_okD(2) [OF page_invD(3) [OF inv] f(1) b f(3)]
    have "mm_of p = mm_of (b_pid b) \<and> a \<in> {b_start b, b_cache_start b}" by (auto simp: maps_at_def)
    with inj b show ?thesis by (auto dest: injD)
  qed
  have "card A \<le> 2"
  proof (cases "buffer_of p (g_bufs st)")
    case None
    then have "A = {}" using at by auto
    then show ?thesis by simp
  next
    case (Some b)
    have "A \<subseteq> {b_start b, b_cache_start b}" using at Some by auto
    then have "card A \<le> card {b_start b, b_cache_start b}" by (intro card_mono) simp_all
    also have "\<dots> \<le> 2" by (simp add: card_insert_if)
    finally show ?thesis .
  qed
  then show ?thesis by (simp only: A_def)
qed

context storage
begin

lemma fault_total:
  assumes inv: "minv mm_of st" and inj: "inj mm_of" and env: "env_ok E"
    and mm: "t_mm cur = mm_of (t_pid cur)" and v: "v \<in> set (mmap (g_mm st) (t_mm cur))"
    and none: "g_pt st (t_mm cur, a) = None" and val: "valid a"
  obtains res st' where "generic_malloc_vm_fault E ops cur v a st = Inr (res, st')" "minv mm_of st'"
    "pview mm_of st' = pview mm_of st" "g_areas st' = g_areas st"
    "\<not> is_valid_address a v (g_areas st) \<longrightarrow> res = VM_FAULT_SIGBUS \<and> st' = st"
    "is_valid_address a v (g_areas st) \<longrightarrow>
       res = (case g_pt st' (t_mm cur, a) of Some f \<Rightarrow> FaultDone f | None \<Rightarrow> VM_FAULT_SIGBUS)"
    "insert_total E \<Longrightarrow> is_valid_address a v (g_areas st) \<Longrightarrow> g_pt st' (t_mm cur, a) \<noteq> None"
proof (cases "is_valid_address a v (g_areas st)")
  case False
  show thesis
    by (rule that [of VM_FAULT_SIGBUS st]) (use False inv in \<open>simp_all add: generic_malloc_vm_fault_def\<close>)
next
  case True
  note D = module_invD [OF inv]
  obtain vma where "vmas (g_mm st) v = Some vma" "vm_mm vma = t_mm cur"
    using vma_of_mm [OF D(1) v] .
  then obtain res st' where r: "generic_malloc_vm_fault E ops cur v a st = Inr (res, st')" "pinv mm_of st'"
    "pview mm_of st' = pview mm_of st" "g_mm st' = g_mm st" "g_areas st' = g_areas st"
    "res = (case g_pt st' (mm_of (t_pid cur), a) of Some f \<Rightarrow> FaultDone f | None \<Rightarrow> VM_FAULT_SIGBUS)"
    "insert_total E \<Longrightarrow> g_pt st' (mm_of (t_pid cur), a) \<noteq> None"
    using vm_fault_spec [OF D(4) inj env refl, of cur a v vma] none val v True mm by metis
  show thesis
    by (rule that [OF r(1) _ r(3,5)]) (use r(2,4,5,6,7) D True mm in \<open>simp_all add: module_inv_def\<close>)
qed

lemma free_live:
  assumes inv: "minv mm_of st" and inj: "inj mm_of" and env: "env_ok E"
  obtains st' where "generic_free E ops cur ptr st = Inr st'" "minv mm_of st'"
    "live (g_areas st') = live (g_areas st) \<or>
     (\<exists>us r ws. live (g_areas st) = us @ (t_pid cur, r) # ws \<and> live (g_areas st') = us @ ws \<and> virtual_start r = ptr)"
    "\<And>q a. q \<noteq> t_pid cur \<Longrightarrow> pview mm_of st' q a = pview mm_of st q a"
proof -
  note D = module_invD [OF inv]
  have each: "\<forall>a\<in>set (g_areas st). area_ok (g_mm st) a" using D(2) by (simp add: areas_ok_def)
  from get_area_spec [OF this, of "t_pid cur" ptr] obtain found where
    ga: "get_area (g_mm st) (t_pid cur) ptr (g_areas st) = Inr found" by blast
  from remove_region_live [OF D(2), of "t_pid cur" ptr] obtain as' cl where
    rr: "remove_region (g_mm st) (t_pid cur) ptr (g_areas st) = Inr (as', cl)"
    and lv: "live as' = live (g_areas st) \<or> (\<exists>us r ws. live (g_areas st) = us @ (t_pid cur, r) # ws \<and>
      live as' = us @ ws \<and> virtual_start r = ptr)" by blast
  obtain st' where st': "generic_free E ops cur ptr st = Inr st'" "minv mm_of st'" "live (g_areas st') = live as'"
    "\<And>q a. q \<noteq> t_pid cur \<or> (\<not> removable (g_areas st) found ptr a \<and>
        (\<forall>v vma. cl = Some (Some v) \<longrightarrow> vmas (g_mm st) v = Some vma \<longrightarrow> \<not> (vm_start vma \<le> a \<and> a < vm_end vma))) \<Longrightarrow>
       pview mm_of st' q a = pview mm_of st q a"
    using free_spec [OF inv inj env refl ga rr] by metis
  show thesis by (rule that [OF st'(1,2)]) (use st'(3,4) lv in auto)
qed

lemma free_shared:
  assumes inv: "minv mm_of st" and inj: "inj mm_of" and env: "env_ok E"
    and ga: "get_area (g_mm st) (t_pid cur) ptr (g_areas st) = Inr (Some i)"
    and gr: "get_region (g_areas st ! i) ptr = Some (pre, r, post)"
    and v: "a_vma (g_areas st ! i) = Some v" "vmas (g_mm st) v = Some vma"
    and nw: "unat (vm_start vma) + bytes (regions (g_areas st ! i)) \<le> 18446744073709547520"
    and x: "x \<in> set (used pre) \<union> set (used post)" and a: "on_page x a"
  obtains st' where "generic_free E ops cur ptr st = Inr st'"
    "pview mm_of st' (t_pid cur) a = pview mm_of st (t_pid cur) a"
proof -
  note D = module_invD [OF inv]
  have each: "\<forall>a\<in>set (g_areas st). area_ok (g_mm st) a" using D(2) by (simp add: areas_ok_def)
  from get_area_spec [OF each, of "t_pid cur" ptr] ga have i: "i < length (g_areas st)" by auto
  then have "area_ok (g_mm st) (g_areas st ! i)" using each by simp
  then have t: "tiled (vm_start vma) (regions (g_areas st ! i))"
    using v by (auto simp: area_ok_def regions_wf_def)
  have rs: "regions (g_areas st ! i) = pre @ r # post" using get_region_Some [OF gr] by simp
  obtain as' cl where rr: "remove_region (g_mm st) (t_pid cur) ptr (g_areas st) = Inr (as', cl)" and cl: "cl = None"
    by (rule remove_region_shape [OF D(2,3), of "t_pid cur" ptr]) (use ga gr x in blast)
  have "x \<in> set (regions (g_areas st ! i))" using x by (auto simp: rs used_def)
  from tiled_bounds [OF t _ this] nw have "r_end x \<le> 18446744073709547520" by simp
  then have "unat (virtual_start x + r_size x) = r_end x"
    unfolding r_end_def by (intro unat_plus_no_wrap) simp
  then have "unat (align_ceil (virtual_start x + r_size x) PAGE_SHIFT) = round_up 12 (r_end x)"
    using \<open>r_end x \<le> 18446744073709547520\<close> by (subst unat_align_ceil_page) simp_all
  moreover have "round_up 12 (r_end x) \<le> 18446744073709547520"
    using \<open>r_end x \<le> 18446744073709547520\<close> by (intro round_up_least) simp_all
  ultimately have "unat a < 18446744073709547520"
    using a by (simp add: on_page_def word_less_nat_alt)
  then have nr: "\<not> removable (g_areas st) (Some i) ptr a"
    using can_remove_page_no_other [OF t [unfolded rs] nw [unfolded rs], of a x] x a gr
    by (auto simp: removable_def)
  from free_spec [OF inv inj env refl ga rr] obtain st' where "generic_free E ops cur ptr st = Inr st'"
    "\<And>q a. q \<noteq> t_pid cur \<or> (\<not> removable (g_areas st) (Some i) ptr a \<and>
        (\<forall>v vma. cl = Some (Some v) \<longrightarrow> vmas (g_mm st) v = Some vma \<longrightarrow> \<not> (vm_start vma \<le> a \<and> a < vm_end vma))) \<Longrightarrow>
       pview mm_of st' q a = pview mm_of st q a" by metis
  with nr cl that show thesis by simp
qed

text \<open>A process exits.\<close>

lemma exit_total:
  assumes inv: "minv mm_of st" and own: "bufs_owned st" and inj: "inj mm_of"
    and vs: "set vs = set (mmap (g_mm st) (mm_of p))"
  shows "\<exists>st'. process_exit ops (mm_of p) vs st = Inr st' \<and> minv mm_of st' \<and> bufs_owned st' \<and>
    live (g_areas st') = live_but p (g_areas st) \<and> buffer_of p (g_bufs st') = None \<and> mmap (g_mm st') (mm_of p) = [] \<and>
    (\<forall>a\<in>set (g_areas st'). a_pid a \<noteq> p) \<and>
    (\<forall>q a. q \<noteq> p \<longrightarrow> pview mm_of st' q a = pview mm_of st q a)"
proof -
  note S = inv [unfolded module_inv_safe]
  from sound.exit_any [OF conjunct1 [OF S] own inj vs] S show ?thesis by (auto simp: module_inv_safe)
qed

lemma step_inv:
  assumes "module_does ops valid mm_of l st st'" and inv: "minv mm_of st" and own: "bufs_owned st" and inj: "inj mm_of"
  shows "minv mm_of st'"
  using assms(1)
proof (cases rule: module_doesE [consumes 1, case_names Malloc Free Fault Write Exit])
  case (Malloc E cur sz V as r ptr)
  with malloc_spec [OF inv inj, of E cur sz] show ?thesis by fastforce
next
  case (Free E cur ptr)
  with free_live [OF inv inj, of E cur ptr] show ?thesis by (metis sum.inject(2))
next
  case (Fault E cur v a res)
  with fault_total [OF inv inj, of E cur v a] show ?thesis by (metis Pair_inject sum.inject(2))
next
  case (Write p a f b pg)
  then show ?thesis
    using inv by (simp add: module_inv_def page_inv_def mappings_ok_def)
next
  case (Exit vs p)
  with exit_total [OF inv own inj, of vs p] show ?thesis by auto
qed

lemma step_owned:
  assumes "module_does ops valid mm_of l st st'" and inv: "minv mm_of st" and own: "bufs_owned st" and inj: "inj mm_of"
  shows "bufs_owned st'"
  using assms(1)
proof (cases rule: module_doesE [consumes 1, case_names Malloc Free Fault Write Exit])
  case (Malloc E cur sz V as r ptr)
  with malloc_owned own show ?thesis by metis
next
  case (Free E cur ptr)
  have "distinct (buf_pids st)"
    using page_invD(1) [OF module_invD(4) [OF inv]] by (simp add: buffers_ok_def)
  with free_owned [OF Free(4) own] show ?thesis by blast
next
  case (Fault E cur v a res)
  note D = module_invD [OF inv]
  obtain vma where "vmas (g_mm st) v = Some vma" "vm_mm vma = t_mm cur"
    using vma_of_mm [OF D(1) Fault(4)] Fault(3) by metis
  with fault_owned [OF Fault(7) own D(3) inj Fault(3)] show ?thesis by blast
next
  case (Write p a f b pg)
  with own show ?thesis by (simp add: bufs_owned_def)
next
  case (Exit vs p)
  with exit_total [OF inv own inj, of vs p] show ?thesis by auto
qed

lemma reachable_inv:
  assumes "(module_step ops valid mm_of)\<^sup>*\<^sup>* st st'" and "minv mm_of st" and "bufs_owned st" and "inj mm_of"
  shows "minv mm_of st' \<and> bufs_owned st'"
  using assms(1)
  by (induction rule: rtranclp_induct) (use assms(2-4) step_inv step_owned in \<open>auto simp: module_step_def\<close>)

text \<open>In a reachable state every operation returns.\<close>

lemma reachable_total:
  assumes "loaded ok stored st0" and "(module_step ops valid mm_of)\<^sup>*\<^sup>* st0 st" and inj: "inj mm_of"
    and env: "env_ok E" and mm: "t_mm cur = mm_of (t_pid cur)"
  shows "bounded (g_mm st) sz \<Longrightarrow> 0 < sz \<Longrightarrow> \<exists>ptr st'. generic_malloc E ops cur sz st = Inr (ptr, st')"
    and "\<exists>st'. generic_free E ops cur ptr st = Inr st'"
    and "v \<in> set (mmap (g_mm st) (t_mm cur)) \<Longrightarrow> g_pt st (t_mm cur, a) = None \<Longrightarrow> valid a \<Longrightarrow>
      \<exists>res st'. generic_malloc_vm_fault E ops cur v a st = Inr (res, st')"
    and "set vs = set (mmap (g_mm st) (mm_of p)) \<Longrightarrow> \<exists>st'. process_exit ops (mm_of p) vs st = Inr st'"
    and "\<exists>st'. generic_malloc_clean ops st = Inr st'"
proof -
  have inv: "minv mm_of st" and own: "bufs_owned st"
    using reachable_inv [OF assms(2) loaded_inv [OF assms(1)] loaded_owned [OF assms(1)] inj] by simp_all
  show "\<exists>st'. process_exit ops (mm_of p) vs st = Inr st'" if "set vs = set (mmap (g_mm st) (mm_of p))"
    using exit_total [OF inv own inj that] by blast
  show "\<exists>ptr st'. generic_malloc E ops cur sz st = Inr (ptr, st')" if "bounded (g_mm st) sz" "0 < sz"
    using malloc_spec [OF inv inj env mm that] by metis
  show "\<exists>st'. generic_free E ops cur ptr st = Inr st'"
    using free_live [OF inv inj env] by metis
  show "\<exists>res st'. generic_malloc_vm_fault E ops cur v a st = Inr (res, st')"
    if "v \<in> set (mmap (g_mm st) (t_mm cur))" "g_pt st (t_mm cur, a) = None" "valid a"
    using fault_total [OF inv inj env mm that] by metis
  note P = page_invD [OF module_invD(4) [OF inv]]
  from remove_buffers_ok [OF P(1)] obtain M where "remove_buffers (g_mem st) (g_bufs st) = Inr M" by blast
  moreover have "ok (g_store st)" using P(4) by (simp add: index_ok_def)
  with release obtain s where "so_release ops (g_store st) = Inr s" by blast
  ultimately show "\<exists>st'. generic_malloc_clean ops st = Inr st'"
    by (simp add: generic_malloc_clean_def)
qed

text \<open>A user write changes the view of one page of one process, when the page is the module's.\<close>

lemma write_view:
  assumes inv: "pinv mm_of st" and inj: "inj mm_of" and f: "g_pt st (mm_of p, a) = Some f"
    and b: "buffer_of q (g_bufs st) = Some b" "f \<in> set (frames_of b)"
  shows "pview mm_of (st\<lparr>g_mem := (g_mem st)\<lparr>content := (content (g_mem st))(f := pg)\<rparr>\<rparr>) r c =
    (if r = p \<and> c = a then pg else pview mm_of st r c)"
proof (cases "r = p \<and> c = a")
  case True
  then show ?thesis using f by (simp add: page_view_def)
next
  case False
  then have "g_pt st (mm_of r, c) \<noteq> Some f"
    using module_frame_once [OF inv b f, of "(mm_of r, c)"] inj by (auto dest: injD)
  then show ?thesis using False by (auto simp: page_view_def split: option.split)
qed

end

end
