(* ===== verification/Close.thy ===== *)
theory Close
  imports Sharing
begin

text \<open>
  The \<open>close\<close> handler: when a VMA of the module goes away as a whole (the process exits or
  unmaps it), the area, its regions and their stored pages go with it, and the buffer of the
  process when this was its last area.
\<close>

section \<open>The pages of a list of regions\<close>

definition touched :: "region_struct list \<Rightarrow> u64 \<Rightarrow> bool" where
  "touched rs a \<longleftrightarrow> 4096 dvd unat a \<and> (\<exists>x\<in>set rs. on_page x a)"

lemma touched_Nil [simp]: "\<not> touched [] a"
  by (simp add: touched_def)

lemma scan_used_mem: "rs \<noteq> [] \<Longrightarrow> scan_used c rs \<in> set rs"
  by (induction rs arbitrary: c) (auto, metis scan_used.simps(1))

text \<open>
  The first region of the list goes: every page it touches can be removed, unless a later region
  touches it, too.
\<close>

lemma touched_first:
  assumes t: "tiled b (r # rs)" and nw: "unat b + bytes (r # rs) \<le> 18446744073709547520"
  shows "touched (r # rs) a \<longleftrightarrow> touched rs a \<or>
    (a \<in> set (page_addrs (align_floor (virtual_start r) PAGE_SHIFT) (align_ceil (virtual_start r + r_size r) PAGE_SHIFT)) \<and>
     can_remove_page a ([], r, rs))"
    (is "_ \<longleftrightarrow> _ \<or> (a \<in> set (page_addrs ?lo ?fin) \<and> _)")
proof -
  have nw': "unat b + bytes (r # rs) < 2 ^ 64" using nw by simp
  have ende: "unat (virtual_start y + r_size y) = r_end y" "r_end y \<le> 18446744073709547520" if "y \<in> set (r # rs)" for y
    using tiled_bounds [OF t nw' that] nw by (auto simp: r_end_def intro!: unat_plus_no_wrap)
  have ceil: "unat (align_ceil (virtual_start y + r_size y) PAGE_SHIFT) = round_up 12 (r_end y)" if "y \<in> set (r # rs)" for y
    using ende [OF that] by (subst unat_align_ceil_page) simp_all
  have fin: "unat ?fin = round_up 12 (r_end r)" by (rule ceil) simp
  have d: "4096 dvd unat ?lo" "4096 dvd unat ?fin"
    using round_up_dvd [of 12 "r_end r"] by (simp_all add: unat_align_floor_page fin)
  have mem: "a \<in> set (page_addrs ?lo ?fin) \<longleftrightarrow> on_page r a \<and> 4096 dvd unat a"
    by (auto simp: page_addrs_mem [OF d] on_page_def)
  have "touched rs a" if on: "on_page r a" and al: "4096 dvd unat a" and no: "\<not> can_remove_page a ([], r, rs)"
  proof -
    define y where "y = scan_used r rs"
    from no have ne: "rs \<noteq> []" and lt: "align_floor (virtual_start y) PAGE_SHIFT < a + PAGE_SIZE"
      by (auto simp: can_remove_page_def y_def Let_def split: if_splits)
    have y: "y \<in> set rs" using ne unfolding y_def by (rule scan_used_mem)
    have "r_end r \<le> unat (virtual_start y)"
      using tiled_sorted [OF t nw'] y by simp
    then have le: "round_up 12 (r_end r) \<le> round_up 12 (r_end y)"
      by (intro round_up_mono) (simp add: r_end_def)
    have a: "unat a < round_up 12 (r_end r)" using on by (simp add: on_page_def word_less_nat_alt fin)
    have "4096 dvd round_up 12 (r_end r)" using d(2) by (simp add: fin)
    with a al have "unat a + 4096 \<le> round_up 12 (r_end r)" by (auto elim!: dvdE)
    also have "\<dots> \<le> 18446744073709547520"
      using ende(2) [of r] by (intro round_up_least) simp_all
    finally have "unat (a + PAGE_SIZE) = unat a + 4096"
      by (subst unat_plus_no_wrap) (simp_all add: PAGE_SIZE_def)
    with lt have "unat (virtual_start y) div 4096 * 4096 < unat a + 4096"
      by (simp add: word_less_nat_alt unat_align_floor_page)
    with al have "unat (virtual_start y) div 4096 * 4096 \<le> unat a" by (auto elim!: dvdE)
    moreover have "unat a < round_up 12 (r_end y)" using a le by simp
    ultimately have "on_page y a"
      using y by (simp add: on_page_def word_le_nat_alt word_less_nat_alt unat_align_floor_page ceil)
    with y al show ?thesis by (auto simp: touched_def)
  qed
  with mem show ?thesis by (auto simp: touched_def)
qed

text \<open>An address inside the VMA of one area belongs to no other area of the process.\<close>

lemma get_area_own:
  assumes sp: "spaces_ok V" and as: "areas_ok V as" and ho: "homes_ok mm_of V as"
    and i: "i < length as" "a_vma (as ! i) = Some v" "vmas V v = Some vma"
    and x: "vm_start vma \<le> x" "x < vm_end vma"
  shows "get_area V (a_pid (as ! i)) x as = Inr (Some i)"
proof (rule get_area_unique [OF _ i(1) refl i(2,3) x])
  show each: "\<forall>a\<in>set as. area_ok V a" using as by (simp add: areas_ok_def)
  have at: "a_vma (as ! k) = Some w \<and> vmas V w = Some c \<Longrightarrow> w \<in> set (mmap V (mm_of (a_pid (as ! k))))" if "k < length as" for k w c
    using each ho that nth_mem [OF that] by (fastforce elim!: area_okE simp: homes_ok_def home_ok_def)
  fix j w c
  assume j: "j < length as" "j \<noteq> i" "a_pid (as ! j) = a_pid (as ! i)" "a_vma (as ! j) = Some w" "vmas V w = Some c"
  have "w \<noteq> v"
    using as i(1,2) j(1,2,4) nth_eq_iff_index_eq [of "map a_vma as" i j] by (auto simp: areas_ok_def)
  moreover have "mm_wf V (mm_of (a_pid (as ! i)))" using sp by (simp add: spaces_ok_def)
  ultimately have "vm_end c \<le> vm_start vma \<or> vm_end vma \<le> vm_start c"
    using mm_wf_disjoint [of V _ w v c vma] at [OF j(1)] at [OF i(1)] j(3,4,5) i by metis
  with x show "\<not> (vm_start c \<le> x \<and> x < vm_end c)" by auto
qed

section \<open>The loop over the regions\<close>

context storage
begin

abbreviation "iok \<equiv> index_ok ok valid stored"

lemma close_step:
  assumes ix: "iok (g_store st) (g_pages st)"
    and ga: "get_area (g_mm st) p (virtual_start r) (g_areas st) = Inr (Some i)"
    and rs: "regions (g_areas st ! i) = r # rs"
    and t: "tiled b (r # rs)" and nw: "unat b + bytes (r # rs) \<le> 18446744073709547520"
  shows "\<exists>s pages. remove_storage_pages ops p (virtual_start r) st = Inr (st\<lparr>g_store := s, g_pages := pages\<rparr>) \<and>
    iok s pages \<and>
    (\<forall>k. stored s k = stored (g_store st) k \<or> (stored s k = None \<and> fst k = p \<and> touched (r # rs) (snd k))) \<and>
    (\<forall>a. touched (r # rs) a \<longrightarrow> touched rs a \<or> stored s (p, a) = None)"
proof -
  define addrs where "addrs = page_addrs (align_floor (virtual_start r) PAGE_SHIFT)
    (align_ceil (virtual_start r + r_size r) PAGE_SHIFT)"
  have gr: "get_region (g_areas st ! i) (virtual_start r) = Some ([], r, rs)"
    by (simp add: get_region_def rs)
  from remove_pages_spec [OF ix, of p "([], r, rs)" addrs] obtain s pages where
    run: "remove_pages ops p ([], r, rs) addrs st = Inr (st\<lparr>g_store := s, g_pages := pages\<rparr>)" and ok: "iok s pages"
    and st: "stored s = (\<lambda>k. if \<exists>a\<in>set addrs. k = (p, a) \<and> can_remove_page a ([], r, rs) then None else stored (g_store st) k)"
    by blast
  note tf = touched_first [OF t nw, folded addrs_def]
  have k: "stored s k = stored (g_store st) k \<or> (stored s k = None \<and> fst k = p \<and> touched (r # rs) (snd k))" for k
    unfolding st using tf [of "snd k"] by (cases k) simp
  have t: "touched rs a \<or> stored s (p, a) = None" if "touched (r # rs) a" for a
    unfolding st using that tf [of a] by auto
  have "remove_storage_pages ops p (virtual_start r) st = Inr (st\<lparr>g_store := s, g_pages := pages\<rparr>)"
    using run ga gr by (simp add: remove_storage_pages_def Let_def addrs_def)
  with ok k t show ?thesis by (intro exI [of _ s] exI [of _ pages]) simp
qed

lemma close_regions_spec:
  assumes "iok (g_store st) (g_pages st)" and "i < length (g_areas st)" and "a_pid (g_areas st ! i) = p"
    and "regions (g_areas st ! i) = rs" and "tiled b rs" and "unat b + bytes rs \<le> 18446744073709547520"
    and "\<forall>r\<in>set rs. get_area (g_mm st) p (virtual_start r) (g_areas st) = Inr (Some i)"
  shows "\<exists>s pages. close_regions ops i rs st = Inr (st\<lparr>g_store := s, g_pages := pages,
       g_areas := (g_areas st)[i := (g_areas st ! i)\<lparr>regions := []\<rparr>]\<rparr>) \<and> iok s pages \<and>
    (\<forall>k. stored s k = (if fst k = p \<and> touched rs (snd k) then None else stored (g_store st) k))"
  using assms
proof (induction rs arbitrary: st b)
  case Nil
  have "(g_areas st ! i)\<lparr>regions := []\<rparr> = g_areas st ! i" using Nil.prems(4) by simp
  then have "st\<lparr>g_store := g_store st, g_pages := g_pages st, g_areas := (g_areas st)[i := (g_areas st ! i)\<lparr>regions := []\<rparr>]\<rparr> = st"
    by simp
  then show ?case by (intro exI [of _ "g_store st"] exI [of _ "g_pages st"]) (use Nil.prems(1) in simp)
next
  case (Cons r rs)
  have ga0: "get_area (g_mm st) p (virtual_start r) (g_areas st) = Inr (Some i)" using Cons.prems(7) by simp
  obtain s1 pages1 where
    s1: "remove_storage_pages ops p (virtual_start r) st = Inr (st\<lparr>g_store := s1, g_pages := pages1\<rparr>)" "iok s1 pages1"
    "\<forall>k. stored s1 k = stored (g_store st) k \<or> (stored s1 k = None \<and> fst k = p \<and> touched (r # rs) (snd k))"
    "\<forall>a. touched (r # rs) a \<longrightarrow> touched rs a \<or> stored s1 (p, a) = None"
    using close_step [OF Cons.prems(1) ga0 Cons.prems(4,5,6)] by blast
  define as1 where "as1 = (g_areas st)[i := (g_areas st ! i)\<lparr>regions := rs\<rparr>]"
  define st1 where "st1 = st\<lparr>g_store := s1, g_pages := pages1, g_areas := as1\<rparr>"
  have i: "i < length as1" "a_pid (as1 ! i) = p" "regions (as1 ! i) = rs"
    using Cons.prems(2,3) by (simp_all add: as1_def)
  have "map (\<lambda>a. (a_pid a, a_vma a)) as1 = map (\<lambda>a. (a_pid a, a_vma a)) (g_areas st)"
    using Cons.prems(2) by (simp add: as1_def map_update list_update_same_conv)
  note ga = get_area_cong [OF this]
  have t: "tiled (b + r_size r) rs" using Cons.prems(5) by simp
  have nw: "unat (b + r_size r) + bytes rs \<le> 18446744073709547520"
    using Cons.prems(6) by (subst unat_plus_no_wrap) simp_all
  obtain s pages where s: "close_regions ops i rs st1 = Inr (st1\<lparr>g_store := s, g_pages := pages,
       g_areas := (g_areas st1)[i := (g_areas st1 ! i)\<lparr>regions := []\<rparr>]\<rparr>)" "iok s pages"
    "\<forall>k. stored s k = (if fst k = p \<and> touched rs (snd k) then None else stored (g_store st1) k)"
    using Cons.IH [of st1 "b + r_size r"] i s1(2) t nw Cons.prems(7) by (auto simp: st1_def ga)
  have areas: "(g_areas st1)[i := (g_areas st1 ! i)\<lparr>regions := []\<rparr>] = (g_areas st)[i := (g_areas st ! i)\<lparr>regions := []\<rparr>]"
    using Cons.prems(2) by (simp add: st1_def as1_def)
  have "close_regions ops i (r # rs) st = close_regions ops i rs st1"
    using s1(1) Cons.prems(3) by (simp add: st1_def as1_def)
  also have "\<dots> = Inr (st\<lparr>g_store := s, g_pages := pages, g_areas := (g_areas st)[i := (g_areas st ! i)\<lparr>regions := []\<rparr>]\<rparr>)"
    unfolding s(1) areas by (simp add: st1_def)
  finally have run: "close_regions ops i (r # rs) st = \<dots>" .
  have "stored s k = (if fst k = p \<and> touched (r # rs) (snd k) then None else stored (g_store st) k)" for k
    using spec [OF s(3), of k] spec [OF s1(3), of k] spec [OF s1(4), of "snd k"] touched_first [OF Cons.prems(5,6), of "snd k"]
    by (cases k) (auto simp: st1_def split: if_splits)
  with run s(2) show ?case by (intro exI [of _ s] exI [of _ pages]) simp
qed

lemma close_vma_spec:
  assumes sp: "spaces_ok (g_mm st)" and as: "areas_ok (g_mm st) (g_areas st)" and ho: "homes_ok mm_of (g_mm st) (g_areas st)"
    and bs: "buffers_ok (g_mem st) (g_bufs st)" and ix: "iok (g_store st) (g_pages st)"
    and i: "i < length (g_areas st)" "a_vma (g_areas st ! i) = Some v" "vmas (g_mm st) v = Some vma"
    and lt: "\<forall>r\<in>set (regions (g_areas st ! i)). virtual_start r < vm_end vma"
    and nw: "unat (vm_start vma) + bytes (regions (g_areas st ! i)) \<le> 18446744073709547520"
  defines "p \<equiv> a_pid (g_areas st ! i)" and "areas \<equiv> take i (g_areas st) @ drop (Suc i) (g_areas st)"
  shows "\<exists>st'. generic_malloc_vm_close ops v st = Inr st' \<and> g_areas st' = areas \<and>
    g_mm st' = g_mm st \<and> g_pt st' = g_pt st \<and> iok (g_store st') (g_pages st') \<and>
    buffers_ok (g_mem st') (g_bufs st') \<and>
    g_bufs st' = (if get_area_count p areas = 0 then drop_buffer p (g_bufs st) else g_bufs st) \<and>
    (\<forall>k. stored (g_store st') k =
       (if fst k = p \<and> touched (regions (g_areas st ! i)) (snd k) then None else stored (g_store st) k))"
proof -
  define rs where "rs = regions (g_areas st ! i)"
  have "area_ok (g_mm st) (g_areas st ! i)" using as i(1) by (simp add: areas_ok_def)
  then have t: "tiled (vm_start vma) rs" using i(2,3) by (auto elim!: area_okE simp: regions_wf_def rs_def)
  have "get_area (g_mm st) p (virtual_start r) (g_areas st) = Inr (Some i)" if r: "r \<in> set rs" for r
  proof -
    have "vm_start vma \<le> virtual_start r"
      using tiled_bounds [OF t _ r] nw by (simp add: rs_def word_le_nat_alt)
    moreover have "virtual_start r < vm_end vma" using lt r by (simp add: rs_def)
    ultimately show ?thesis unfolding p_def by (rule get_area_own [OF sp as ho i])
  qed
  with close_regions_spec [OF ix i(1) meta_eq_to_obj_eq [OF p_def, symmetric] rs_def [symmetric] t] nw obtain s pages where
    c: "close_regions ops i rs st = Inr (st\<lparr>g_store := s, g_pages := pages,
       g_areas := (g_areas st)[i := (g_areas st ! i)\<lparr>regions := []\<rparr>]\<rparr>)" "iok s pages"
    "\<forall>k. stored s k = (if fst k = p \<and> touched rs (snd k) then None else stored (g_store st) k)"
    by (auto simp: rs_def)
  have find: "find_area v (g_areas st) = Some i"
    using as i by (intro find_area_distinct) (simp_all add: areas_ok_def)
  obtain M where M: "remove_buffer p (g_mem st) (g_bufs st) = Inr (M, drop_buffer p (g_bufs st))"
    "buffers_ok M (drop_buffer p (g_bufs st))"
    using remove_buffer_ok [OF bs, of p] by blast
  define lastone where "lastone = (get_area_count p areas = 0)"
  define st' where "st' = st\<lparr>g_store := s, g_pages := pages, g_areas := areas,
    g_mem := (if lastone then M else g_mem st), g_bufs := (if lastone then drop_buffer p (g_bufs st) else g_bufs st)\<rparr>"
  have "generic_malloc_vm_close ops v st = Inr st'"
    using i(1) c(1) M(1) find
    by (simp add: generic_malloc_vm_close_def close_vma_def rs_def [symmetric] Let_def p_def [symmetric]
        areas_def [symmetric] st'_def lastone_def [symmetric])
  with c(2,3) M(2) bs show ?thesis
    by (intro exI [of _ st']) (simp add: st'_def lastone_def rs_def)
qed

end

end
