(* ===== verification/ModuleProps.thy ===== *)
theory ModuleProps
  imports Module Close AreaProps
begin

text \<open>
  The properties of the module with the storage it is built with, the network storage, over a
  lossless connection to \<open>server.py\<close>.
\<close>

section \<open>The module as deployed\<close>

definition net_ok :: "srv net \<Rightarrow> bool" where
  "net_ok n \<longleftrightarrow> sock n = SockOpen \<and> srv_ok (world n)"

definition net_stored :: "srv net \<Rightarrow> pid_t \<times> u64 \<Rightarrow> page option" where
  "net_stored n = table_abs (s_pages (world n))"

definition net_inv :: "(pid_t \<Rightarrow> mmid) \<Rightarrow> srv net gstate \<Rightarrow> bool" where
  "net_inv = module_inv net_ok (\<lambda>_. True) net_stored"

definition net_view :: "(pid_t \<Rightarrow> mmid) \<Rightarrow> srv net gstate \<Rightarrow> pid_t \<Rightarrow> u64 \<Rightarrow> page" where
  "net_view = page_view net_stored"

definition net_ops :: "srv net storage_ops" where
  "net_ops = network_ops linux_ref server_env"

interpretation net: storage net_ops net_ok "\<lambda>_. True" net_stored
  using srv.nst.storage_axioms [of linux_ref]
  by (simp add: net_ops_def net_ok_def [abs_def] net_stored_def [abs_def])

text \<open>A first state: one process, nothing allocated, a fresh server.\<close>

definition start :: "srv net gstate" where
  "start = \<lparr>g_mm = empty_mm, g_pt = Map.empty, g_mem = no_frames, g_areas = [], g_pages = [], g_bufs = [],
     g_store = fresh_net\<rparr>"

lemma start_loaded: "loaded net_ok net_stored start"
  by (simp add: loaded_def start_def init_area_list_def init_stored_pages_def init_buffers_def spaces_ok_def
      empty_mm_wf net_ok_def fresh_net_ok net_stored_def no_frames_def) (simp add: fresh_net_def)

lemma start_inv: "net_inv mm_of start"
  unfolding net_inv_def by (rule loaded_inv [OF start_loaded])

definition demo_cur :: task where
  "demo_cur = \<lparr>t_pid = 7, t_mm = 7\<rparr>"

lemma demo_mm_of: "inj (unat :: pid_t \<Rightarrow> mmid)" "t_mm demo_cur = unat (t_pid demo_cur)"
  by (auto intro!: injI simp: word_unat_eq_iff demo_cur_def)

text \<open>The example after \<open>netmalloc(5000)\<close>.\<close>

definition demo_region :: region_struct where
  "demo_region = \<lparr>r_free = 0, r_size = 5000, virtual_start = 4096\<rparr>"

definition demo_state :: "srv net gstate" where
  "demo_state = start\<lparr>
     g_mm := \<lparr>vmas = [0 \<mapsto> \<lparr>vm_mm = 7, vm_start = 4096, vm_end = 12288,
         vm_flags = {VM_READ, VM_WRITE, VM_EXEC, VM_MIXEDMAP}, vm_ops = 1\<rparr>],
       mmap = (\<lambda>_. [])(7 := [0]), next_vid = 1\<rparr>,
     g_areas := [\<lparr>a_vma = Some 0, a_pid = 7, a_size = 8192, free_space = 3192,
       head = \<lparr>r_free = 0, r_size = 0, virtual_start = 0\<rparr>, regions = [demo_region]\<rparr>]\<rparr>"

lemma demo_create:
  "create_region linux_ref (g_mm start) 5000 demo_cur (g_areas start) module_vm_ops =
     Inr (g_mm demo_state, g_areas demo_state, Some demo_region)"
proof -
  have al: "align_ceil 5000 VMA_SHIFT = 8192" by code_simp
  have "add_vma linux_ref empty_mm demo_cur demo_cur 1 8192 = Inr (g_mm demo_state, Some 0)"
    by (simp add: add_vma_def create_vm_area_struct_def linux_ref_def empty_mm_free demo_cur_def Let_def)
      (simp add: empty_mm_def ref_insert_def place_vma_def PAGE_SIZE_def demo_state_def start_def)
  moreover have "g_mm start = empty_mm" "g_areas start = []" by (simp_all add: start_def)
  ultimately show ?thesis
    by (simp add: create_region_def get_area_container_def add_area_struct_def al module_vm_ops_def Let_def)
      (simp add: linux_ref_def add_region_def get_free_region_def add_region_after_def demo_state_def start_def
        demo_region_def demo_cur_def Let_def)
qed

lemma demo_owned: "bufs_owned demo_state"
  by (simp add: bufs_owned_def demo_state_def start_def)

lemma demo_run: "generic_malloc linux_ref net_ops demo_cur 5000 start = Inr (4096, demo_state)"
  by (simp add: generic_malloc_def demo_create)
    (simp add: start_def unmap_page_def demo_state_def demo_region_def)

lemma demo_env: "bounded (g_mm start) 5000" "g_mm start = empty_mm" "g_areas start = []"
  by (simp_all add: bounded_def start_def empty_mm_def)

lemma demo_inv: "net_inv unat demo_state"
proof -
  have b: "bounded (g_mm start) 5000" "(0 :: u64) < 5000" using demo_env by simp_all
  from net.malloc_spec [OF start_inv [unfolded net_inv_def] demo_mm_of(1) linux_ref_env_ok demo_mm_of(2) b]
  show ?thesis
    unfolding net_inv_def by cases (simp_all add: demo_create demo_run)
qed

section \<open>Faults\<close>

lemma net_fault_total:
  assumes "net_inv mm_of st" and "inj mm_of" and "env_ok E" and "t_mm cur = mm_of (t_pid cur)"
    and "v \<in> set (mmap (g_mm st) (t_mm cur))" and "g_pt st (t_mm cur, a) = None"
  shows "\<exists>res st'. generic_malloc_vm_fault E net_ops cur v a st = Inr (res, st') \<and> net_inv mm_of st' \<and>
    net_view mm_of st' = net_view mm_of st \<and> g_areas st' = g_areas st \<and>
    (\<not> is_valid_address a v (g_areas st) \<longrightarrow> res = VM_FAULT_SIGBUS \<and> st' = st) \<and>
    (is_valid_address a v (g_areas st) \<longrightarrow>
       res = (case g_pt st' (t_mm cur, a) of Some f \<Rightarrow> FaultDone f | None \<Rightarrow> VM_FAULT_SIGBUS) \<and>
       (insert_total E \<longrightarrow> g_pt st' (t_mm cur, a) \<noteq> None))"
  using net.fault_total [OF assms(1) [unfolded net_inv_def] assms(2-6) TrueI]
  unfolding net_inv_def net_view_def by metis

section \<open>Properties\<close>

text \<open>
  C5. The page fault handler returns on every fault, keeps the module's invariant, and is
  transparent: no page of any process looks different after it.  For a page that \<open>is_valid_address\<close>
  rejects it answers \<open>VM_FAULT_SIGBUS\<close> and does nothing.  For any other page its answer is the truth: the page is
  mapped to the frame it names, or it is not mapped (the page table had no room) and the answer is
  \<open>VM_FAULT_SIGBUS\<close>.  (\<open>is_valid_address_iff\<close> says in terms of bytes which pages \<open>is_valid_address\<close> accepts.)
\<close>

theorem fault_transparent:
  assumes "net_inv mm_of st" and "inj mm_of" and "env_ok E" and "t_mm cur = mm_of (t_pid cur)"
    and "v \<in> set (mmap (g_mm st) (t_mm cur))" and "g_pt st (t_mm cur, a) = None"
  shows "\<exists>res st'. generic_malloc_vm_fault E net_ops cur v a st = Inr (res, st') \<and> net_inv mm_of st' \<and>
    net_view mm_of st' = net_view mm_of st \<and> g_areas st' = g_areas st \<and>
    (\<not> is_valid_address a v (g_areas st) \<longrightarrow> res = VM_FAULT_SIGBUS \<and> st' = st) \<and>
    (is_valid_address a v (g_areas st) \<longrightarrow>
       res = (case g_pt st' (t_mm cur, a) of Some f \<Rightarrow> FaultDone f | None \<Rightarrow> VM_FAULT_SIGBUS))"
  using net_fault_total [OF assms] by blast

theorem fault_transparent_witness:
  "\<exists>f st'. generic_malloc_vm_fault linux_ref net_ops demo_cur 0 4096 demo_state = Inr (FaultDone f, st') \<and>
     net_view unat st' = net_view unat demo_state"
proof -
  have v: "0 \<in> set (mmap (g_mm demo_state) (t_mm demo_cur))" and n: "g_pt demo_state (t_mm demo_cur, 4096) = None"
    by (simp_all add: demo_state_def start_def demo_cur_def)
  have f: "case generic_malloc_vm_fault linux_ref net_ops demo_cur 0 4096 demo_state of
      Inr (res, st') \<Rightarrow> res = FaultDone 0 | _ \<Rightarrow> False"
    by (simp add: generic_malloc_vm_fault_def is_valid_address_def generic_malloc_get_page_def unmap_page_def
        map_page_def add_buffer_def vmalloc_user_def write_frame_def demo_state_def demo_region_def start_def
        no_frames_def linux_ref_def Let_def align_floor_def align_ceil_def PAGE_SHIFT_def)
  show ?thesis
    using fault_transparent [OF demo_inv demo_mm_of(1) linux_ref_env_ok demo_mm_of(2) v n] f by auto
qed

text \<open>
  C6. Progress: when the page table has room, a fault at a page that a region in use touches ends
  with this page mapped, and the mapped frame holds the bytes the process is to see there, so the
  access that faulted succeeds when it is repeated.
\<close>

theorem fault_succeeds:
  assumes "net_inv mm_of st" and "inj mm_of" and "env_ok E" and "insert_total E" and "t_mm cur = mm_of (t_pid cur)"
    and "v \<in> set (mmap (g_mm st) (t_mm cur))" and "g_pt st (t_mm cur, a) = None"
    and "is_valid_address a v (g_areas st)"
  shows "\<exists>f st'. generic_malloc_vm_fault E net_ops cur v a st = Inr (FaultDone f, st') \<and>
    g_pt st' (t_mm cur, a) = Some f \<and> content (g_mem st') f = net_view mm_of st (t_pid cur) a"
proof -
  obtain res st' where f: "generic_malloc_vm_fault E net_ops cur v a st = Inr (res, st')"
    "page_view net_stored mm_of st' = page_view net_stored mm_of st"
    "is_valid_address a v (g_areas st) \<longrightarrow>
       res = (case g_pt st' (t_mm cur, a) of Some f \<Rightarrow> FaultDone f | None \<Rightarrow> VM_FAULT_SIGBUS)"
    "insert_total E \<Longrightarrow> is_valid_address a v (g_areas st) \<Longrightarrow> g_pt st' (t_mm cur, a) \<noteq> None"
    using net.fault_total [OF assms(1) [unfolded net_inv_def] assms(2,3,5-7) TrueI] by metis
  then obtain x where x: "g_pt st' (t_mm cur, a) = Some x" "res = FaultDone x" using assms(4,8) by auto
  have "net_view mm_of st (t_pid cur) a = content (g_mem st') x"
    unfolding net_view_def f(2) [symmetric] by (simp add: page_view_def x(1) [unfolded assms(5)])
  with f(1) x show ?thesis by auto
qed

theorem fault_succeeds_witness:
  "\<exists>f st'. generic_malloc_vm_fault linux_ref net_ops demo_cur 0 8192 demo_state = Inr (FaultDone f, st') \<and>
     content (g_mem st') f = zero_page"
proof -
  have v: "0 \<in> set (mmap (g_mm demo_state) (t_mm demo_cur))" and n: "g_pt demo_state (t_mm demo_cur, 8192) = None"
    by (simp_all add: demo_state_def start_def demo_cur_def)
  have "is_valid_address 8192 0 (g_areas demo_state)"
    by (simp add: is_valid_address_def demo_state_def demo_region_def align_floor_def align_ceil_def PAGE_SHIFT_def)
  moreover have "net_view unat demo_state (t_pid demo_cur) 8192 = zero_page"
    by (simp add: net_view_def page_view_def demo_state_def start_def)
  ultimately show ?thesis
    using fault_succeeds [OF demo_inv demo_mm_of(1) linux_ref_env_ok linux_ref_insert_total demo_mm_of(2) v n] by auto
qed

text \<open>
  C9. \<open>generic_malloc\<close> for a positive size, when the kernel behaves as documented and memory is
  available: either it answers the address of a new region in use of exactly this size, keeps
  the invariant and no page of any process looks different; or it answers \<open>NULL\<close> because the
  kernel refused a VMA, and no live region and no page has changed.
\<close>

theorem malloc_correct:
  assumes "net_inv mm_of st" and "inj mm_of" and "env_ok E" and "t_mm cur = mm_of (t_pid cur)"
    and "bounded (g_mm st) sz" and "0 < sz"
  shows "\<exists>ptr st'. generic_malloc E net_ops cur sz st = Inr (ptr, st') \<and> net_view mm_of st' = net_view mm_of st \<and>
    ((\<exists>r us ws. ptr = virtual_start r \<and> net_inv mm_of st' \<and> r_size r = sz \<and> r_free r = 0 \<and>
        live (g_areas st) = us @ ws \<and> live (g_areas st') = us @ (t_pid cur, r) # ws) \<or>
     (ptr = 0 \<and> live (g_areas st') = live (g_areas st)))"
  using net.malloc_spec [OF assms(1) [unfolded net_inv_def] assms(2-6)]
  unfolding net_inv_def net_view_def by metis

theorem malloc_correct_witness:
  "\<exists>st'. generic_malloc linux_ref net_ops demo_cur 5000 start = Inr (4096, st') \<and>
     net_view unat st' = net_view unat start \<and> live (g_areas st') = [(7, demo_region)]"
  using malloc_correct [OF start_inv demo_mm_of(1) linux_ref_env_ok demo_mm_of(2) demo_env(1)] demo_run
  by (auto simp: demo_state_def demo_region_def)

text \<open>
  C11. \<open>generic_free\<close> of any address returns and keeps the invariant; it takes at most one live
  region away, one of the calling process that starts at the address, and no page of any other
  process looks different.
\<close>

theorem free_correct:
  assumes "net_inv mm_of st" and "inj mm_of" and "env_ok E"
  shows "\<exists>st'. generic_free E net_ops cur ptr st = Inr st' \<and> net_inv mm_of st' \<and>
    (live (g_areas st') = live (g_areas st) \<or>
     (\<exists>us r ws. live (g_areas st) = us @ (t_pid cur, r) # ws \<and> live (g_areas st') = us @ ws \<and> virtual_start r = ptr)) \<and>
    (\<forall>q a. q \<noteq> t_pid cur \<longrightarrow> net_view mm_of st' q a = net_view mm_of st q a)"
  using net.free_live [OF assms(1) [unfolded net_inv_def] assms(2,3)]
  unfolding net_inv_def net_view_def by metis

theorem free_correct_witness:
  "\<exists>st'. generic_free linux_ref net_ops demo_cur 4096 demo_state = Inr st' \<and> net_inv unat st'"
  using free_correct [OF demo_inv demo_mm_of(1) linux_ref_env_ok] by blast

text \<open>
  C12. Freeing a region takes no page away from its neighbours: a page that another region in use
  of the same area touches looks the same to the process afterwards, in particular a page that
  the two regions share.
\<close>

theorem free_keeps_shared_pages:
  assumes "net_inv mm_of st" and "inj mm_of" and "env_ok E"
    and "get_area (g_mm st) (t_pid cur) ptr (g_areas st) = Inr (Some i)"
    and "get_region (g_areas st ! i) ptr = Some (pre, r, post)"
    and "a_vma (g_areas st ! i) = Some v" and "vmas (g_mm st) v = Some vma"
    and "unat (vm_start vma) + bytes (regions (g_areas st ! i)) \<le> 18446744073709547520"
    and "x \<in> set (used pre) \<union> set (used post)" and "on_page x a"
  shows "\<exists>st'. generic_free E net_ops cur ptr st = Inr st' \<and>
    net_view mm_of st' (t_pid cur) a = net_view mm_of st (t_pid cur) a"
  using net.free_shared [OF assms(1) [unfolded net_inv_def] assms(2-10)]
  unfolding net_view_def by metis

text \<open>
  C1. While the kernel has memory and refuses no VMA, no reachable state can make the kernel thread
  die: from the state after loading, through any sequence of allocations, frees, faults, user writes
  and exits of single-threaded processes, the next allocation, free or fault, the exit of any process
  and the final cleanup return: they dereference neither NULL nor freed objects and free nothing twice.
  The conditions: requested sizes are positive, and sizes and addresses at most \<open>2 ^ 62\<close> (\<open>bounded\<close>);
  in the calls of the run so far the kernel refused no VMA (\<open>module_does\<close>), or the next call may die
  (\<open>refused_vma_poisons\<close>); it behaves as documented and has memory, and the uninitialised list head
  of an area does not happen to hold a 1 (\<open>env_ok\<close>), or a free may die (\<open>uninitialised_head_bad_free\<close>).
\<close>

theorem module_never_oops:
  assumes "loaded net_ok net_stored st0" and "(module_step net_ops (\<lambda>_. True) mm_of)\<^sup>*\<^sup>* st0 st" and "inj mm_of"
    and "env_ok E" and "t_mm cur = mm_of (t_pid cur)"
  shows "(bounded (g_mm st) sz \<and> 0 < sz \<longrightarrow> (\<exists>ptr st'. generic_malloc E net_ops cur sz st = Inr (ptr, st'))) \<and>
    (\<exists>st'. generic_free E net_ops cur ptr st = Inr st') \<and>
    (v \<in> set (mmap (g_mm st) (t_mm cur)) \<and> g_pt st (t_mm cur, a) = None \<longrightarrow>
      (\<exists>res st'. generic_malloc_vm_fault E net_ops cur v a st = Inr (res, st'))) \<and>
    (set vs = set (mmap (g_mm st) (mm_of p)) \<longrightarrow> (\<exists>st'. process_exit net_ops (mm_of p) vs st = Inr st')) \<and>
    (\<exists>st'. generic_malloc_clean net_ops st = Inr st')"
  using net.reachable_total [OF assms] by blast

lemma demo_does: "module_does net_ops (\<lambda>_. True) unat (MallocOp 7 5000) start demo_state"
proof -
  have "module_does net_ops (\<lambda>_. True) unat (MallocOp (t_pid demo_cur) 5000) start demo_state"
    by (rule module_does.Malloc [where E = linux_ref and ptr = 4096 and
          V = "g_mm demo_state" and as = "g_areas demo_state" and r = demo_region])
      (use linux_ref_env_ok demo_mm_of(2) demo_env(1) demo_create demo_run in simp_all)
  then show ?thesis by (simp add: demo_cur_def)
qed

lemma demo_reachable: "(module_step net_ops (\<lambda>_. True) unat)\<^sup>*\<^sup>* start demo_state"
  using demo_does by (intro r_into_rtranclp) (auto simp: module_step_def)

theorem module_never_oops_witness:
  "(\<exists>st'. generic_free linux_ref net_ops demo_cur 4096 demo_state = Inr st') \<and>
   (\<exists>st'. process_exit net_ops (unat (7 :: pid_t)) [0] demo_state = Inr st') \<and>
   (\<exists>st'. generic_malloc_clean net_ops demo_state = Inr st')"
proof -
  have "set [0] = set (mmap (g_mm demo_state) (unat (7 :: pid_t)))" by (simp add: demo_state_def)
  with module_never_oops [OF start_loaded demo_reachable demo_mm_of(1) linux_ref_env_ok demo_mm_of(2)]
  show ?thesis by blast
qed

text \<open>
  C16. However long the module has run, at most two pages of a process are in its memory, and a page
  of its memory is mapped in one place of one process only: every operation that brings a page in has
  put another one away.
\<close>

theorem two_resident_pages:
  assumes "loaded net_ok net_stored st0" and "(module_step net_ops (\<lambda>_. True) mm_of)\<^sup>*\<^sup>* st0 st" and "inj mm_of"
  shows "card {a. \<exists>f b. g_pt st (mm_of p, a) = Some f \<and> b \<in> set (g_bufs st) \<and> f \<in> set (frames_of b)} \<le> 2 \<and>
    (\<forall>k k' f b. b \<in> set (g_bufs st) \<longrightarrow> f \<in> set (frames_of b) \<longrightarrow> g_pt st k = Some f \<longrightarrow> g_pt st k' = Some f \<longrightarrow> k = k')"
proof -
  have "net.minv mm_of st"
    using net.reachable_inv [OF assms(2) loaded_inv [OF assms(1)] loaded_owned [OF assms(1)] assms(3)] by simp
  note inv = module_invD(4) [OF this]
  show ?thesis using resident_card [OF inv assms(3), of p] resident_once [OF inv] by blast
qed

theorem two_resident_pages_witness:
  "card {a. \<exists>f b. g_pt demo_state (unat (7 :: pid_t), a) = Some f \<and> b \<in> set (g_bufs demo_state) \<and> f \<in> set (frames_of b)} \<le> 2"
  using two_resident_pages [OF start_loaded demo_reachable demo_mm_of(1), of 7] by blast

text \<open>
  C32. However long the module has run, the regions that are handed out in one area are pairwise
  disjoint and in address order, and none starts below its VMA, as long as the area does not reach the end of
  the address space: no operation makes two regions share a byte.
\<close>

theorem live_regions_disjoint:
  assumes "loaded net_ok net_stored st0" and "(module_step net_ops (\<lambda>_. True) mm_of)\<^sup>*\<^sup>* st0 st" and "inj mm_of"
    and "a \<in> set (g_areas st)" and "a_vma a = Some v" and "vmas (g_mm st) v = Some vma"
    and "unat (vm_start vma) + bytes (regions a) < 2 ^ 64"
  shows "sorted_wrt (\<lambda>x y. r_end x \<le> unat (virtual_start y)) (used (regions a)) \<and>
    (\<forall>r\<in>set (used (regions a)). vm_start vma \<le> virtual_start r)"
proof -
  have "net.minv mm_of st"
    using net.reachable_inv [OF assms(2) loaded_inv [OF assms(1)] loaded_owned [OF assms(1)] assms(3)] by simp
  then have "area_ok (g_mm st) a" using assms(4) by (simp add: module_inv_def areas_ok_def)
  from used_disjoint [OF this assms(5-7)] show ?thesis .
qed

theorem live_regions_disjoint_witness:
  "sorted_wrt (\<lambda>x y. r_end x \<le> unat (virtual_start y)) (used (regions (hd (g_areas demo_state))))"
proof -
  have "hd (g_areas demo_state) \<in> set (g_areas demo_state)" "a_vma (hd (g_areas demo_state)) = Some 0"
    "vmas (g_mm demo_state) 0 = Some (the (vmas (g_mm demo_state) 0))"
    "unat (vm_start (the (vmas (g_mm demo_state) 0))) + bytes (regions (hd (g_areas demo_state))) < 2 ^ 64"
    by (simp_all add: demo_state_def demo_region_def)
  from live_regions_disjoint [OF start_loaded demo_reachable demo_mm_of(1) this] show ?thesis by blast
qed

text \<open>
  Processes are isolated: writing to a mapped page of the module changes what the writing
  process sees at this page and nothing else, for any process and page.
\<close>

theorem write_isolated:
  assumes "net_inv mm_of st" and "inj mm_of" and "g_pt st (mm_of p, a) = Some f"
    and "buffer_of q (g_bufs st) = Some b" and "f \<in> set (frames_of b)"
  shows "net_view mm_of (st\<lparr>g_mem := (g_mem st)\<lparr>content := (content (g_mem st))(f := pg)\<rparr>\<rparr>) r c =
    (if r = p \<and> c = a then pg else net_view mm_of st r c)"
  unfolding net_view_def
  by (rule net.write_view [OF module_invD(4) [OF assms(1) [unfolded net_inv_def]] assms(2-5)])

text \<open>A state in which two regions share the page at 8192, and in which it is mapped.\<close>

definition shared_area :: area_struct where
  "shared_area = \<lparr>a_vma = Some 0, a_pid = 7, a_size = 8192, free_space = 192,
     head = \<lparr>r_free = 0, r_size = 0, virtual_start = 0\<rparr>,
     regions = [demo_region, \<lparr>r_free = 0, r_size = 3000, virtual_start = 9096\<rparr>]\<rparr>"

definition shared_state :: "srv net gstate" where
  "shared_state = demo_state\<lparr>g_areas := [shared_area], g_pt := [(7, 8192) \<mapsto> 0],
     g_mem := \<lparr>content = (\<lambda>f. if f = 0 then (\<lambda>_. 5) else zero_page), owned = (\<lambda>f. f < 2), next_frame = 2\<rparr>,
     g_bufs := [\<lparr>b_buffer = Some 0, b_vma = Some 0, b_start = 8192, b_pid = 7,
                b_cache = Some 1, b_cache_vma = None, b_cache_start = 0\<rparr>]\<rparr>"

lemma shared_inv: "net_inv unat shared_state"
proof -
  note D = module_invD [OF demo_inv [unfolded net_inv_def]]
  have mm: "g_mm shared_state = g_mm demo_state" by (simp add: shared_state_def)
  have "areas_ok (g_mm shared_state) (g_areas shared_state)" "homes_ok unat (g_mm shared_state) (g_areas shared_state)"
    by (simp_all add: shared_state_def shared_area_def demo_state_def demo_region_def areas_ok_def area_ok_def
        homes_ok_def home_ok_def regions_wf_def tail_used_def)
  moreover have "buffers_ok (g_mem shared_state) (g_bufs shared_state)"
    by (simp add: shared_state_def buffers_ok_def frames_of_def)
  moreover have "slots_ok unat (\<lambda>_. True) (g_mm shared_state) (g_pt shared_state) b"
    if "buffer_of p (g_bufs shared_state) = Some b" for p b
    using that by (auto simp: shared_state_def demo_state_def slots_ok_def slot_ok_def split: if_splits)
  moreover have "mappings_ok unat (g_pt shared_state) (g_mem shared_state) (g_bufs shared_state)"
    by (rule mappings_okI) (auto simp: shared_state_def maps_at_def frames_of_def split: if_splits)
  moreover have "index_ok net_ok (\<lambda>_. True) net_stored (g_store shared_state) (g_pages shared_state)"
    using page_invD(4) [OF D(4)] by (simp add: shared_state_def)
  ultimately show ?thesis
    using D(1) by (simp add: net_inv_def module_inv_def page_inv_def mm)
qed

theorem free_keeps_shared_pages_witness:
  "\<exists>st'. generic_free linux_ref net_ops demo_cur 4096 shared_state = Inr st' \<and>
     net_view unat st' 7 8192 = (\<lambda>_. 5)"
proof -
  let ?x = "\<lparr>r_free = 0, r_size = 3000, virtual_start = 9096\<rparr>"
  have ga: "get_area (g_mm shared_state) (t_pid demo_cur) 4096 (g_areas shared_state) = Inr (Some 0)"
    by (simp add: shared_state_def shared_area_def demo_state_def demo_cur_def)
  have gr: "get_region (g_areas shared_state ! 0) 4096 = Some ([], demo_region, [?x])"
    by (simp add: shared_state_def shared_area_def demo_region_def get_region_def)
  have pg: "on_page ?x 8192" unfolding on_page_def by code_simp
  have "net_view unat shared_state (t_pid demo_cur) 8192 = (\<lambda>_. 5)"
    by (simp add: net_view_def page_view_def shared_state_def demo_cur_def)
  moreover have "t_pid demo_cur = 7" by (simp add: demo_cur_def)
  ultimately show ?thesis
    using free_keeps_shared_pages [OF shared_inv demo_mm_of(1) linux_ref_env_ok ga gr, of 0
        "the (vmas (g_mm shared_state) 0)" ?x 8192] pg
    by (simp add: shared_state_def demo_state_def shared_area_def demo_region_def)
qed

theorem write_isolated_witness:
  "net_view unat (shared_state\<lparr>g_mem := (g_mem shared_state)\<lparr>content := (content (g_mem shared_state))(0 := (\<lambda>_. 9))\<rparr>\<rparr>) 7 8192 = (\<lambda>_. 9)"
  using write_isolated [OF shared_inv demo_mm_of(1), of 7 8192 0 7 "hd (g_bufs shared_state)" "\<lambda>_. 9" 7 8192]
  by (simp add: shared_state_def frames_of_def)

end
