(* ===== verification/Netmalloc.thy ===== *)
theory Netmalloc
  imports Syscall ModuleProps
begin

text \<open>
  \<open>src/src/netmalloc.c\<close>: loading and unloading the module.  Loading patches the two unused system
  calls and starts the allocator with the network storage; unloading undoes both.
\<close>

section \<open>Loading and unloading\<close>

text \<open>\<open>f\<close> and \<open>g\<close> are the addresses of \<open>netmalloc_syscall\<close> and \<open>netfree_syscall\<close>.\<close>

definition default_server :: string where
  "default_server = ''127.0.0.1:12345''"

definition netmalloc_syscall ::
  "kenv \<Rightarrow> 's storage_ops \<Rightarrow> task \<Rightarrow> u64 \<Rightarrow> 's gstate \<Rightarrow> kfault + u64 \<times> 's gstate" where
  "netmalloc_syscall E ops current sz st = generic_malloc E ops current sz st"

definition netfree_syscall :: "kenv \<Rightarrow> 's storage_ops \<Rightarrow> task \<Rightarrow> u64 \<Rightarrow> 's gstate \<Rightarrow> kfault + 's gstate" where
  "netfree_syscall E ops current ptr st = generic_free E ops current ptr st"

definition netmalloc_init_module ::
  "sysenv \<Rightarrow> u64 \<Rightarrow> u64 \<Rightarrow> 's storage_ops \<Rightarrow> string \<Rightarrow> sysmem \<times> 's gstate \<Rightarrow> kfault + int \<times> sysmem \<times> 's gstate" where
  "netmalloc_init_module X f g ops server m =
     (case m of (S, st) \<Rightarrow>
        kbind (replace_syscall X SYSCALL_NI1 f S) (\<lambda>S1.
        kbind (replace_syscall X SYSCALL_NI2 g S1) (\<lambda>S2.
        kbind (generic_malloc_init ops server st) (\<lambda>(error, st'). Inr (error, S2, st')))))"

definition netmalloc_exit_module ::
  "sysenv \<Rightarrow> 's storage_ops \<Rightarrow> sysmem \<times> 's gstate \<Rightarrow> kfault + sysmem \<times> 's gstate" where
  "netmalloc_exit_module X ops m =
     (case m of (S, st) \<Rightarrow>
        kbind (restore_syscall X SYSCALL_NI2 S) (\<lambda>S1.
        kbind (restore_syscall X SYSCALL_NI1 S1) (\<lambda>S2.
        kbind (generic_malloc_clean ops st) (\<lambda>st'. Inr (S2, st')))))"

lemma patched_words: "words (patched p f g e S) = (words S)(entry p SYSCALL_NI1 := f, entry p SYSCALL_NI2 := g)"
  by (simp add: patched_def)

lemma patched_ptes: "ptes (patched p f g e S) e = ptes S e AND NOT PAGE_RW"
  by (simp add: patched_def)

lemma init_module_eq:
  assumes "table_found X e SYSCALL_NI1 S" and "table_found X e SYSCALL_NI2 S"
  shows "netmalloc_init_module X f g ops server (S, st) =
    kbind (generic_malloc_init ops server st) (\<lambda>(error, st').
      Inr (error, patched (sym_addr X ''sys_call_table'') f g e S, st'))"
proof -
  obtain S1 where "replace_syscall X SYSCALL_NI1 f S = Inr S1"
    "replace_syscall X SYSCALL_NI2 g S1 = Inr (patched (sym_addr X ''sys_call_table'') f g e S)"
    using patch_both [OF assms, of f g] by (auto simp: kbind_eq_Inr)
  then show ?thesis by (simp add: netmalloc_init_module_def)
qed

lemma exit_module_eq:
  assumes "table_found X e SYSCALL_NI1 S" and "table_found X e SYSCALL_NI2 S"
    and clean: "generic_malloc_clean ops st = Inr st'"
  defines "p \<equiv> sym_addr X ''sys_call_table''"
  obtains S' where "netmalloc_exit_module X ops (patched p f g e S, st) = Inr (S', st')"
    "words S' = (words S)(entry p SYSCALL_NI1 := words S (entry p SYSCALL_NI2))"
proof -
  obtain S1 S' where "restore_syscall X SYSCALL_NI2 (patched p f g e S) = Inr S1"
    "restore_syscall X SYSCALL_NI1 S1 = Inr S'"
    "words S' = (words S)(entry p SYSCALL_NI1 := words S (entry p SYSCALL_NI2))"
    using restore_both [OF assms(1,2), of f g, folded p_def] by (auto simp: kbind_eq_Inr)
  with clean that show thesis by (simp add: netmalloc_exit_module_def)
qed

section \<open>The network storage at load time\<close>

lemma net_init:
  "so_init net_ops default_server n = Inr (0, \<lparr>sock = SockOpen, world = (world n)\<lparr>s_in := [], s_out := []\<rparr>\<rparr>)"
proof -
  have tw: "takeWhile (\<lambda>c. c \<noteq> CHR '':'') default_server = ''127.0.0.1''"
    and dw: "dropWhile (\<lambda>c. c \<noteq> CHR '':'') default_server = '':12345''"
    by (simp_all add: default_server_def)
  have "kstrtol server_env ''12345'' = (0, 12345)"
    by (simp add: server_env_def is_digit_def)
  then have "parse_address_param linux_ref server_env default_server 16 = (0, ''127.0.0.1'', 12345)"
    by (simp add: parse_address_param_def tw dw linux_ref_def)
  then show ?thesis
    by (simp add: net_ops_def network_ops_def network_init_def socket_init_def) (simp add: server_env_def)
qed

text \<open>The system before the module is loaded: the server keeps no page.\<close>

definition unloaded :: "srv net gstate \<Rightarrow> bool" where
  "unloaded st \<longleftrightarrow> spaces_ok (g_mm st) \<and> s_pages (world (g_store st)) = Map.empty \<and>
     (\<forall>k f. g_pt st k = Some f \<longrightarrow> f < next_frame (g_mem st)) \<and>
     (\<forall>f. owned (g_mem st) f \<longrightarrow> f < next_frame (g_mem st))"

lemma init_loaded:
  assumes "unloaded st"
  obtains st' where "generic_malloc_init net_ops default_server st = Inr (0, st')" "loaded net_ok net_stored st'"
    "g_mm st' = g_mm st" "g_pt st' = g_pt st"
proof -
  define st' where "st' = st\<lparr>g_store := \<lparr>sock = SockOpen, world = (world (g_store st))\<lparr>s_in := [], s_out := []\<rparr>\<rparr>,
    g_areas := init_area_list, g_pages := init_stored_pages, g_bufs := init_buffers\<rparr>"
  have "generic_malloc_init net_ops default_server st = Inr (0, st')"
    by (simp add: generic_malloc_init_def net_init st'_def)
  moreover have "loaded net_ok net_stored st'"
    using assms by (simp add: loaded_def unloaded_def st'_def net_ok_def net_stored_def srv_ok_def table_ok_def
        table_abs_def fun_eq_iff)
  ultimately show thesis using that [of st'] by (simp add: st'_def)
qed

lemma net_release:
  assumes "net_ok n"
  obtains n' where "so_release net_ops n = Inr n'" "sock n' = SockReleased"
proof -
  obtain sz w where
    "sock_sendmsg server_env (header_bytes \<lparr>command = PROTOCOL_RELEASE, ph_pid = 0, ph_address = 0\<rparr>) (world n) = (sz, w)"
    by fastforce
  with assms that show thesis
    by (simp add: net_ok_def net_ops_def network_ops_def network_release_def socket_send_def socket_release_def)
qed

lemma clean_effect:
  assumes inv: "net_inv mm_of st"
  obtains st' where "generic_malloc_clean net_ops st = Inr st'"
    "g_areas st' = []" "g_pages st' = []" "g_bufs st' = []" "sock (g_store st') = SockReleased"
    "g_mm st' = g_mm st" "g_pt st' = g_pt st"
    "\<And>f. owned (g_mem st') f \<longleftrightarrow> owned (g_mem st) f \<and> f \<notin> set (concat (map frames_of (g_bufs st)))"
proof -
  note P = page_invD [OF module_invD(4) [OF inv [unfolded net_inv_def]]]
  from remove_buffers_ok [OF P(1)] obtain M where M: "remove_buffers (g_mem st) (g_bufs st) = Inr M"
    "\<forall>f. owned M f \<longleftrightarrow> owned (g_mem st) f \<and> f \<notin> set (concat (map frames_of (g_bufs st)))" by blast
  have "net_ok (g_store st)" using P(4) by (simp add: index_ok_def)
  from net_release [OF this] obtain n where n: "so_release net_ops (g_store st) = Inr n" "sock n = SockReleased" .
  have "remove_stored_pages ps = []" for ps by (induction ps) simp_all
  moreover have "remove_area_list as = []" for as by (induction as) simp_all
  ultimately show thesis
    using that [of "st\<lparr>g_mem := M, g_bufs := [], g_pages := [], g_areas := [], g_store := n\<rparr>"] M n
    by (simp add: generic_malloc_clean_def)
qed

section \<open>Properties\<close>

text \<open>
  C29. Loading the module, when the table of system calls is found and the server is empty: the two
  entries point to the module, every other word of the table is what it was, the page is
  read-only again, and the allocator is in its initial state with the socket connected.
\<close>

theorem load_correct:
  assumes "table_found X e SYSCALL_NI1 S" and "table_found X e SYSCALL_NI2 S" and "unloaded st"
  defines "p \<equiv> sym_addr X ''sys_call_table''"
  shows "\<exists>S' st'. netmalloc_init_module X f g net_ops default_server (S, st) = Inr (0, S', st') \<and>
    words S' = (words S)(entry p SYSCALL_NI1 := f, entry p SYSCALL_NI2 := g) \<and> ptes S' e AND PAGE_RW = 0 \<and>
    loaded net_ok net_stored st' \<and> g_mm st' = g_mm st \<and> g_pt st' = g_pt st"
proof -
  have "(x AND NOT PAGE_RW) AND PAGE_RW = 0" for x :: u64
    by (rule bit_eqI) (auto simp: bit_simps)
  moreover obtain st' where st': "generic_malloc_init net_ops default_server st = Inr (0, st')"
    "loaded net_ok net_stored st'" "g_mm st' = g_mm st" "g_pt st' = g_pt st"
    using init_loaded [OF assms(3)] .
  ultimately show ?thesis
    using st' by (simp add: init_module_eq [OF assms(1,2)] patched_words patched_ptes p_def)
qed

text \<open>
  C30. Unloading, after any sequence of operations: the cleanup returns, every page of the module's
  buffers is freed, the lists are empty, the socket is released, and the table of system calls is
  what it was before loading if the two entries the module patched were equal.  Both entries get
  the old content of the second one, because the module keeps one saved entry only.
\<close>

theorem unload_correct:
  assumes "table_found X e SYSCALL_NI1 S" and "table_found X e SYSCALL_NI2 S"
    and "loaded net_ok net_stored st0" and "(module_step net_ops (\<lambda>_. True) mm_of)\<^sup>*\<^sup>* st0 st" and "inj mm_of"
  defines "p \<equiv> sym_addr X ''sys_call_table''"
  shows "\<exists>S' st'. netmalloc_exit_module X net_ops (patched p f g e S, st) = Inr (S', st') \<and>
    words S' = (words S)(entry p SYSCALL_NI1 := words S (entry p SYSCALL_NI2)) \<and>
    (words S (entry p SYSCALL_NI1) = words S (entry p SYSCALL_NI2) \<longleftrightarrow> words S' = words S) \<and>
    g_areas st' = [] \<and> g_pages st' = [] \<and> g_bufs st' = [] \<and> sock (g_store st') = SockReleased \<and>
    (\<forall>b\<in>set (g_bufs st). \<forall>x\<in>set (frames_of b). \<not> owned (g_mem st') x)"
proof -
  have inv: "net_inv mm_of st"
    using net.reachable_inv [OF assms(4) loaded_inv [OF assms(3)] loaded_owned [OF assms(3)] assms(5)] by (simp add: net_inv_def)
  obtain st' where st': "generic_malloc_clean net_ops st = Inr st'"
    "g_areas st' = []" "g_pages st' = []" "g_bufs st' = []" "sock (g_store st') = SockReleased"
    "\<And>f. owned (g_mem st') f \<longleftrightarrow> owned (g_mem st) f \<and> f \<notin> set (concat (map frames_of (g_bufs st)))"
    using clean_effect [OF inv] by metis
  obtain S' where S': "netmalloc_exit_module X net_ops (patched p f g e S, st) = Inr (S', st')"
    "words S' = (words S)(entry p SYSCALL_NI1 := words S (entry p SYSCALL_NI2))"
    using exit_module_eq [OF assms(1,2) st'(1), of f g] unfolding p_def by metis
  have "words S' = words S \<longleftrightarrow> words S (entry p SYSCALL_NI1) = words S (entry p SYSCALL_NI2)"
    unfolding S'(2) by (metis fun_upd_same fun_upd_triv)
  with S' st' show ?thesis by auto
qed

text \<open>A system with the table at 4096, in one page; 17 is the address of the unused calls.\<close>

definition demo_sys :: sysenv where
  "demo_sys = \<lparr>sym_addr = (\<lambda>_. 4096), sys_close = 3, lookup_address = (\<lambda>a. if a = 0 then None else Some 0)\<rparr>"

definition demo_table :: sysmem where
  "demo_table = \<lparr>words = (\<lambda>a. if a = 4120 then 3 else 17), ptes = (\<lambda>_. 1), syscall_table = syscall_table_init,
     original_syscall = 0\<rparr>"

lemma demo_found:
  "table_found demo_sys 0 SYSCALL_NI1 demo_table" "table_found demo_sys 0 SYSCALL_NI2 demo_table"
  by (simp_all add: table_found_def demo_sys_def demo_table_def entry_def NR_close_def SYSCALL_NI1_def SYSCALL_NI2_def
      PAGE_RW_def)

theorem load_correct_witness:
  "\<exists>S' st'. netmalloc_init_module demo_sys 1000 2000 net_ops default_server (demo_table, start) = Inr (0, S', st') \<and>
     words S' (4096 + 8 * 184) = 1000 \<and> words S' (4096 + 8 * 185) = 2000"
proof -
  have "unloaded start" by (simp add: unloaded_def start_def spaces_ok_def empty_mm_wf no_frames_def fresh_net_def)
  moreover have "sym_addr demo_sys ''sys_call_table'' = 4096" by (simp add: demo_sys_def)
  ultimately show ?thesis
    using load_correct [OF demo_found, of start 1000 2000]
    by (fastforce simp: entry_def SYSCALL_NI1_def SYSCALL_NI2_def)
qed

theorem unload_correct_witness:
  "\<exists>S' st'. netmalloc_exit_module demo_sys net_ops (patched 4096 1000 2000 0 demo_table, demo_state) = Inr (S', st') \<and>
     words S' = words demo_table \<and> g_areas st' = []"
proof -
  have "sym_addr demo_sys ''sys_call_table'' = 4096" by (simp add: demo_sys_def)
  moreover have "words demo_table (entry 4096 SYSCALL_NI1) = words demo_table (entry 4096 SYSCALL_NI2)"
    by (simp add: demo_table_def entry_def SYSCALL_NI1_def SYSCALL_NI2_def)
  ultimately show ?thesis
    using unload_correct [OF demo_found start_loaded demo_reachable demo_mm_of(1), of 1000 2000] by auto
qed

text \<open>
  When the storage cannot be initialised (no server answers, say), loading fails with its error
  code, but the two system calls stay patched: they point into a module that is not there.
\<close>

theorem failed_load_leaves_syscalls:
  assumes "table_found X e SYSCALL_NI1 S" and "table_found X e SYSCALL_NI2 S"
    and "so_init ops server (g_store st) = Inr (error, s)" and "error \<noteq> 0"
  defines "p \<equiv> sym_addr X ''sys_call_table''"
  shows "\<exists>S' st'. netmalloc_init_module X f g ops server (S, st) = Inr (error, S', st') \<and>
    words S' = (words S)(entry p SYSCALL_NI1 := f, entry p SYSCALL_NI2 := g)"
  using assms(3,4) by (simp add: init_module_eq [OF assms(1,2)] generic_malloc_init_def p_def patched_words)

theorem failed_load_leaves_syscalls_witness:
  "\<exists>S' st'. netmalloc_init_module demo_sys 1000 2000 net_ops ''nowhere'' (demo_table, start) = Inr (- 1, S', st') \<and>
     words S' (entry 4096 SYSCALL_NI1) = 1000"
proof -
  have "so_init net_ops ''nowhere'' (g_store start) = Inr (- 1, g_store start)"
    by (simp add: net_ops_def network_ops_def network_init_def parse_address_param_def linux_ref_def)
  moreover have "sym_addr demo_sys ''sys_call_table'' = 4096" by (simp add: demo_sys_def)
  ultimately show ?thesis
    using failed_load_leaves_syscalls [OF demo_found, of net_ops "''nowhere''" start "- 1" "g_store start" 1000 2000] by auto
qed

text \<open>
  Where the table of system calls is not found, loading patches nothing and reports success,
  and unloading dereferences NULL.
\<close>

theorem unload_without_table_oops:
  assumes "sym_addr X ''sys_call_table'' = 0" and "lookup_address X 0 = None" and "unloaded st"
  shows "\<exists>S' st'. netmalloc_init_module X f g net_ops default_server (S, st) = Inr (0, S', st') \<and>
    words S' = words S \<and> netmalloc_exit_module X net_ops (S', st') = Inl NullDeref"
proof -
  define S' where "S' = S\<lparr>syscall_table := 0\<rparr>"
  have "replace_syscall X n h S = Inr S'" "replace_syscall X n h S' = Inr S'" for n h
    using assms(1) by (simp_all add: replace_syscall_def is_syscall_table_def S'_def)
  moreover obtain st' where "generic_malloc_init net_ops default_server st = Inr (0, st')"
    using init_loaded [OF assms(3)] by metis
  moreover have "restore_syscall X n S' = Inl NullDeref" for n
    using assms(2) by (simp add: restore_syscall_def page_read_write_def S'_def)
  ultimately show ?thesis
    by (simp add: netmalloc_init_module_def netmalloc_exit_module_def) (simp add: S'_def)
qed

theorem unload_without_table_oops_witness:
  "\<exists>S' st'. netmalloc_init_module (demo_sys\<lparr>sym_addr := \<lambda>_. 0\<rparr>) 1000 2000 net_ops default_server (demo_table, start) =
       Inr (0, S', st') \<and>
     netmalloc_exit_module (demo_sys\<lparr>sym_addr := \<lambda>_. 0\<rparr>) net_ops (S', st') = Inl NullDeref"
proof -
  have "unloaded start" by (simp add: unloaded_def start_def spaces_ok_def empty_mm_wf no_frames_def fresh_net_def)
  then show ?thesis
    using unload_without_table_oops [of "demo_sys\<lparr>sym_addr := \<lambda>_. 0\<rparr>" start 1000 2000 demo_table] 
    by (auto simp: demo_sys_def)
qed

end
