(* ===== verification/Lifetime.thy ===== *)
theory Lifetime
  imports ModuleProps
begin

text \<open>
  The end of regions and VMAs, for the module as deployed: what the \<open>close\<close> handler releases, and
  the inputs on which something survives that should not, or goes that should stay.
\<close>

section \<open>Closing a VMA\<close>

text \<open>
  What closing needs of a state.  It says nothing about page tables: the kernel has torn them
  down when it calls the handler.
\<close>

definition net_closable :: "(pid_t \<Rightarrow> mmid) \<Rightarrow> srv net gstate \<Rightarrow> bool" where
  "net_closable mm_of st \<longleftrightarrow> spaces_ok (g_mm st) \<and> areas_ok (g_mm st) (g_areas st) \<and> homes_ok mm_of (g_mm st) (g_areas st) \<and>
     buffers_ok (g_mem st) (g_bufs st) \<and> index_ok net_ok (\<lambda>_. True) net_stored (g_store st) (g_pages st)"

lemma net_inv_closable: "net_inv mm_of st \<Longrightarrow> net_closable mm_of st"
  by (simp add: net_inv_def net_closable_def module_inv_def page_inv_def)

lemma net_closableD:
  assumes "net_closable mm_of st"
  shows "spaces_ok (g_mm st)" "areas_ok (g_mm st) (g_areas st)" "homes_ok mm_of (g_mm st) (g_areas st)"
    "buffers_ok (g_mem st) (g_bufs st)" "index_ok net_ok (\<lambda>_. True) net_stored (g_store st) (g_pages st)"
  using assms by (simp_all add: net_closable_def)

lemma drop_buffer_gone: "distinct (map b_pid bs) \<Longrightarrow> buffer_of p (drop_buffer p bs) = None"
  by (induction bs) (auto simp: image_iff buffer_of_None)

text \<open>
  C13. Closing a VMA whose regions all start inside it: the area goes, every stored page a region
  of the area touches is removed from the storage and from the index, no other stored page
  changes, and the buffer of the process goes if this was its last area.
\<close>

theorem close_releases:
  assumes "net_closable mm_of st" and "i < length (g_areas st)" and "a_vma (g_areas st ! i) = Some v"
    and "vmas (g_mm st) v = Some vma" and "\<forall>r\<in>set (regions (g_areas st ! i)). virtual_start r < vm_end vma"
    and "unat (vm_start vma) + bytes (regions (g_areas st ! i)) \<le> 18446744073709547520"
  defines "p \<equiv> a_pid (g_areas st ! i)" and "areas \<equiv> take i (g_areas st) @ drop (Suc i) (g_areas st)"
  shows "\<exists>st'. generic_malloc_vm_close net_ops v st = Inr st' \<and> g_areas st' = areas \<and>
    (\<forall>a. touched (regions (g_areas st ! i)) a \<longrightarrow>
       \<not> is_stored_page p a (g_pages st') \<and> net_stored (g_store st') (p, a) = None) \<and>
    (\<forall>q a. q \<noteq> p \<or> \<not> touched (regions (g_areas st ! i)) a \<longrightarrow>
       is_stored_page q a (g_pages st') = is_stored_page q a (g_pages st) \<and>
       net_stored (g_store st') (q, a) = net_stored (g_store st) (q, a)) \<and>
    (get_area_count p areas = 0 \<longrightarrow> buffer_of p (g_bufs st') = None)"
proof -
  note D = net_closableD [OF assms(1)]
  from net.close_vma_spec [OF D assms(2-6), folded p_def areas_def] obtain st' where
    st': "generic_malloc_vm_close net_ops v st = Inr st'" "g_areas st' = areas"
      "index_ok net_ok (\<lambda>_. True) net_stored (g_store st') (g_pages st')"
      "g_bufs st' = (if get_area_count p areas = 0 then drop_buffer p (g_bufs st) else g_bufs st)"
    and s: "\<forall>k. net_stored (g_store st') k =
       (if fst k = p \<and> touched (regions (g_areas st ! i)) (snd k) then None else net_stored (g_store st) k)"
    by blast
  have "is_stored_page q a (g_pages st') \<longleftrightarrow> net_stored (g_store st') (q, a) \<noteq> None"
    and "is_stored_page q a (g_pages st) \<longleftrightarrow> net_stored (g_store st) (q, a) \<noteq> None" for q a
    using st'(3) D(5) by (auto simp: index_ok_def spi.mem_keys)
  moreover have "distinct (map b_pid (g_bufs st))" using D(4) by (simp add: buffers_ok_def)
  ultimately show ?thesis
    using st' s by (intro exI [of _ st']) (simp add: drop_buffer_gone)
qed

theorem close_releases_witness:
  "\<exists>st'. generic_malloc_vm_close net_ops 0 shared_state = Inr st' \<and> g_areas st' = [] \<and> buffer_of 7 (g_bufs st') = None \<and>
     \<not> is_stored_page 7 8192 (g_pages st')"
proof -
  have g: "g_areas shared_state = [shared_area]" "a_vma shared_area = Some 0" "a_pid shared_area = 7"
    by (simp_all add: shared_state_def shared_area_def)
  obtain vma where vma: "vmas (g_mm shared_state) 0 = Some vma" "vm_start vma = 4096" "vm_end vma = 12288"
    by (simp add: shared_state_def demo_state_def)
  have "touched (regions shared_area) 8192"
    by (simp add: touched_def shared_area_def on_page_def align_floor_def align_ceil_def PAGE_SHIFT_def)
  then show ?thesis
    using close_releases [OF net_inv_closable [OF shared_inv], of 0 0 vma] vma
    by (auto simp: g) (auto simp: shared_area_def demo_region_def)
qed

section \<open>The exit of a process\<close>

text \<open>
  C14. When a process exits, in whatever order the kernel closes its VMAs, the module forgets it: all
  its areas and regions are gone and so is its buffer with the two pages, which are freed once.  The
  invariant holds afterwards, so its pid may be used again, and nothing is different for any other
  process: their regions stay, and their pages look the same.
\<close>

theorem exit_correct:
  assumes "net_inv mm_of st" and "bufs_owned st" and "inj mm_of" and "set vs = set (mmap (g_mm st) (mm_of p))"
  shows "\<exists>st'. process_exit net_ops (mm_of p) vs st = Inr st' \<and> net_inv mm_of st' \<and> bufs_owned st' \<and>
    (\<forall>a\<in>set (g_areas st'). a_pid a \<noteq> p) \<and> buffer_of p (g_bufs st') = None \<and>
    live (g_areas st') = filter (\<lambda>(q, _). q \<noteq> p) (live (g_areas st)) \<and>
    (\<forall>q a. q \<noteq> p \<longrightarrow> net_view mm_of st' q a = net_view mm_of st q a)"
  using net.exit_total [OF assms(1) [unfolded net_inv_def] assms(2-4)] unfolding net_inv_def net_view_def by metis

theorem exit_correct_witness:
  "\<exists>st'. process_exit net_ops (unat (7 :: pid_t)) [0] shared_state = Inr st' \<and> live (g_areas shared_state) \<noteq> [] \<and>
     live (g_areas st') = [] \<and> buffer_of 7 (g_bufs st') = None \<and> net_inv unat st'"
proof -
  have own: "bufs_owned shared_state" by (simp add: bufs_owned_def shared_state_def shared_area_def)
  have vs: "set [0] = set (mmap (g_mm shared_state) (unat (7 :: pid_t)))" by (simp add: shared_state_def demo_state_def)
  have "live (g_areas shared_state) \<noteq> [] \<and> filter (\<lambda>(q, _). q \<noteq> 7) (live (g_areas shared_state)) = []"
    by (simp add: shared_state_def shared_area_def demo_region_def used_def)
  with exit_correct [OF shared_inv own demo_mm_of(1) vs] show ?thesis by auto
qed

end
