(* ===== verification/Findings.thy ===== *)
theory Findings
  imports Lifetime
begin

text \<open>
  Inputs of the whole module on which something goes wrong: a page survives its region, another
  thread reads zeroes, unmapping by hand leaves a dangling pointer, a refused allocation keeps
  its region.
\<close>

section \<open>A dangling VMA in a buffer\<close>

text \<open>
  Closing a VMA does not touch the buffers, so an entry that still points to it dangles: every
  following \<open>netfree\<close> of the process reads freed memory.
\<close>

lemma dangling_free_oops:
  assumes "buffer_of (t_pid cur) (g_bufs st) = Some b" and "b_vma b = Some v" and "vmas (g_mm st) v = None"
  shows "generic_free E ops cur ptr st = Inl UseAfterFree"
proof -
  obtain i where i: "get_buffer (t_pid cur) (g_bufs st) = Some i" "g_bufs st ! i = b"
    using assms(1) get_buffer_buffer_of [of "t_pid cur" "g_bufs st"] by (cases "get_buffer (t_pid cur) (g_bufs st)") auto
  then have "unmap_page E ops (t_pid cur) False st = Inl UseAfterFree"
    using assms(2,3) by (simp add: unmap_page_def unmap_buffer_def is_existing_vma_def deref_def)
  then show ?thesis by (simp add: generic_free_def)
qed

text \<open>
  A process that has two areas and unmaps one of them itself, while a page of it is in its
  buffer: the handler leaves the pointer to the VMA in the buffer, the kernel frees the VMA, and
  every call of \<open>netfree\<close> by the process dereferences it.
\<close>

theorem munmap_leaves_dangling:
  assumes "net_closable mm_of st" and "i < length (g_areas st)" and "a_vma (g_areas st ! i) = Some v"
    and "vmas (g_mm st) v = Some vma" and "\<forall>r\<in>set (regions (g_areas st ! i)). virtual_start r < vm_end vma"
    and "unat (vm_start vma) + bytes (regions (g_areas st ! i)) \<le> 18446744073709547520"
    and "a_pid (g_areas st ! i) = p"
    and "get_area_count p (take i (g_areas st) @ drop (Suc i) (g_areas st)) \<noteq> 0"
    and "buffer_of p (g_bufs st) = Some b" and "b_vma b = Some v"
  shows "\<exists>st'. close_all net_ops [v] st = Inr st' \<and>
    (\<forall>E cur ptr. t_pid cur = p \<longrightarrow> generic_free E net_ops cur ptr st' = Inl UseAfterFree)"
proof -
  from net.close_vma_spec [OF net_closableD [OF assms(1)] assms(2-6)] assms(7,8) obtain st1 where
    st1: "generic_malloc_vm_close net_ops v st = Inr st1" "g_bufs st1 = g_bufs st" by auto
  define st' where "st' = st1\<lparr>g_mm := (g_mm st1)\<lparr>vmas := (vmas (g_mm st1))(v := None)\<rparr>\<rparr>"
  have "close_all net_ops [v] st = Inr st'" using st1(1) by (simp add: st'_def)
  moreover have "generic_free E net_ops cur ptr st' = Inl UseAfterFree" if "t_pid cur = p" for E cur ptr
    by (rule dangling_free_oops [of _ _ b v]) (use that assms(9,10) st1(2) in \<open>simp_all add: st'_def\<close>)
  ultimately show ?thesis by blast
qed

text \<open>A process with two areas, the first of which has the mapped page.\<close>

definition other_area :: area_struct where
  "other_area = \<lparr>a_vma = Some 1, a_pid = 7, a_size = 8192, free_space = 192,
     head = \<lparr>r_free = 0, r_size = 0, virtual_start = 0\<rparr>,
     regions = [\<lparr>r_free = 0, r_size = 8000, virtual_start = 12288\<rparr>]\<rparr>"

definition two_areas :: "srv net gstate" where
  "two_areas = shared_state\<lparr>g_areas := [shared_area, other_area],
     g_mm := \<lparr>vmas = [0 \<mapsto> \<lparr>vm_mm = 7, vm_start = 4096, vm_end = 12288,
           vm_flags = {VM_READ, VM_WRITE, VM_EXEC, VM_MIXEDMAP}, vm_ops = 1\<rparr>,
         1 \<mapsto> \<lparr>vm_mm = 7, vm_start = 12288, vm_end = 20480,
           vm_flags = {VM_READ, VM_WRITE, VM_EXEC, VM_MIXEDMAP}, vm_ops = 1\<rparr>],
       mmap = (\<lambda>_. [])(7 := [0, 1]), next_vid = 2\<rparr>\<rparr>"

lemma two_areas_closable: "net_closable unat two_areas"
proof -
  note D = net_closableD [OF net_inv_closable [OF shared_inv]]
  have "areas_ok (g_mm two_areas) (g_areas two_areas)" "homes_ok unat (g_mm two_areas) (g_areas two_areas)"
    by (simp_all add: two_areas_def shared_area_def other_area_def demo_region_def areas_ok_def area_ok_def
        homes_ok_def home_ok_def regions_wf_def tail_used_def)
  moreover have "spaces_ok (g_mm two_areas)"
    by (auto simp: two_areas_def spaces_ok_def mm_wf_def before_def vids_fresh_def PAGE_SIZE_def)
  ultimately show ?thesis
    using D(4,5) by (simp add: net_closable_def) (simp add: two_areas_def)
qed

theorem munmap_leaves_dangling_witness:
  "\<exists>st'. close_all net_ops [0] two_areas = Inr st' \<and> generic_free linux_ref net_ops demo_cur 12288 st' = Inl UseAfterFree"
proof -
  obtain vma where vma: "vmas (g_mm two_areas) 0 = Some vma" "vm_start vma = 4096" "vm_end vma = 12288"
    by (simp add: two_areas_def)
  have g: "g_areas two_areas = [shared_area, other_area]" "buffer_of 7 (g_bufs two_areas) = Some (hd (g_bufs shared_state))"
    "b_vma (hd (g_bufs shared_state)) = Some 0" "t_pid demo_cur = 7"
    by (simp_all add: two_areas_def shared_state_def demo_cur_def)
  have a: "a_vma shared_area = Some 0" "a_pid shared_area = 7" "a_pid other_area = 7"
    by (simp_all add: shared_area_def other_area_def)
  have r: "\<forall>r\<in>set (regions shared_area). virtual_start r < vm_end vma"
    "unat (vm_start vma) + bytes (regions shared_area) \<le> 18446744073709547520"
    by (simp_all add: vma shared_area_def demo_region_def)
  show ?thesis
    using munmap_leaves_dangling [OF two_areas_closable, of 0 0 vma 7 "hd (g_bufs shared_state)"] vma(1) r g a by auto
qed

section \<open>An allocation that is refused late\<close>

lemma copy_page_areas: "copy_page_from_user E ops p a vma st = Inr (e, st') \<Longrightarrow> g_areas st' = g_areas st"
  unfolding copy_page_from_user_def
  by (elim kbind_InrE) (auto simp: Let_def split: if_splits option.splits prod.splits elim!: kbind_InrE)

lemma remove_user_page_areas: "remove_user_page E a vma st = Inr (e, st') \<Longrightarrow> g_areas st' = g_areas st"
  by (auto simp: remove_user_page_def kbind_eq_Inr split: if_splits)

lemma unmap_buffer_areas: "unmap_buffer E ops i st = Inr (e, st') \<Longrightarrow> g_areas st' = g_areas st"
  unfolding unmap_buffer_def Let_def
  by (elim kbind_InrE)
    (auto split: if_splits prod.splits elim!: kbind_InrE dest!: copy_page_areas remove_user_page_areas)

lemma unmap_page_areas: "unmap_page E ops pid cache st = Inr (e, st') \<Longrightarrow> g_areas st' = g_areas st"
  unfolding unmap_page_def
  by (auto simp: swap_at_def split: if_splits option.splits elim!: kbind_InrE dest!: unmap_buffer_areas)

text \<open>
  When the page in the buffer cannot be saved, an allocation answers \<open>NULL\<close> although its
  region was made: the region stays live, and no address to free it by was handed out.
\<close>

theorem refused_malloc_keeps_region:
  assumes "spaces_ok (g_mm st)" and "areas_ok (g_mm st) (g_areas st)" and "bounded (g_mm st) sz"
    and "alloc_ok E" and "insert_vm_ok E"
    and "create_region E (g_mm st) sz cur (g_areas st) module_vm_ops = Inr (V, as, Some r)"
    and "unmap_page E ops (t_pid cur) False (st\<lparr>g_mm := V, g_areas := as\<rparr>) = Inr (error, st')" and "error < 0"
  shows "generic_malloc E ops cur sz st = Inr (0, st') \<and>
    (\<exists>us ws. live (g_areas st) = us @ ws \<and> live (g_areas st') = us @ (t_pid cur, r) # ws)"
proof
  show "generic_malloc E ops cur sz st = Inr (0, st')" using assms(6-8) by (simp add: generic_malloc_def)
  have "g_areas st' = as" using unmap_page_areas [OF assms(7)] by simp
  with create_region_spec [OF assms(1-5), of cur module_vm_ops]
  show "\<exists>us ws. live (g_areas st) = us @ ws \<and> live (g_areas st') = us @ (t_pid cur, r) # ws"
    by cases (use assms(6) in auto)
qed

text \<open>A kernel that cannot map the user's page.\<close>

definition no_kmap :: kenv where
  "no_kmap = linux_ref\<lparr>kmap_ok := \<lambda>_. False\<rparr>"

theorem refused_malloc_keeps_region_witness:
  "\<exists>st'. generic_malloc no_kmap net_ops demo_cur 100 shared_state = Inr (0, st') \<and>
     (7, \<lparr>r_free = 0, r_size = 100, virtual_start = 12096\<rparr>) \<in> set (live (g_areas st'))"
proof -
  let ?r = "\<lparr>r_free = 0, r_size = 100, virtual_start = 12096\<rparr>"
  define as where "as = [shared_area\<lparr>free_space := 92, regions := regions shared_area @ [?r]\<rparr>]"
  have "create_region no_kmap (g_mm shared_state) 100 demo_cur (g_areas shared_state) module_vm_ops =
      Inr (g_mm shared_state, as, Some ?r)"
    by (simp add: create_region_def get_area_container_def shared_state_def demo_cur_def shared_area_def as_def
        add_region_def get_free_region_def demo_region_def add_region_after_def no_kmap_def linux_ref_def Let_def)
  moreover obtain st' where "unmap_page no_kmap net_ops (t_pid demo_cur) False
      (shared_state\<lparr>g_mm := g_mm shared_state, g_areas := as\<rparr>) = Inr (- 12, st')"
    by (simp add: unmap_page_def unmap_buffer_def is_existing_vma_def copy_page_from_user_def shared_state_def
        demo_state_def demo_cur_def no_kmap_def linux_ref_def ENOMEM_def)
  moreover have "alloc_ok no_kmap" "insert_vm_ok no_kmap"
    using linux_ref_insert_vm_ok by (simp_all add: alloc_ok_def insert_vm_ok_def no_kmap_def) (simp add: linux_ref_def)
  moreover have "bounded (g_mm shared_state) 100"
    by (simp add: bounded_def shared_state_def demo_state_def start_def)
  moreover note module_invD(1,2) [OF shared_inv [unfolded net_inv_def]]
  ultimately have m: "generic_malloc no_kmap net_ops demo_cur 100 shared_state = Inr (0, st')"
    "\<exists>us ws. live (g_areas st') = us @ (t_pid demo_cur, ?r) # ws"
    using refused_malloc_keeps_region [of shared_state 100 no_kmap demo_cur "g_mm shared_state" as ?r net_ops "- 12" st']
    by auto
  then have "(t_pid demo_cur, ?r) \<in> set (live (g_areas st'))" by auto
  with m(1) show ?thesis by (auto simp: demo_cur_def)
qed

section \<open>A page that survives its regions\<close>

text \<open>
  Two regions of the example share the page at 8192, which is mapped and holds fives.  After the
  first of them is freed the page is in the storage; \<open>s\<close> is the state of the connection then.
\<close>

definition first_freed :: "srv net \<Rightarrow> srv net gstate" where
  "first_freed s = shared_state\<lparr>g_areas := [shared_area\<lparr>free_space := 5192,
       regions := [demo_region\<lparr>r_free := 1\<rparr>, \<lparr>r_free = 0, r_size = 3000, virtual_start = 9096\<rparr>]\<rparr>],
     g_pt := Map.empty, g_bufs := [(hd (g_bufs shared_state))\<lparr>b_vma := None\<rparr>],
     g_pages := [\<lparr>sp_pid = 7, sp_start = 8192\<rparr>], g_store := s\<rparr>"

lemma demo_pages: "page_addrs 4096 12288 = [4096, 8192]" "page_addrs 8192 12288 = [8192]"
  by (simp_all add: page_addrs.simps PAGE_SIZE_def)

lemma free_first:
  obtains s where "generic_free linux_ref net_ops demo_cur 4096 shared_state = Inr (first_freed s)"
    "net_stored s (7, 8192) = Some (\<lambda>_. 5)"
proof -
  have "net_ok (g_store shared_state)"
    using page_invD(4) [OF module_invD(4) [OF shared_inv [unfolded net_inv_def]]] by (simp add: index_ok_def)
  from net.save [OF this TrueI, of 7 8192 "\<lambda>_. 5"] obtain n s where
    s: "so_save net_ops 7 8192 (\<lambda>_. 5) (g_store shared_state) = Inr (n, s)" "0 \<le> n"
      "net_stored s = (net_stored (g_store shared_state))((7, 8192) \<mapsto> (\<lambda>_. 5))" by blast
  have st: "g_store shared_state = g_store start" by (simp add: shared_state_def demo_state_def)
  define st1 where "st1 = shared_state\<lparr>g_pt := Map.empty, g_bufs := [(hd (g_bufs shared_state))\<lparr>b_vma := None\<rparr>],
     g_pages := [\<lparr>sp_pid = 7, sp_start = 8192\<rparr>], g_store := s\<rparr>"
  have u: "unmap_page linux_ref net_ops 7 False shared_state = Inr (0, st1)"
    using s(1,2) [unfolded st]
    by (simp add: unmap_page_def unmap_buffer_def is_existing_vma_def copy_page_from_user_def remove_user_page_def
        shared_state_def demo_state_def start_def linux_ref_def add_stored_page_def st1_def Let_def)
  have al: "align_floor 4096 PAGE_SHIFT = 4096" "align_ceil 9096 PAGE_SHIFT = 12288" "align_floor 9096 PAGE_SHIFT = 8192"
    by (simp_all add: align_floor_def align_ceil_def PAGE_SHIFT_def)
  have r: "remove_storage_pages net_ops 7 4096 st1 = Inr st1"
    by (simp add: remove_storage_pages_def st1_def shared_state_def shared_area_def demo_region_def demo_state_def
        get_region_def al demo_pages can_remove_page_def PAGE_SIZE_def Let_def)
  have d: "remove_region (g_mm st1) 7 4096 (g_areas st1) = Inr (g_areas (first_freed s), None)"
    by (simp add: remove_region_def st1_def first_freed_def shared_state_def shared_area_def demo_region_def demo_state_def
        get_region_def merge_neighbors_region_def merge_next_def remove_if_last_def Let_def)
  have "generic_free linux_ref net_ops demo_cur 4096 shared_state = Inr (first_freed s)"
    using u r d by (simp add: generic_free_def demo_cur_def Let_def) (simp add: st1_def first_freed_def)
  then show thesis by (rule that) (simp add: s(3))
qed

text \<open>The state when the second one is freed, too: no area, no VMA, no buffer.\<close>

definition both_freed :: "srv net \<Rightarrow> pmem \<Rightarrow> srv net gstate" where
  "both_freed s M = (first_freed s)\<lparr>g_mm := \<lparr>vmas = Map.empty, mmap = (\<lambda>_. []), next_vid = 1\<rparr>, g_areas := [],
     g_bufs := [], g_mem := M\<rparr>"

lemma free_second:
  obtains M where "generic_free linux_ref net_ops demo_cur 9096 (first_freed s) = Inr (both_freed s M)"
proof -
  let ?st = "first_freed s"
  have u: "unmap_page linux_ref net_ops 7 False ?st = Inr (0, ?st)"
    by (simp add: unmap_page_def first_freed_def shared_state_def)
  have al: "align_floor 9096 PAGE_SHIFT = 8192" "align_ceil 12096 PAGE_SHIFT = 12288" "align_ceil 9096 PAGE_SHIFT = 12288"
    by (simp_all add: align_floor_def align_ceil_def PAGE_SHIFT_def)
  have r: "remove_storage_pages net_ops 7 9096 ?st = Inr ?st"
    by (simp add: remove_storage_pages_def first_freed_def shared_state_def shared_area_def demo_region_def demo_state_def
        get_region_def al demo_pages can_remove_page_def PAGE_SIZE_def Let_def)
  define as where "as = [shared_area\<lparr>free_space := 8192, regions := []\<rparr>]"
  have d: "remove_region (g_mm ?st) 7 9096 (g_areas ?st) = Inr (as, Some (Some 0))"
    by (simp add: remove_region_def first_freed_def shared_state_def shared_area_def demo_region_def demo_state_def
        get_region_def merge_neighbors_region_def merge_next_def remove_if_last_def as_def Let_def)
  define V where "V = (g_mm ?st)\<lparr>mmap := (\<lambda>_. [])\<rparr>"
  have v: "remove_vma linux_ref (g_mm ?st) Map.empty (Some 0) = Inr (V, Map.empty, [0])"
    by (simp add: remove_vma_def linux_ref_def ref_munmap_def V_def first_freed_def shared_state_def demo_state_def
        unmap_range_def fun_eq_iff Let_def)
  obtain M where M: "remove_buffer 7 (g_mem ?st) (g_bufs ?st) = Inr (M, [])"
    by (simp add: remove_buffer_def first_freed_def shared_state_def vfree_if_def vfree_def)
  have c: "close_all net_ops [0] (?st\<lparr>g_areas := as, g_mm := V, g_pt := Map.empty\<rparr>) = Inr (both_freed s M)"
    using M by (simp add: generic_malloc_vm_close_def close_vma_def as_def shared_area_def Let_def)
      (simp add: both_freed_def V_def first_freed_def shared_state_def demo_state_def)
  have "g_pt ?st = Map.empty" by (simp add: first_freed_def)
  then have "generic_free linux_ref net_ops demo_cur 9096 ?st = Inr (both_freed s M)"
    using u r d v c by (simp add: generic_free_def demo_cur_def Let_def)
  then show thesis by (rule that)
qed

text \<open>
  A run: freeing two regions that share a page, in the order of their addresses, does not remove the
  page: at the second call the free region in front of it counts as a neighbour in use.  The
  page stays in the storage with its bytes although no area is left, the exit of the process does
  not remove it either, and whoever allocates the address under this pid next, the same process or
  another one that was given the pid, sees these bytes, not zeroes.
\<close>

theorem freed_page_reappears:
  "net_inv unat shared_state \<and> (\<exists>st1 st2. generic_free linux_ref net_ops demo_cur 4096 shared_state = Inr st1 \<and>
     generic_free linux_ref net_ops demo_cur 9096 st1 = Inr st2 \<and> g_areas st2 = [] \<and> mmap (g_mm st2) 7 = [] \<and>
     is_stored_page 7 8192 (g_pages st2) \<and> net_stored (g_store st2) (7, 8192) = Some (\<lambda>_. 5) \<and>
     process_exit net_ops (unat (7 :: pid_t)) [] st2 = Inr st2 \<and>
     (\<exists>st3. generic_malloc linux_ref net_ops demo_cur 5000 st2 = Inr (4096, st3) \<and>
        net_view unat st3 7 8192 = (\<lambda>_. 5)))"
proof -
  obtain s where s: "generic_free linux_ref net_ops demo_cur 4096 shared_state = Inr (first_freed s)"
    "net_stored s (7, 8192) = Some (\<lambda>_. 5)" by (rule free_first)
  obtain M where M: "generic_free linux_ref net_ops demo_cur 9096 (first_freed s) = Inr (both_freed s M)"
    by (rule free_second)
  let ?st = "both_freed s M"
  have al: "align_ceil 5000 VMA_SHIFT = 8192" by code_simp
  let ?vma = "\<lparr>vm_mm = 7, vm_start = 4096, vm_end = 12288, vm_flags = {VM_READ, VM_WRITE, VM_EXEC, VM_MIXEDMAP}, vm_ops = 1\<rparr>"
  define V where "V = \<lparr>vmas = [1 \<mapsto> ?vma], mmap = (\<lambda>_. [])(7 := [1]), next_vid = 2\<rparr>"
  have "get_free_space (g_mm ?st) 7 8192 = Inr 4096"
    by (simp add: get_free_space_def both_freed_def PAGE_SIZE_def)
  then have "add_vma linux_ref (g_mm ?st) demo_cur demo_cur 1 8192 = Inr (V, Some 1)"
    by (simp add: add_vma_def create_vm_area_struct_def linux_ref_def demo_cur_def Let_def)
      (simp add: both_freed_def ref_insert_def place_vma_def PAGE_SIZE_def V_def)
  then have c: "create_region linux_ref (g_mm ?st) 5000 demo_cur (g_areas ?st) module_vm_ops =
      Inr (V, [\<lparr>a_vma = Some 1, a_pid = 7, a_size = 8192, free_space = 3192,
        head = \<lparr>r_free = 0, r_size = 0, virtual_start = 0\<rparr>, regions = [demo_region]\<rparr>], Some demo_region)"
    by (simp add: create_region_def get_area_container_def add_area_struct_def al module_vm_ops_def Let_def both_freed_def)
      (simp add: linux_ref_def add_region_def get_free_region_def add_region_after_def V_def demo_region_def demo_cur_def Let_def)
  obtain st3 where st3: "generic_malloc linux_ref net_ops demo_cur 5000 ?st = Inr (4096, st3)" "g_pt st3 = Map.empty"
    "g_pages st3 = [\<lparr>sp_pid = 7, sp_start = 8192\<rparr>]" "g_store st3 = s"
    by (simp add: generic_malloc_def c) (simp add: unmap_page_def both_freed_def first_freed_def demo_region_def)
  have "net_view unat st3 7 8192 = (\<lambda>_. 5)"
    using st3(2-4) s(2) by (simp add: net_view_def page_view_def)
  moreover have "process_exit net_ops (unat (7 :: pid_t)) [] ?st = Inr ?st"
    by (simp add: process_exit_def torn_down_def both_freed_def first_freed_def fun_eq_iff)
  ultimately have "\<exists>st2. generic_free linux_ref net_ops demo_cur 9096 (first_freed s) = Inr st2 \<and> g_areas st2 = [] \<and>
     mmap (g_mm st2) 7 = [] \<and> is_stored_page 7 8192 (g_pages st2) \<and> net_stored (g_store st2) (7, 8192) = Some (\<lambda>_. 5) \<and>
     process_exit net_ops (unat (7 :: pid_t)) [] st2 = Inr st2 \<and>
     (\<exists>st3. generic_malloc linux_ref net_ops demo_cur 5000 st2 = Inr (4096, st3) \<and>
        net_view unat st3 7 8192 = (\<lambda>_. 5))"
    using M st3(1) s(2) by (intro exI [of _ ?st]) (simp add: both_freed_def first_freed_def)
  with s(1) shared_inv show ?thesis by blast
qed








section \<open>Two threads of one process\<close>

text \<open>The example with the page at 4096, full of fives, in the storage.\<close>

definition evicted :: "srv net gstate" where
  "evicted = demo_state\<lparr>g_pages := [\<lparr>sp_pid = 7, sp_start = 4096\<rparr>],
     g_store := \<lparr>sock = SockOpen, world = \<lparr>s_pages = [7 \<mapsto> [4096 \<mapsto> replicate 4096 5]], s_in = [], s_out = []\<rparr>\<rparr>\<rparr>"

lemma evicted_stored: "net_stored (g_store evicted) = [(7, 4096) \<mapsto> (\<lambda>_. 5)]"
proof -
  have "fill_page (replicate 4096 5) zero_page = (\<lambda>_. 5)"
    by (rule ext) (simp add: fill_page_def less_le_trans [OF unsigned_less])
  then show ?thesis
    by (intro ext) (simp add: evicted_def net_stored_def table_abs_def split: prod.split)
qed

lemma evicted_inv: "net_inv unat evicted"
proof -
  note D = module_invD [OF demo_inv [unfolded net_inv_def]]
  have eq: "g_mm evicted = g_mm demo_state" "g_areas evicted = g_areas demo_state" "g_bufs evicted = g_bufs demo_state"
    "g_mem evicted = g_mem demo_state" "g_pt evicted = g_pt demo_state"
    by (simp_all add: evicted_def)
  have "net_ok (g_store evicted)"
    by (simp add: net_ok_def evicted_def srv_ok_def table_ok_def)
  then have "index_ok net_ok (\<lambda>_. True) net_stored (g_store evicted) (g_pages evicted)"
    by (simp add: index_ok_def evicted_stored) (simp add: evicted_def pages_ok_def page_keys_def page_key_def)
  then show ?thesis
    using D page_invD(1,2,3) [OF D(4)] by (simp add: net_inv_def module_inv_def page_inv_def eq)
qed

lemma evicted_view: "net_view unat evicted 7 4096 = (\<lambda>_. 5)"
  using evicted_stored
  by (simp add: net_view_def page_view_def) (simp add: evicted_def demo_state_def start_def)

text \<open>
  C37. Buffers and stored pages belong to the calling thread (\<open>current->pid\<close>), but threads share their
  memory.  A thread that has neither a buffer yet nor a stored page of its own at the address gets
  zeroes there, whatever the other threads of the process have put away for this address; and as the
  page is mapped for all of them, they all see the zeroes from then on.
\<close>

theorem second_thread_reads_zeroes:
  assumes "paging_ok E" and "get_buffer (t_pid cur) (g_bufs st) = None" and "\<not> is_stored_page (t_pid cur) a (g_pages st)"
    and "vmas (g_mm st) v = Some vma" and "vm_mm vma = t_mm cur"
    and "generic_malloc_vm_fault E net_ops cur v a st = Inr (FaultDone f, st')"
  shows "content (g_mem st') f = zero_page \<and> g_pt st' (t_mm cur, a) = Some f \<and>
    (\<forall>p. mm_of p = t_mm cur \<longrightarrow> net_view mm_of st' p a = zero_page)"
proof -
  have "map_page E net_ops (t_pid cur) a v st = Inr (Some f, st')"
    using assms(2,6) by (auto simp: generic_malloc_vm_fault_def generic_malloc_get_page_def unmap_page_def
        split: if_splits option.splits elim!: kbind_InrE)
  moreover have ins: "pt' = pt((m, x) \<mapsto> y)" if "vm_insert_page E pt m x y = Some pt'" for pt m x y pt'
    using assms(1) that unfolding paging_ok_def by metis
  ultimately have "content (g_mem st') f = zero_page \<and> g_pt st' (t_mm cur, a) = Some f"
    using assms(2-5)
    by (auto simp: map_page_def write_frame_def Let_def
        split: option.splits if_splits prod.splits elim!: kbind_InrE dest!: ins)
  then show ?thesis by (auto simp: net_view_def page_view_def)
qed

text \<open>The first thread has put fives away; the second one, with pid 8, reads zeroes, and so does the first then.\<close>

theorem second_thread_reads_zeroes_witness:
  "net_view unat evicted 7 4096 = (\<lambda>_. 5) \<and>
   (\<exists>f st'. generic_malloc_vm_fault linux_ref net_ops \<lparr>t_pid = 8, t_mm = 7\<rparr> 0 4096 evicted = Inr (FaultDone f, st') \<and>
      content (g_mem st') f = zero_page \<and> net_view unat st' 7 4096 = zero_page)"
proof -
  let ?cur = "\<lparr>t_pid = 8, t_mm = 7\<rparr>"
  have e: "get_buffer (t_pid ?cur) (g_bufs evicted) = None" "\<not> is_stored_page (t_pid ?cur) 4096 (g_pages evicted)"
    by (simp_all add: evicted_def demo_state_def start_def)
  obtain vma where v: "vmas (g_mm evicted) 0 = Some vma" "vm_mm vma = t_mm ?cur"
    by (simp add: evicted_def demo_state_def)
  have "case generic_malloc_vm_fault linux_ref net_ops ?cur 0 4096 evicted of Inr (res, st') \<Rightarrow> res = FaultDone 0 | _ \<Rightarrow> False"
    by (simp add: generic_malloc_vm_fault_def is_valid_address_def generic_malloc_get_page_def unmap_page_def
        map_page_def add_buffer_def vmalloc_user_def write_frame_def evicted_def demo_state_def demo_region_def start_def
        no_frames_def linux_ref_def Let_def align_floor_def align_ceil_def PAGE_SHIFT_def)
  then obtain st' where r: "generic_malloc_vm_fault linux_ref net_ops ?cur 0 4096 evicted = Inr (FaultDone 0, st')"
    by (auto split: sum.splits prod.splits)
  have "unat (7 :: pid_t) = t_mm ?cur" by simp
  with second_thread_reads_zeroes [OF linux_ref_paging_ok e v r, of unat] evicted_view r show ?thesis by blast
qed

section \<open>A child process\<close>

lemma find_area_None: "find_area v as = None \<longleftrightarrow> Some v \<notin> a_vma ` set as"
  by (induction as) auto

lemma not_valid_address: "Some v \<notin> a_vma ` set as \<Longrightarrow> \<not> is_valid_address a v as"
  by (auto simp: is_valid_address_def list_ex_iff image_iff)

lemma get_area_other: "\<forall>a\<in>set as. a_pid a \<noteq> p \<Longrightarrow> get_area V p ptr as = Inr None"
  by (induction as) auto

text \<open>
  After \<open>fork\<close> the child has a copy \<open>v'\<close> of each VMA, but \<open>open\<close> registers nothing: every fault of
  the child in it answers \<open>VM_FAULT_SIGBUS\<close>, closing it does nothing, and the child can free none of
  the regions it has inherited.
\<close>

theorem forked_child_loses_memory:
  fixes V :: vmem and pt :: ptab
  assumes "net_inv mm_of st" and "vmas (g_mm st) v' = None"
    and "\<forall>a\<in>set (g_areas st). a_pid a \<noteq> t_pid child" and "buffer_of (t_pid child) (g_bufs st) = None"
  defines "st' \<equiv> generic_malloc_vm_open v' (st\<lparr>g_mm := V, g_pt := pt\<rparr>)"
  shows "generic_malloc_vm_fault E net_ops child v' a st' = Inr (VM_FAULT_SIGBUS, st') \<and>
    generic_malloc_vm_close net_ops v' st' = Inr st' \<and> generic_free E net_ops child ptr st' = Inr st'"
proof -
  have "a_vma a \<noteq> Some v'" if "a \<in> set (g_areas st)" for a
    using assms(1,2) that by (auto simp: net_inv_def module_inv_def areas_ok_def elim!: area_okE)
  then have "Some v' \<notin> a_vma ` set (g_areas st)" by (metis imageE)
  then have no: "Some v' \<notin> a_vma ` set (g_areas st')" by (simp add: st'_def generic_malloc_vm_open_def)
  have "get_buffer (t_pid child) (g_bufs st') = None"
    using assms(4) by (simp add: st'_def generic_malloc_vm_open_def buffer_of_def)
  moreover have ga: "get_area (g_mm st') (t_pid child) ptr (g_areas st') = Inr None"
    using assms(3) by (intro get_area_other) (simp add: st'_def generic_malloc_vm_open_def)
  ultimately have "generic_free E net_ops child ptr st' = Inr st'"
    by (simp add: generic_free_def unmap_page_def remove_storage_pages_def remove_region_def Let_def)
  moreover have "find_area v' (g_areas st') = None" using no by (simp only: find_area_None not_False_eq_True)
  ultimately show ?thesis
    using no by (simp add: generic_malloc_vm_fault_def not_valid_address generic_malloc_vm_close_def close_vma_def)
qed

theorem forked_child_loses_memory_witness:
  "\<exists>st'. vmas (g_mm st') 1 = vmas (g_mm shared_state) 0 \<and> g_areas st' = g_areas shared_state \<and>
     generic_malloc_vm_fault linux_ref net_ops \<lparr>t_pid = 8, t_mm = 8\<rparr> 1 4096 st' = Inr (VM_FAULT_SIGBUS, st')"
proof -
  define V where "V = (g_mm shared_state)\<lparr>vmas := (vmas (g_mm shared_state))(1 := vmas (g_mm shared_state) 0)\<rparr>"
  have "vmas (g_mm shared_state) 1 = None" "\<forall>a\<in>set (g_areas shared_state). a_pid a \<noteq> t_pid \<lparr>t_pid = 8, t_mm = 8\<rparr>"
    "buffer_of (t_pid \<lparr>t_pid = 8, t_mm = 8\<rparr>) (g_bufs shared_state) = None"
    by (simp_all add: shared_state_def demo_state_def shared_area_def buffer_of_def)
  from forked_child_loses_memory [OF shared_inv this, where V = V and pt = "g_pt shared_state" and E = linux_ref and a = 4096]
  show ?thesis
    by (intro exI [of _ "generic_malloc_vm_open 1 (shared_state\<lparr>g_mm := V, g_pt := g_pt shared_state\<rparr>)"])
      (simp add: generic_malloc_vm_open_def V_def)
qed

end
