(* ===== verification/Heap.thy ===== *)
theory Heap
  imports ModuleProps
begin

text \<open>
  What user programs are promised: a heap per process.  The abstract heap is the list of live
  regions, each with its process, and the bytes every process sees; it knows nothing of VMAs,
  areas, buffers, the cache, page tables, the storage or the server.
\<close>

section \<open>The abstract heap\<close>

type_synonym heap = "(pid_t \<times> region_struct) list \<times> (pid_t \<Rightarrow> u64 \<Rightarrow> page)"

text \<open>
  An allocation adds a region of the requested size and changes no byte; a \<open>free\<close> takes away the
  region of the process that starts at the address, or none, and spares the bytes of other
  processes; a write changes one page of one process; paging is invisible; an exit takes all
  regions of the process away and spares everything else.
\<close>

inductive heap_does :: "module_op \<Rightarrow> heap \<Rightarrow> heap \<Rightarrow> bool" where
  Alloc: "r_size r = sz \<Longrightarrow> r_free r = 0 \<Longrightarrow> heap_does (MallocOp p sz) (us @ ws, mem) (us @ (p, r) # ws, mem)"
| Free: "virtual_start r = ptr \<Longrightarrow> (\<And>q. q \<noteq> p \<Longrightarrow> mem' q = mem q) \<Longrightarrow>
    heap_does (FreeOp p ptr) (us @ (p, r) # ws, mem) (us @ ws, mem')"
| FreeNone: "(\<And>q. q \<noteq> p \<Longrightarrow> mem' q = mem q) \<Longrightarrow> heap_does (FreeOp p ptr) (rs, mem) (rs, mem')"
| Paging: "heap_does (FaultOp p a) h h"
| Store: "heap_does (WriteOp p a pg) (rs, mem) (rs, mem(p := (mem p)(a := pg)))"
| Exit: "(\<And>q. q \<noteq> p \<Longrightarrow> mem' q = mem q) \<Longrightarrow>
    heap_does (ExitOp p) (rs, mem) (filter (\<lambda>(q, _). q \<noteq> p) rs, mem')"

inductive_simps heap_does_simps:
  "heap_does (FaultOp p a) h h'" "heap_does (WriteOp p a pg) (rs, mem) h'"

text \<open>Runs, with the operations they perform.\<close>

inductive runs :: "('l \<Rightarrow> 's \<Rightarrow> 's \<Rightarrow> bool) \<Rightarrow> 'l list \<Rightarrow> 's \<Rightarrow> 's \<Rightarrow> bool" for R where
  Stop: "runs R [] s s"
| Step: "runs R ls s t \<Longrightarrow> R l t u \<Longrightarrow> runs R (ls @ [l]) s u"

lemma runs_reachable: "runs (module_does ops valid mm_of) ls s t \<Longrightarrow> (module_step ops valid mm_of)\<^sup>*\<^sup>* s t"
  by (induction rule: runs.induct) (auto simp: module_step_def intro: rtranclp.rtrancl_into_rtrancl)

definition heap_of :: "(pid_t \<Rightarrow> mmid) \<Rightarrow> srv net gstate \<Rightarrow> heap" where
  "heap_of mm_of st = (live (g_areas st), net_view mm_of st)"

section \<open>Simulation\<close>

lemma step_refines:
  assumes "module_does net_ops (\<lambda>_. True) mm_of l st st'" and inv: "net_inv mm_of st" and own: "bufs_owned st" and inj: "inj mm_of"
  shows "heap_does l (heap_of mm_of st) (heap_of mm_of st')"
  using assms(1)
proof (cases rule: module_doesE [consumes 1, case_names Malloc Free Fault Write Exit])
  case (Malloc E cur sz V as r ptr)
  from net.malloc_spec [OF inv [unfolded net_inv_def] inj Malloc(2-5)] show ?thesis
  proof cases
    case granted: (1 V' as' r' st1 us ws)
    with Malloc(7) have eq: "st' = st1" by simp
    show ?thesis
      using granted heap_does.Alloc [of r' sz "t_pid cur" us ws "net_view mm_of st"]
      by (simp add: heap_of_def net_view_def eq Malloc(1))
  next
    case (2 V' as' st1)
    with Malloc(6) show ?thesis by simp
  qed
next
  case (Free E cur ptr)
  obtain st1 where st1: "generic_free E net_ops cur ptr st = Inr st1"
    "live (g_areas st1) = live (g_areas st) \<or>
     (\<exists>us r ws. live (g_areas st) = us @ (t_pid cur, r) # ws \<and> live (g_areas st1) = us @ ws \<and> virtual_start r = ptr)"
    "\<And>q a. q \<noteq> t_pid cur \<Longrightarrow> page_view net_stored mm_of st1 q a = page_view net_stored mm_of st q a"
    by (rule net.free_live [OF inv [unfolded net_inv_def] inj Free(2), of cur ptr]) blast
  with Free(4) have eq: "st' = st1" by simp
  have v: "net_view mm_of st' q = net_view mm_of st q" if "q \<noteq> t_pid cur" for q
    using st1(3) [OF that] by (intro ext) (simp add: net_view_def eq)
  from st1(2) show ?thesis
    unfolding eq [symmetric] heap_of_def Free(1)
    by (elim disjE exE conjE) (use v in \<open>auto intro: heap_does.Free heap_does.FreeNone\<close>)
next
  case (Fault E cur v a res)
  have "v \<in> set (mmap (g_mm st) (t_mm cur))" "g_pt st (t_mm cur, a) = None" using Fault(3-5) by simp_all
  from net.fault_total [OF inv [unfolded net_inv_def] inj Fault(2,3) this TrueI] obtain res1 st1 where
    "generic_malloc_vm_fault E net_ops cur v a st = Inr (res1, st1)"
    "page_view net_stored mm_of st1 = page_view net_stored mm_of st" "g_areas st1 = g_areas st" by metis
  with Fault(7) show ?thesis by (simp add: heap_of_def net_view_def heap_does.Paging Fault(1))
next
  case (Write p a f b pg)
  note P = module_invD(4) [OF inv [unfolded net_inv_def]]
  have "net_view mm_of st' = (net_view mm_of st)(p := (net_view mm_of st p)(a := pg))"
    unfolding net_view_def Write(2)
    by (intro ext) (simp add: net.write_view [OF P inj Write(3) page_inv_member [OF P Write(4)] Write(5)])
  then show ?thesis
    using heap_does.Store by (simp add: heap_of_def Write(1,2))
next
  case (Exit vs p)
  from net.exit_total [OF inv [unfolded net_inv_def] own inj Exit(2)] Exit(3) have
    "live (g_areas st') = live_but p (g_areas st)" "\<And>q a. q \<noteq> p \<Longrightarrow> net_view mm_of st' q a = net_view mm_of st q a"
    by (auto simp: net_view_def)
  then show ?thesis
    using heap_does.Exit [of p "net_view mm_of st'" "net_view mm_of st" "live (g_areas st)"]
    by (simp add: heap_of_def Exit(1) fun_eq_iff)
qed

section \<open>Property\<close>

text \<open>
  C2. The module refines the abstract heap: for every run from the state after loading there is a
  run of the heap with the same operations that starts with no region and ends with the regions
  and bytes of the module.
\<close>

theorem module_refines_heap:
  assumes "loaded net_ok net_stored st0" and "runs (module_does net_ops (\<lambda>_. True) mm_of) ls st0 st" and "inj mm_of"
  shows "fst (heap_of mm_of st0) = [] \<and> runs heap_does ls (heap_of mm_of st0) (heap_of mm_of st)"
proof
  show "fst (heap_of mm_of st0) = []"
    using assms(1) by (simp add: heap_of_def loaded_def init_area_list_def live_def)
  show "runs heap_does ls (heap_of mm_of st0) (heap_of mm_of st)"
    using assms(2,1)
  proof (induction rule: runs.induct)
    case (Step ls s t l u)
    have "net_inv mm_of t" "bufs_owned t"
      using net.reachable_inv [OF runs_reachable [OF Step(1)] loaded_inv [OF Step.prems] loaded_owned [OF Step.prems] assms(3)]
      by (simp_all add: net_inv_def)
    from runs.Step [OF Step.IH [OF Step.prems] step_refines [OF Step(2) this assms(3)]] show ?case .
  qed (rule runs.Stop)
qed

theorem module_refines_heap_witness:
  "runs heap_does [MallocOp 7 5000] (heap_of unat start) (heap_of unat demo_state) \<and>
   fst (heap_of unat demo_state) = [(7, demo_region)]"
proof -
  have "live (g_areas demo_state) = [(7, demo_region)]"
    by (simp add: demo_state_def live_def demo_region_def)
  moreover have r: "runs (module_does net_ops (\<lambda>_. True) unat) [MallocOp 7 5000] start demo_state"
    using runs.Step [OF runs.Stop, of "module_does net_ops (\<lambda>_. True) unat"] demo_does by fastforce
  ultimately show ?thesis
    using module_refines_heap [OF start_loaded r demo_mm_of(1)] by (simp add: heap_of_def start_def live_def)
qed

end
