(* ===== verification/Failing.thy ===== *)
theory Failing
  imports StorageSpec
begin

text \<open>
  Storages that fail: the network storage over a connection that is lost at some time, and the
  kernel storage when memory for pages runs out.  Both keep the weaker contract \<open>page_store\<close>.
\<close>

section \<open>A connection that may be lost\<close>

text \<open>
  What the network storage needs of a connection that may be lost: sending and receiving either do
  the whole job or report an error, and a request that reports an error has done its work at the
  server completely or not at all.
\<close>

locale lossy_server =
  fixes E :: kenv
    and N :: "'w netenv"
    and wok :: "'w \<Rightarrow> bool"
    and tbl :: "'w \<Rightarrow> pid_t \<times> u64 \<Rightarrow> page option"
  assumes put: "wok w \<Longrightarrow>
      \<exists>r w1. sock_sendmsg N (header_bytes \<lparr>command = PROTOCOL_PUT, ph_pid = p, ph_address = a\<rparr>) w = (r, w1) \<and>
        (r < 0 \<and> wok w1 \<and> tbl w1 = tbl w \<or>
         r = 16 \<and> (\<exists>r2 w2. sock_sendmsg N (page_bytes b) w1 = (r2, w2) \<and> wok w2 \<and>
           (r2 = 4096 \<and> tbl w2 = (tbl w)((p, a) \<mapsto> b) \<or> r2 < 0 \<and> (tbl w2 = tbl w \<or> tbl w2 = (tbl w)((p, a) \<mapsto> b)))))"
    and get: "wok w \<Longrightarrow>
      \<exists>r w1. sock_sendmsg N (header_bytes \<lparr>command = PROTOCOL_GET, ph_pid = p, ph_address = a\<rparr>) w = (r, w1) \<and>
        (r < 0 \<and> wok w1 \<and> tbl w1 = tbl w \<or>
         r = 16 \<and> (\<exists>r2 bs w2. sock_recvmsg N 4096 w1 = (r2, bs, w2) \<and> wok w2 \<and> tbl w2 = tbl w \<and>
           (r2 = 4096 \<and> bs = page_bytes (case tbl w (p, a) of Some c \<Rightarrow> c | None \<Rightarrow> zero_page) \<or> r2 < 0)))"
    and rm: "wok w \<Longrightarrow>
      \<exists>r w1. sock_sendmsg N (header_bytes \<lparr>command = PROTOCOL_RM, ph_pid = p, ph_address = a\<rparr>) w = (r, w1) \<and> wok w1 \<and>
        (tbl w1 = (tbl w)((p, a) := None) \<or> tbl w1 = tbl w)"

sublocale lossy_server \<subseteq> lst: page_store "network_ops E N" "\<lambda>n. sock n = SockOpen \<and> wok (world n)"
  "\<lambda>_. True" "\<lambda>n. tbl (world n)" True
proof unfold_locales
  fix n :: "'w net" and p a b
  assume n: "sock n = SockOpen \<and> wok (world n)"
  let ?put = "header_bytes \<lparr>command = PROTOCOL_PUT, ph_pid = p, ph_address = a\<rparr>"
  obtain r w1 where s: "sock_sendmsg N ?put (world n) = (r, w1)"
    and r: "r < 0 \<and> wok w1 \<and> tbl w1 = tbl (world n) \<or>
      r = 16 \<and> (\<exists>r2 w2. sock_sendmsg N (page_bytes b) w1 = (r2, w2) \<and> wok w2 \<and>
        (r2 = 4096 \<and> tbl w2 = (tbl (world n))((p, a) \<mapsto> b) \<or>
         r2 < 0 \<and> (tbl w2 = tbl (world n) \<or> tbl w2 = (tbl (world n))((p, a) \<mapsto> b))))"
    using put [of "world n" p a b] n by blast
  from r show "\<exists>k n'. so_save (network_ops E N) p a b n = Inr (k, n') \<and> (sock n' = SockOpen \<and> wok (world n')) \<and>
      (k < 0 \<longrightarrow> True) \<and> (tbl (world n') = (tbl (world n))((p, a) \<mapsto> b) \<or> k < 0 \<and> tbl (world n') = tbl (world n))"
    using n s by (elim disjE conjE exE) (auto simp: network_ops_def network_save_def socket_send_def header_size_def)
  obtain r w1 where s: "sock_sendmsg N (header_bytes \<lparr>command = PROTOCOL_GET, ph_pid = p, ph_address = a\<rparr>) (world n) = (r, w1)"
    and r: "r < 0 \<and> wok w1 \<and> tbl w1 = tbl (world n) \<or>
      r = 16 \<and> (\<exists>r2 bs w2. sock_recvmsg N 4096 w1 = (r2, bs, w2) \<and> wok w2 \<and> tbl w2 = tbl (world n) \<and>
        (r2 = 4096 \<and> bs = page_bytes (case tbl (world n) (p, a) of Some c \<Rightarrow> c | None \<Rightarrow> zero_page) \<or> r2 < 0))"
    using get [of "world n" p a] n by blast
  from r show "\<exists>k c n'. so_load (network_ops E N) p a b n = Inr (k, c, n') \<and> (sock n' = SockOpen \<and> wok (world n')) \<and>
      tbl (world n') = tbl (world n) \<and> (k < 0 \<longrightarrow> True) \<and>
      (0 \<le> k \<longrightarrow> c = (case tbl (world n) (p, a) of Some d \<Rightarrow> d | None \<Rightarrow> zero_page))"
    using n s
    by (elim disjE conjE exE) (auto simp: network_ops_def network_load_def socket_send_def socket_recv_def header_size_def)
  show "\<exists>n'. so_remove (network_ops E N) p a n = Inr n' \<and> (sock n' = SockOpen \<and> wok (world n')) \<and>
      (tbl (world n') = (tbl (world n))((p, a) := None) \<or> True \<and> tbl (world n') = tbl (world n))"
    using rm [of "world n" p a] n by (auto simp: network_ops_def network_remove_def socket_send_def)
  show "\<exists>n'. so_release (network_ops E N) n = Inr n'"
    using n by (simp add: network_ops_def network_release_def socket_send_def socket_release_def split: prod.split)
qed

text \<open>
  A connection to \<open>server.py\<close> that carries \<open>l_left\<close> more messages and is then reset: from there on
  every call fails with \<open>-ECONNRESET\<close>.
\<close>

record lossy =
  l_srv :: srv
  l_left :: nat

definition ECONNRESET :: int where
  "ECONNRESET = 104"

definition lossy_env :: "lossy netenv" where
  "lossy_env = \<lparr>sock_create = (\<lambda>w. (0, w)),
     sock_connect = (\<lambda>port ip w. (0, w\<lparr>l_srv := (l_srv w)\<lparr>s_in := [], s_out := []\<rparr>\<rparr>)),
     sock_sendmsg = (\<lambda>bs w. case l_left w of 0 \<Rightarrow> (- ECONNRESET, w)
       | Suc n \<Rightarrow> (case sock_sendmsg server_env bs (l_srv w) of (r, s) \<Rightarrow> (r, \<lparr>l_srv = s, l_left = n\<rparr>))),
     sock_recvmsg = (\<lambda>len w. case l_left w of 0 \<Rightarrow> (- ECONNRESET, [], w)
       | Suc n \<Rightarrow> (case sock_recvmsg server_env len (l_srv w) of (r, bs, s) \<Rightarrow> (r, bs, \<lparr>l_srv = s, l_left = n\<rparr>))),
     sock_release = id,
     kstrtol = kstrtol server_env\<rparr>"

definition lossy_ok :: "lossy \<Rightarrow> bool" where
  "lossy_ok w \<longleftrightarrow> table_ok (s_pages (l_srv w)) \<and> (l_left w \<noteq> 0 \<longrightarrow> srv_ok (l_srv w))"

definition lossy_tbl :: "lossy \<Rightarrow> pid_t \<times> u64 \<Rightarrow> page option" where
  "lossy_tbl w = table_abs (s_pages (l_srv w))"

text \<open>The header of a \<open>PUT\<close> or a \<open>GET\<close> alone does not change the table.\<close>

lemma header_keeps_pages:
  assumes "srv_ok s" and "c = PROTOCOL_PUT \<or> c = PROTOCOL_GET"
    and "sock_sendmsg server_env (header_bytes \<lparr>command = c, ph_pid = p, ph_address = a\<rparr>) s = (r, s1)"
  shows "s_pages s1 = s_pages s"
  using assms handle_header [of False "s_pages s" "\<lparr>command = c, ph_pid = p, ph_address = a\<rparr>" "[]" "s_out s"]
  by (auto simp: server_env_def srv_ok_def)

interpretation lossy: lossy_server E lossy_env lossy_ok lossy_tbl for E
proof unfold_locales
  fix w p a b
  assume ok: "lossy_ok w"
  have gone: "sock_sendmsg lossy_env bs v = (- ECONNRESET, v)" if "l_left v = 0" for bs v
    using that by (simp add: lossy_env_def)
  have send: "sock_sendmsg lossy_env bs v = (r, \<lparr>l_srv = s, l_left = n\<rparr>)"
    if "l_left v = Suc n" "sock_sendmsg server_env bs (l_srv v) = (r, s)" for bs v n r s
    using that by (simp add: lossy_env_def)
  have neg: "- ECONNRESET < 0" by (simp add: ECONNRESET_def)
  let ?put = "header_bytes \<lparr>command = PROTOCOL_PUT, ph_pid = p, ph_address = a\<rparr>"
  let ?get = "header_bytes \<lparr>command = PROTOCOL_GET, ph_pid = p, ph_address = a\<rparr>"
  let ?rm = "header_bytes \<lparr>command = PROTOCOL_RM, ph_pid = p, ph_address = a\<rparr>"
  show "\<exists>r w1. sock_sendmsg lossy_env ?put w = (r, w1) \<and>
      (r < 0 \<and> lossy_ok w1 \<and> lossy_tbl w1 = lossy_tbl w \<or>
       r = 16 \<and> (\<exists>r2 w2. sock_sendmsg lossy_env (page_bytes b) w1 = (r2, w2) \<and> lossy_ok w2 \<and>
         (r2 = 4096 \<and> lossy_tbl w2 = (lossy_tbl w)((p, a) \<mapsto> b) \<or>
          r2 < 0 \<and> (lossy_tbl w2 = lossy_tbl w \<or> lossy_tbl w2 = (lossy_tbl w)((p, a) \<mapsto> b)))))"
  proof (cases "l_left w")
    case 0
    with gone neg ok show ?thesis by auto
  next
    case (Suc n)
    then have "srv_ok (l_srv w)" using ok by (simp add: lossy_ok_def)
    then obtain s1 s2 where s: "sock_sendmsg server_env ?put (l_srv w) = (16, s1)"
      "sock_sendmsg server_env (page_bytes b) s1 = (4096, s2)" "srv_ok s2"
      "table_abs (s_pages s2) = (table_abs (s_pages (l_srv w)))((p, a) \<mapsto> b)"
      using srv.put [of "l_srv w" p a b] by blast
    have same: "s_pages s1 = s_pages (l_srv w)" by (rule header_keeps_pages [OF \<open>srv_ok (l_srv w)\<close> _ s(1)]) simp
    let ?w1 = "\<lparr>l_srv = s1, l_left = n\<rparr>"
    have w1: "sock_sendmsg lossy_env ?put w = (16, ?w1)" by (rule send [OF Suc s(1)])
    show ?thesis
    proof (cases n)
      case 0
      have "sock_sendmsg lossy_env (page_bytes b) ?w1 = (- ECONNRESET, ?w1)" using gone 0 by simp
      moreover have "lossy_ok ?w1" "lossy_tbl ?w1 = lossy_tbl w"
        using 0 ok same by (simp_all add: lossy_ok_def lossy_tbl_def)
      ultimately show ?thesis using w1 neg by blast
    next
      case (Suc m)
      have "sock_sendmsg lossy_env (page_bytes b) ?w1 = (4096, \<lparr>l_srv = s2, l_left = m\<rparr>)"
        by (rule send) (simp_all add: Suc s(2))
      moreover have "lossy_ok \<lparr>l_srv = s2, l_left = m\<rparr>" "lossy_tbl \<lparr>l_srv = s2, l_left = m\<rparr> = (lossy_tbl w)((p, a) \<mapsto> b)"
        using s(3,4) by (simp_all add: lossy_ok_def lossy_tbl_def srv_ok_def)
      ultimately show ?thesis using w1 by blast
    qed
  qed
  show "\<exists>r w1. sock_sendmsg lossy_env ?get w = (r, w1) \<and>
      (r < 0 \<and> lossy_ok w1 \<and> lossy_tbl w1 = lossy_tbl w \<or>
       r = 16 \<and> (\<exists>r2 bs w2. sock_recvmsg lossy_env 4096 w1 = (r2, bs, w2) \<and> lossy_ok w2 \<and> lossy_tbl w2 = lossy_tbl w \<and>
         (r2 = 4096 \<and> bs = page_bytes (case lossy_tbl w (p, a) of Some c \<Rightarrow> c | None \<Rightarrow> zero_page) \<or> r2 < 0)))"
  proof (cases "l_left w")
    case 0
    with gone neg ok show ?thesis by auto
  next
    case (Suc n)
    then have "srv_ok (l_srv w)" using ok by (simp add: lossy_ok_def)
    then obtain s1 s2 where s: "sock_sendmsg server_env ?get (l_srv w) = (16, s1)"
      "sock_recvmsg server_env 4096 s1 =
         (4096, page_bytes (case table_abs (s_pages (l_srv w)) (p, a) of Some c \<Rightarrow> c | None \<Rightarrow> zero_page), s2)"
      "srv_ok s2" "table_abs (s_pages s2) = table_abs (s_pages (l_srv w))"
      using srv.get [of "l_srv w" p a] by blast
    have same: "s_pages s1 = s_pages (l_srv w)" by (rule header_keeps_pages [OF \<open>srv_ok (l_srv w)\<close> _ s(1)]) simp
    let ?w1 = "\<lparr>l_srv = s1, l_left = n\<rparr>"
    have w1: "sock_sendmsg lossy_env ?get w = (16, ?w1)" by (rule send [OF Suc s(1)])
    show ?thesis
    proof (cases n)
      case 0
      then have "sock_recvmsg lossy_env 4096 ?w1 = (- ECONNRESET, [], ?w1)" by (simp add: lossy_env_def)
      moreover have "lossy_ok ?w1" "lossy_tbl ?w1 = lossy_tbl w"
        using 0 ok same by (simp_all add: lossy_ok_def lossy_tbl_def)
      ultimately show ?thesis using w1 neg by blast
    next
      case (Suc m)
      have "sock_recvmsg lossy_env 4096 ?w1 =
          (4096, page_bytes (case lossy_tbl w (p, a) of Some c \<Rightarrow> c | None \<Rightarrow> zero_page), \<lparr>l_srv = s2, l_left = m\<rparr>)"
        using s(2) Suc by (simp add: lossy_env_def lossy_tbl_def)
      moreover have "lossy_ok \<lparr>l_srv = s2, l_left = m\<rparr>" "lossy_tbl \<lparr>l_srv = s2, l_left = m\<rparr> = lossy_tbl w"
        using s(3,4) by (simp_all add: lossy_ok_def lossy_tbl_def srv_ok_def)
      ultimately show ?thesis using w1 by blast
    qed
  qed
  show "\<exists>r w1. sock_sendmsg lossy_env ?rm w = (r, w1) \<and> lossy_ok w1 \<and>
      (lossy_tbl w1 = (lossy_tbl w)((p, a) := None) \<or> lossy_tbl w1 = lossy_tbl w)"
  proof (cases "l_left w")
    case 0
    with gone ok show ?thesis by auto
  next
    case (Suc n)
    then have "srv_ok (l_srv w)" using ok by (simp add: lossy_ok_def)
    then obtain s1 where s: "sock_sendmsg server_env ?rm (l_srv w) = (16, s1)" "srv_ok s1"
      "table_abs (s_pages s1) = (table_abs (s_pages (l_srv w)))((p, a) := None)"
      using srv.rm [of "l_srv w" p a] by blast
    have "sock_sendmsg lossy_env ?rm w = (16, \<lparr>l_srv = s1, l_left = n\<rparr>)" by (rule send [OF Suc s(1)])
    moreover have "lossy_ok \<lparr>l_srv = s1, l_left = n\<rparr>" "lossy_tbl \<lparr>l_srv = s1, l_left = n\<rparr> = (lossy_tbl w)((p, a) := None)"
      using s(2,3) by (simp_all add: lossy_ok_def lossy_tbl_def srv_ok_def)
    ultimately show ?thesis by blast
  qed
qed

section \<open>The kernel storage without memory for pages\<close>

text \<open>
  The records of the kernel storage must still be allocated: a failure there is a NULL
  dereference.  When there is no memory for the page itself the record stays, without a page.
\<close>

lemma kernel_save_any:
  assumes "kernel_ok S" and "low_address a" and "\<forall>p a. kmalloc_ok E (AllocKernelBuffer p a)"
  shows "\<exists>n S'. kernel_save E p a b S = Inr (n, S') \<and> kernel_ok S' \<and>
    (kernel_stored S' = (kernel_stored S)((p, a) \<mapsto> b) \<or> n < 0 \<and> kernel_stored S' = kernel_stored S)"
proof -
  from assms(1) obtain l where S: "S = KbList l" and d: "distinct (map kb_key l)"
    by (auto simp: kernel_ok_def split: kstore.splits)
  note red = kernel_save_def S get_kernel_buffer_def ucast_low [OF assms(2)] Let_def
  show ?thesis
  proof (cases "find_kb p a l")
    case None
    define x where "x = \<lparr>kb_pid = p, kb_address = a,
      kb_buffer = (if kmalloc_ok E (AllocKernelPage p a) then Some b else None)\<rparr>"
    have x: "kb_key x = (p, a)" by (simp add: x_def kb_key_def)
    have run: "kernel_save E p a b S = Inr (if kmalloc_ok E (AllocKernelPage p a) then 0 else - ENOMEM, KbList (l @ [x]))"
      using None assms(3) by (simp add: red x_def)
    have new: "kb_key x \<notin> kb_key ` set l" using None by (simp add: x find_kb_None)
    have old: "kernel_stored S (p, a) = None" using None by (simp add: kernel_stored_def S)
    have up: "kernel_stored (KbList (l @ [x])) = (kernel_stored S)((p, a) := kb_buffer x)"
      using kernel_stored_append [OF new] by (simp add: S x)
    have "kernel_ok (KbList (l @ [x]))" using d new by (simp add: kernel_ok_def)
    moreover have "(kernel_stored S)((p, a) := None) = kernel_stored S" using old by (simp add: fun_upd_idem)
    ultimately show ?thesis using run up
      by (auto simp: x_def ENOMEM_def split: if_splits)
  next
    case (Some i)
    then have i: "i < length l" "kb_key (l ! i) = (p, a)" by (auto dest: find_kb_Some)
    have same: "(l ! i)\<lparr>kb_address := a\<rparr> = l ! i" using i(2) by (simp add: kb_key_def)
    show ?thesis
    proof (cases "kb_buffer (l ! i) = None \<and> \<not> kmalloc_ok E (AllocKernelPage p a)")
      case True
      then have "kernel_save E p a b S = Inr (- ENOMEM, S)"
        using Some by (simp add: red same)
      then show ?thesis using assms(1) by (simp add: ENOMEM_def)
    next
      case False
      define x where "x = (l ! i)\<lparr>kb_buffer := Some b\<rparr>"
      have x: "kb_key x = kb_key (l ! i)" "kb_buffer x = Some b" by (simp_all add: x_def kb_key_def)
      have "kernel_save E p a b S = Inr (0, KbList (l[i := x]))"
        using Some False by (auto simp: red same x_def)
      moreover have "map kb_key (l[i := x]) = map kb_key l"
        using i(1) x(1) by (simp add: map_update list_update_same_conv)
      ultimately show ?thesis
        using kernel_stored_update [OF d i(1) x(1)] d by (simp add: S kernel_ok_def x i(2))
    qed
  qed
qed

lemma kernel_page_store:
  assumes "\<forall>p a. kmalloc_ok E (AllocKernelBuffer p a)"
  shows "page_store (kernel_ops E) kernel_ok low_address kernel_stored True"
proof unfold_locales
  fix s p a b
  assume ok: "kernel_ok s"
  show "\<exists>s'. so_release (kernel_ops E) s = Inr s'"
    using ok by (auto simp: kernel_ok_def kernel_release_def split: kstore.splits)
  assume low: "low_address a"
  show "\<exists>n s'. so_save (kernel_ops E) p a b s = Inr (n, s') \<and> kernel_ok s' \<and> (n < 0 \<longrightarrow> True) \<and>
      (kernel_stored s' = (kernel_stored s)((p, a) \<mapsto> b) \<or> n < 0 \<and> kernel_stored s' = kernel_stored s)"
    using kernel_save_any [OF ok low assms, of p b] by simp
  show "\<exists>n c s'. so_load (kernel_ops E) p a b s = Inr (n, c, s') \<and> kernel_ok s' \<and> kernel_stored s' = kernel_stored s \<and>
      (n < 0 \<longrightarrow> True) \<and> (0 \<le> n \<longrightarrow> c = (case kernel_stored s (p, a) of Some d \<Rightarrow> d | None \<Rightarrow> zero_page))"
    using kernel_load_spec [OF ok low, of E p b] ok by simp
  show "\<exists>s'. so_remove (kernel_ops E) p a s = Inr s' \<and> kernel_ok s' \<and>
      (kernel_stored s' = (kernel_stored s)((p, a) := None) \<or> True \<and> kernel_stored s' = kernel_stored s)"
    using kernel_remove_spec [OF ok, of p a] by auto
qed

text \<open>A kernel that never has memory for a page of the kernel storage.\<close>

definition page_starved :: kenv where
  "page_starved = linux_ref\<lparr>kmalloc_ok := \<lambda>x. case x of AllocKernelPage _ _ \<Rightarrow> False | _ \<Rightarrow> True\<rparr>"

interpretation starved: page_store "kernel_ops page_starved" kernel_ok low_address kernel_stored True
  by (rule kernel_page_store) (simp add: page_starved_def)

end
