(* ===== verification/Survival.thy ===== *)
theory Survival
  imports Findings Failing
begin

text \<open>
  The module while things fail: memory for the first page of a buffer and for the index runs out, pages
  cannot be mapped into the kernel, the symbol \<open>zap_page_range\<close> is missing, a VMA is refused, the connection
  to the server is reset.  The fault handler and \<open>netmalloc\<close> survive all of it and lose nothing; \<open>netfree\<close>
  does unless the region is the last one of its VMA, because it ignores that a page could not be put away.

  As in \<open>Module\<close> sizes are positive and \<open>bounded\<close>, and a run does not go on after an allocation whose VMA
  was refused: that call itself answers \<open>NULL\<close>, but the ones after it may die (\<open>refused_vma_poisons\<close>).

  These are not all the failures there are.  What is assumed not to happen, because the code does not
  survive it: no memory for the record of an area or region or for the second page of a buffer
  (\<open>cache_page_oom_bad_free\<close>), a 1 in the uninitialised list head of an area (\<open>head_clean\<close>); and, because it loses
  data, a mapped page that \<open>get_user_pages\<close> does not find (\<open>failed_pin_loses_page\<close>) and a server that closes
  the connection in an orderly way (\<open>closed_connection_serves_stale\<close>).
\<close>

section \<open>The state machine with failures\<close>

text \<open>
  The kernel may be another one at each step, as long as it is \<open>robust\<close>.  A \<open>free\<close> is a step when
  its pages can be put away or its region is not the last of its VMA.
\<close>

definition free_sound :: "kenv \<Rightarrow> 's storage_ops \<Rightarrow> pid_t \<Rightarrow> u64 \<Rightarrow> 's gstate \<Rightarrow> bool" where
  "free_sound E ops p ptr st \<longleftrightarrow>
     (case unmap_page E ops p False st of
        Inl _ \<Rightarrow> False
      | Inr (e, st1) \<Rightarrow> e = 0 \<or>
          (case remove_region (g_mm st) p ptr (g_areas st) of Inl _ \<Rightarrow> False | Inr (as, cl) \<Rightarrow> cl = None))"

inductive module_survives ::
  "'s storage_ops \<Rightarrow> (u64 \<Rightarrow> bool) \<Rightarrow> (pid_t \<Rightarrow> mmid) \<Rightarrow> 's gstate \<Rightarrow> 's gstate \<Rightarrow> bool"
  for ops valid mm_of where
  SMalloc: "robust E \<Longrightarrow> t_mm cur = mm_of (t_pid cur) \<Longrightarrow> bounded (g_mm st) sz \<Longrightarrow> 0 < sz \<Longrightarrow>
    create_region E (g_mm st) sz cur (g_areas st) module_vm_ops = Inr (V, as, Some r) \<Longrightarrow>
    generic_malloc E ops cur sz st = Inr (ptr, st') \<Longrightarrow> module_survives ops valid mm_of st st'"
| SFree: "robust E \<Longrightarrow> t_mm cur = mm_of (t_pid cur) \<Longrightarrow> free_sound E ops (t_pid cur) ptr st \<Longrightarrow>
    generic_free E ops cur ptr st = Inr st' \<Longrightarrow> module_survives ops valid mm_of st st'"
| SFault: "robust E \<Longrightarrow> t_mm cur = mm_of (t_pid cur) \<Longrightarrow> v \<in> set (mmap (g_mm st) (t_mm cur)) \<Longrightarrow>
    g_pt st (t_mm cur, a) = None \<Longrightarrow> valid a \<Longrightarrow>
    generic_malloc_vm_fault E ops cur v a st = Inr (res, st') \<Longrightarrow> module_survives ops valid mm_of st st'"
| SWrite: "g_pt st (mm_of p, a) = Some f \<Longrightarrow> b \<in> set (g_bufs st) \<Longrightarrow> f \<in> set (frames_of b) \<Longrightarrow>
    module_survives ops valid mm_of st
      (st\<lparr>g_mem := (g_mem st)\<lparr>content := (content (g_mem st))(f := pg)\<rparr>\<rparr>)"
| SExit: "set vs = set (mmap (g_mm st) (mm_of p)) \<Longrightarrow> process_exit ops (mm_of p) vs st = Inr st' \<Longrightarrow>
    module_survives ops valid mm_of st st'"

inductive_cases module_survivesE: "module_survives ops valid mm_of st st'"

context page_store
begin

lemma fault_any:
  assumes safe: "msafe mm_of st" and inj: "inj mm_of" and P: "survivable E"
    and mm: "t_mm cur = mm_of (t_pid cur)" and v: "v \<in> set (mmap (g_mm st) (t_mm cur))"
    and none: "g_pt st (t_mm cur, a) = None" and val: "valid a"
  shows "\<exists>res st'. generic_malloc_vm_fault E ops cur v a st = Inr (res, st') \<and> msafe mm_of st' \<and>
    pview mm_of st' = pview mm_of st \<and> g_areas st' = g_areas st \<and>
    (\<not> is_valid_address a v (g_areas st) \<longrightarrow> res = VM_FAULT_SIGBUS \<and> st' = st) \<and>
    res = (case g_pt st' (t_mm cur, a) of Some f \<Rightarrow> FaultDone f | None \<Rightarrow> VM_FAULT_SIGBUS)"
proof (cases "is_valid_address a v (g_areas st)")
  case False
  then show ?thesis using safe none
    by (intro exI [of _ VM_FAULT_SIGBUS] exI [of _ st]) (simp add: generic_malloc_vm_fault_def)
next
  case True
  note D = module_safeD [OF safe]
  obtain vma where vma: "vmas (g_mm st) v = Some vma" "vm_mm vma = t_mm cur"
    using vma_of_mm [OF D(1) v] .
  from vm_fault_safe [OF D(4) inj P refl none [unfolded mm] val vma(1) _ _ True] vma v mm obtain res st' where
    r: "generic_malloc_vm_fault E ops cur v a st = Inr (res, st')" "psafe mm_of st'"
    "pview mm_of st' = pview mm_of st" "g_mm st' = g_mm st" "g_areas st' = g_areas st"
    "res = (case g_pt st' (mm_of (t_pid cur), a) of Some f \<Rightarrow> FaultDone f | None \<Rightarrow> VM_FAULT_SIGBUS)" by auto
  then show ?thesis using D True mm
    by (intro exI [of _ res] exI [of _ st']) (simp add: module_safe_def)
qed

lemma free_sound_any:
  assumes safe: "msafe mm_of st" and inj: "inj mm_of" and R: "robust E" and sound: "free_sound E ops (t_pid cur) ptr st"
  shows "\<exists>st'. generic_free E ops cur ptr st = Inr st' \<and> msafe mm_of st' \<and>
    (live (g_areas st') = live (g_areas st) \<or>
     (\<exists>us r ws. live (g_areas st) = us @ (t_pid cur, r) # ws \<and> live (g_areas st') = us @ ws \<and> virtual_start r = ptr)) \<and>
    (\<forall>q a. q \<noteq> t_pid cur \<longrightarrow> pview mm_of st' q a = pview mm_of st q a)"
proof -
  note D = module_safeD [OF safe]
  have each: "\<forall>a\<in>set (g_areas st). area_ok (g_mm st) a" using D(2) by (simp add: areas_ok_def)
  from get_area_spec [OF this, of "t_pid cur" ptr] obtain found where
    ga: "get_area (g_mm st) (t_pid cur) ptr (g_areas st) = Inr found" by blast
  from remove_region_live [OF D(2), of "t_pid cur" ptr] obtain as' cl where
    rr: "remove_region (g_mm st) (t_pid cur) ptr (g_areas st) = Inr (as', cl)"
    and lv: "live as' = live (g_areas st) \<or> (\<exists>us r ws. live (g_areas st) = us @ (t_pid cur, r) # ws \<and>
      live as' = us @ ws \<and> virtual_start r = ptr)" by blast
  obtain e st1 where u: "unmap_page E ops (t_pid cur) False st = Inr (e, st1)" and e: "e = 0 \<or> cl = None"
    using sound rr by (auto simp: free_sound_def split: sum.splits)
  obtain st' where f: "generic_free E ops cur ptr st = Inr st'" "msafe mm_of st'" "live (g_areas st') = live as'"
    "\<forall>q a. q \<noteq> t_pid cur \<longrightarrow> pview mm_of st' q a = pview mm_of st q a"
    using free_any [OF safe inj R refl ga rr u e] by (elim exE conjE) simp
  with lv show ?thesis by (intro exI [of _ st']) simp
qed

lemma survives_safe:
  assumes "module_survives ops valid mm_of st st'" and safe: "msafe mm_of st" and own: "bufs_owned st" and inj: "inj mm_of"
  shows "msafe mm_of st' \<and> bufs_owned st'"
  using assms(1)
proof (cases rule: module_survivesE [consumes 1, case_names Malloc Free Fault Write Exit])
  case (Malloc E cur sz V as r ptr)
  with malloc_any [OF safe inj, of E cur sz] have "msafe mm_of st'" by fastforce
  with malloc_owned [OF Malloc(6) own] show ?thesis by simp
next
  case (Free E cur ptr)
  have "distinct (buf_pids st)"
    using page_safeD(1) [OF module_safeD(4) [OF safe]] by (simp add: buffers_ok_def)
  with free_owned [OF Free(4) own] free_sound_any [OF safe inj Free(1,3)] Free(4) show ?thesis by auto
next
  case (Fault E cur v a res)
  note D = module_safeD [OF safe]
  have "survivable E" using Fault(1) by (simp add: robust_def)
  with fault_any [OF safe inj, of E cur v a] Fault have "msafe mm_of st'" by auto
  moreover obtain vma where "vmas (g_mm st) v = Some vma" "vm_mm vma = t_mm cur"
    using vma_of_mm [OF D(1) Fault(3)] Fault(2) by metis
  ultimately show ?thesis using fault_owned [OF Fault(6) own D(3) inj Fault(2)] by blast
next
  case (Write p a f b pg)
  then show ?thesis
    using safe own by (simp add: module_safe_def page_safe_def mappings_ok_def bufs_owned_def)
next
  case (Exit vs p)
  with exit_any [OF safe own inj, of vs p] show ?thesis by auto
qed

lemma reachable_safe:
  assumes "(module_survives ops valid mm_of)\<^sup>*\<^sup>* st st'" and "msafe mm_of st" and "bufs_owned st" and "inj mm_of"
  shows "msafe mm_of st' \<and> bufs_owned st'"
  using assms(1) by (induction rule: rtranclp_induct) (use assms(2-4) survives_safe in auto)

lemma loaded_safe: "loaded ok stored st \<Longrightarrow> msafe mm_of st"
  using loaded_inv [of ok stored st valid mm_of] by (simp add: module_inv_safe)

lemma reachable_any_total:
  assumes "loaded ok stored st0" and "(module_survives ops valid mm_of)\<^sup>*\<^sup>* st0 st" and inj: "inj mm_of"
    and R: "robust E" and mm: "t_mm cur = mm_of (t_pid cur)"
  shows "bounded (g_mm st) sz \<Longrightarrow> 0 < sz \<Longrightarrow> \<exists>ptr st'. generic_malloc E ops cur sz st = Inr (ptr, st')"
    and "free_sound E ops (t_pid cur) ptr st \<Longrightarrow> \<exists>st'. generic_free E ops cur ptr st = Inr st'"
    and "v \<in> set (mmap (g_mm st) (t_mm cur)) \<Longrightarrow> g_pt st (t_mm cur, a) = None \<Longrightarrow> valid a \<Longrightarrow>
      \<exists>res st'. generic_malloc_vm_fault E ops cur v a st = Inr (res, st')"
    and "set vs = set (mmap (g_mm st) (mm_of p)) \<Longrightarrow> \<exists>st'. process_exit ops (mm_of p) vs st = Inr st'"
    and "\<exists>st'. generic_malloc_clean ops st = Inr st'"
proof -
  have safe: "msafe mm_of st" and own: "bufs_owned st"
    using reachable_safe [OF assms(2) loaded_safe [OF assms(1)] loaded_owned [OF assms(1)] inj] by simp_all
  show "\<exists>st'. process_exit ops (mm_of p) vs st = Inr st'" if "set vs = set (mmap (g_mm st) (mm_of p))"
    using exit_any [OF safe own inj that] by blast
  show "\<exists>ptr st'. generic_malloc E ops cur sz st = Inr (ptr, st')" if "bounded (g_mm st) sz" "0 < sz"
    using safe inj R mm that by (cases rule: malloc_any) blast+
  show "\<exists>st'. generic_free E ops cur ptr st = Inr st'" if "free_sound E ops (t_pid cur) ptr st"
    using free_sound_any [OF safe inj R that] by metis
  show "\<exists>res st'. generic_malloc_vm_fault E ops cur v a st = Inr (res, st')"
    if "v \<in> set (mmap (g_mm st) (t_mm cur))" "g_pt st (t_mm cur, a) = None" "valid a"
    using fault_any [OF safe inj _ mm that, of E] R by (auto simp: robust_def)
  note P = page_safeD [OF module_safeD(4) [OF safe]]
  from remove_buffers_ok [OF P(1)] obtain M where "remove_buffers (g_mem st) (g_bufs st) = Inr M" by blast
  moreover have "ok (g_store st)" using P(4) by (simp add: index_safe_def)
  with release_any obtain s where "so_release ops (g_store st) = Inr s" by blast
  ultimately show "\<exists>st'. generic_malloc_clean ops st = Inr st'"
    by (simp add: generic_malloc_clean_def)
qed

end

section \<open>The module over a connection that may be lost\<close>

definition ln_ok :: "lossy net \<Rightarrow> bool" where
  "ln_ok n \<longleftrightarrow> sock n = SockOpen \<and> lossy_ok (world n)"

definition ln_stored :: "lossy net \<Rightarrow> pid_t \<times> u64 \<Rightarrow> page option" where
  "ln_stored n = lossy_tbl (world n)"

definition ln_ops :: "lossy net storage_ops" where
  "ln_ops = network_ops linux_ref lossy_env"

definition ln_safe :: "(pid_t \<Rightarrow> mmid) \<Rightarrow> lossy net gstate \<Rightarrow> bool" where
  "ln_safe = module_safe ln_ok (\<lambda>_. True) ln_stored"

definition ln_view :: "(pid_t \<Rightarrow> mmid) \<Rightarrow> lossy net gstate \<Rightarrow> pid_t \<Rightarrow> u64 \<Rightarrow> page" where
  "ln_view = page_view ln_stored"

interpretation ln: page_store ln_ops ln_ok "\<lambda>_. True" ln_stored True
  using lossy.lst.page_store_axioms [of linux_ref]
  by (simp add: ln_ops_def ln_ok_def [abs_def] ln_stored_def [abs_def])

text \<open>A state of the module as deployed, behind a connection that carries \<open>n\<close> more messages.\<close>

definition behind :: "nat \<Rightarrow> srv net gstate \<Rightarrow> lossy net gstate" where
  "behind n st = \<lparr>g_mm = g_mm st, g_pt = g_pt st, g_mem = g_mem st, g_areas = g_areas st, g_pages = g_pages st,
     g_bufs = g_bufs st, g_store = \<lparr>sock = sock (g_store st), world = \<lparr>l_srv = world (g_store st), l_left = n\<rparr>\<rparr>\<rparr>"

lemma behind_safe: "net_inv mm_of st \<Longrightarrow> ln_safe mm_of (behind n st)"
  by (simp add: net_inv_def ln_safe_def module_inv_def module_safe_def page_inv_def page_safe_def behind_def
      index_ok_def index_safe_def net_ok_def ln_ok_def net_stored_def ln_stored_def lossy_ok_def lossy_tbl_def srv_ok_def)

lemma behind_view: "ln_view mm_of (behind n st) = net_view mm_of st"
  by (intro ext) (simp add: ln_view_def net_view_def page_view_def behind_def ln_stored_def net_stored_def lossy_tbl_def
      split: option.split)

lemma behind_loaded: "loaded net_ok net_stored st \<Longrightarrow> loaded ln_ok ln_stored (behind n st)"
  by (simp add: loaded_def behind_def net_ok_def ln_ok_def net_stored_def ln_stored_def lossy_ok_def lossy_tbl_def srv_ok_def)

lemma behind_same [simp]:
  "g_mm (behind n st) = g_mm st" "g_pt (behind n st) = g_pt st" "g_mem (behind n st) = g_mem st"
  "g_areas (behind n st) = g_areas st" "g_pages (behind n st) = g_pages st" "g_bufs (behind n st) = g_bufs st"
  by (simp_all add: behind_def)

section \<open>Properties\<close>

lemma fault_survivable:
  assumes "ln_safe mm_of st" and "inj mm_of" and "survivable E" and "t_mm cur = mm_of (t_pid cur)"
    and "v \<in> set (mmap (g_mm st) (t_mm cur))" and "g_pt st (t_mm cur, a) = None"
  shows "\<exists>res st'. generic_malloc_vm_fault E ln_ops cur v a st = Inr (res, st') \<and> ln_safe mm_of st' \<and>
    ln_view mm_of st' = ln_view mm_of st \<and> g_areas st' = g_areas st \<and>
    (res = VM_FAULT_SIGBUS \<and> g_pt st' (t_mm cur, a) = None \<or>
     (\<exists>f. res = FaultDone f \<and> g_pt st' (t_mm cur, a) = Some f \<and>
        content (g_mem st') f = ln_view mm_of st (t_pid cur) a))"
proof -
  obtain res st' where r: "generic_malloc_vm_fault E ln_ops cur v a st = Inr (res, st')" "ln_safe mm_of st'"
    "ln_view mm_of st' = ln_view mm_of st" "g_areas st' = g_areas st"
    "res = (case g_pt st' (t_mm cur, a) of Some f \<Rightarrow> FaultDone f | None \<Rightarrow> VM_FAULT_SIGBUS)"
    using ln.fault_any [OF assms(1) [unfolded ln_safe_def] assms(2-6) TrueI] unfolding ln_safe_def ln_view_def by blast
  have "content (g_mem st') f = ln_view mm_of st (t_pid cur) a" if "g_pt st' (t_mm cur, a) = Some f" for f
    unfolding r(3) [symmetric] using that assms(4) by (simp add: ln_view_def page_view_def)
  with r show ?thesis by (intro exI [of _ res] exI [of _ st']) (auto split: option.split)
qed

text \<open>
  The one allocation the handler does not survive is that of the second page of a new buffer.  With
  every other result of it, it cannot tell the kernel from one in which this allocation succeeds.
\<close>

definition with_cache_page :: "kenv \<Rightarrow> kenv" where
  "with_cache_page E = E\<lparr>kmalloc_ok := \<lambda>x. x = AllocCachePage \<or> kmalloc_ok E x\<rparr>"

lemma with_cache_page_same [simp]:
  "kmap_ok (with_cache_page E) = kmap_ok E" "kallsyms_ok (with_cache_page E) = kallsyms_ok E"
  "get_user_pages (with_cache_page E) = get_user_pages E" "vm_insert_page (with_cache_page E) = vm_insert_page E"
  "zap_page_range (with_cache_page E) = zap_page_range E" "junk_long (with_cache_page E) = junk_long E"
  "kmalloc_ok (with_cache_page E) x \<longleftrightarrow> x = AllocCachePage \<or> kmalloc_ok E x"
  by (simp_all add: with_cache_page_def)

lemma add_stored_page_cache: "add_stored_page (with_cache_page E) p a pages = add_stored_page E p a pages"
  by (simp add: add_stored_page_def)

lemma unmap_page_keeps_buffer:
  "unmap_page E ops p c st = Inr (e, st') \<Longrightarrow> get_buffer q (g_bufs st') = None \<longleftrightarrow> get_buffer q (g_bufs st) = None"
  unfolding get_buffer_None by (metis unmap_page_frame list.set_map)

lemma copy_page_cache: "copy_page_from_user (with_cache_page E) = copy_page_from_user E"
  by (intro ext) (unfold copy_page_from_user_def with_cache_page_same add_stored_page_cache, rule refl)

lemma remove_user_page_cache: "remove_user_page (with_cache_page E) = remove_user_page E"
  by (intro ext) (unfold remove_user_page_def with_cache_page_same, rule refl)

lemma unmap_buffer_cache: "unmap_buffer (with_cache_page E) = unmap_buffer E"
  by (intro ext) (unfold unmap_buffer_def copy_page_cache remove_user_page_cache, rule refl)

lemma unmap_page_same_cache: "unmap_page (with_cache_page E) = unmap_page E"
  by (intro ext) (unfold unmap_page_def unmap_buffer_cache, rule refl)

lemma add_buffer_cache:
  "add_buffer (with_cache_page E) p M bs = add_buffer E p M bs \<or>
     add_buffer E p M bs = Inl BadFree \<and> \<not> kmalloc_ok E AllocCachePage"
  by (simp add: add_buffer_def split: prod.split)

lemma map_page_cache:
  "map_page (with_cache_page E) ops p a v st = map_page E ops p a v st \<or>
     map_page E ops p a v st = Inl BadFree \<and> \<not> kmalloc_ok E AllocCachePage \<and> get_buffer p (g_bufs st) = None"
  using add_buffer_cache [of E p "g_mem st" "g_bufs st"]
  unfolding map_page_def with_cache_page_same by (cases "get_buffer p (g_bufs st)") auto

lemma fault_cache:
  assumes "generic_malloc_vm_fault (with_cache_page E) ops cur v a st = Inr r"
  shows "generic_malloc_vm_fault E ops cur v a st = Inr r \<or>
     generic_malloc_vm_fault E ops cur v a st = Inl BadFree \<and> \<not> kmalloc_ok E AllocCachePage \<and>
       get_buffer (t_pid cur) (g_bufs st) = None"
proof (cases "get_buffer (t_pid cur) (g_bufs st)")
  case None
  then have u: "unmap_page E ops (t_pid cur) True st = Inr (0, st)" by (simp add: unmap_page_def)
  from map_page_cache [of E ops "t_pid cur" a v st] show ?thesis
    using assms u None
    by (auto simp: unmap_page_same_cache generic_malloc_vm_fault_def generic_malloc_get_page_def split: if_splits)
next
  case (Some i)
  have "map_page (with_cache_page E) ops (t_pid cur) a v st1 = map_page E ops (t_pid cur) a v st1"
    if "unmap_page E ops (t_pid cur) True st = Inr (0, st1)" for st1
    using map_page_cache [of E ops "t_pid cur" a v st1] unmap_page_keeps_buffer [OF that] Some by auto
  then have eq: "generic_malloc_get_page (with_cache_page E) ops (t_pid cur) a v st = generic_malloc_get_page E ops (t_pid cur) a v st"
    unfolding generic_malloc_get_page_def unmap_page_same_cache
    by (cases "unmap_page E ops (t_pid cur) True st") auto
  show ?thesis using assms unfolding generic_malloc_vm_fault_def eq by simp
qed

text \<open>
  C4. The fault handler under failures: the connection to the server may be reset between any two
  messages, and the kernel may refuse memory for pages, buffers and the index, the mapping of a page
  into the kernel, the symbol it needs and an entry of the page table.  The handler returns, keeps the module safe,
  and no page of any process looks different; it answers \<open>VM_FAULT_SIGBUS\<close>, or the page is mapped and
  holds exactly the bytes the process is to see there.  There is one way to die: the first fault of
  a process, when there is memory for its buffer and for one page but not for the second, ends in
  a bad \<open>kfree\<close>.  Paging is assumed to work as documented (\<open>paging_ok\<close>), a mapped page can be found in particular.
\<close>

theorem fault_survives_failures:
  assumes "ln_safe mm_of st" and "inj mm_of" and "paging_ok E" and "t_mm cur = mm_of (t_pid cur)"
    and "v \<in> set (mmap (g_mm st) (t_mm cur))" and "g_pt st (t_mm cur, a) = None"
  shows "(\<exists>res st'. generic_malloc_vm_fault E ln_ops cur v a st = Inr (res, st') \<and> ln_safe mm_of st' \<and>
      ln_view mm_of st' = ln_view mm_of st \<and> g_areas st' = g_areas st \<and>
      (res = VM_FAULT_SIGBUS \<and> g_pt st' (t_mm cur, a) = None \<or>
       (\<exists>f. res = FaultDone f \<and> g_pt st' (t_mm cur, a) = Some f \<and>
          content (g_mem st') f = ln_view mm_of st (t_pid cur) a))) \<or>
    (generic_malloc_vm_fault E ln_ops cur v a st = Inl BadFree \<and> \<not> kmalloc_ok E AllocCachePage \<and>
      get_buffer (t_pid cur) (g_bufs st) = None)"
proof -
  have "survivable (with_cache_page E)" using assms(3) by (simp add: survivable_def paging_ok_def)
  from fault_survivable [OF assms(1,2) this assms(4-6)] obtain res st' where
    r: "generic_malloc_vm_fault (with_cache_page E) ln_ops cur v a st = Inr (res, st')" "ln_safe mm_of st'"
      "ln_view mm_of st' = ln_view mm_of st" "g_areas st' = g_areas st"
      "res = VM_FAULT_SIGBUS \<and> g_pt st' (t_mm cur, a) = None \<or>
       (\<exists>f. res = FaultDone f \<and> g_pt st' (t_mm cur, a) = Some f \<and>
          content (g_mem st') f = ln_view mm_of st (t_pid cur) a)" by blast
  from fault_cache [OF r(1)] r(2-5) show ?thesis by blast
qed

theorem fault_survives_failures_witness:
  "\<exists>st'. generic_malloc_vm_fault linux_ref ln_ops demo_cur 0 4096 (behind 1 evicted) = Inr (VM_FAULT_SIGBUS, st') \<and>
     ln_view unat st' 7 4096 = (\<lambda>_. 5)"
proof -
  have v: "0 \<in> set (mmap (g_mm (behind 1 evicted)) (t_mm demo_cur))" and n: "g_pt (behind 1 evicted) (t_mm demo_cur, 4096) = None"
    by (simp_all add: evicted_def demo_state_def start_def demo_cur_def)
  note evicted_view
  moreover have "case generic_malloc_vm_fault linux_ref ln_ops demo_cur 0 4096 (behind 1 evicted) of
      Inr (res, st') \<Rightarrow> res = VM_FAULT_SIGBUS | _ \<Rightarrow> False"
    by (simp add: generic_malloc_vm_fault_def is_valid_address_def generic_malloc_get_page_def unmap_page_def
        map_page_def add_buffer_def vmalloc_user_def write_frame_def behind_def evicted_def demo_state_def demo_region_def start_def
        no_frames_def linux_ref_def Let_def align_floor_def align_ceil_def PAGE_SHIFT_def demo_cur_def ln_ops_def network_ops_def
        network_load_def socket_send_def socket_recv_def lossy_env_def ECONNRESET_def server_env_def header_size_def
        split: prod.split)
  ultimately show ?thesis
    using fault_survives_failures [OF behind_safe [OF evicted_inv] demo_mm_of(1) linux_ref_paging_ok demo_mm_of(2) v n]
    by (auto simp: behind_view)
qed

text \<open>
  C10. \<open>netmalloc\<close> under the failures of a \<open>robust\<close> kernel (which has memory for the records of areas and
  regions) and of the connection: it returns, no page of any process looks different, and it
  answers the address of a new region of the right size, or \<open>NULL\<close>.  After \<open>NULL\<close> either no live region
  has changed, or the region was made and stays, because a page in the buffers could not be put
  away; every other live region is as before.
\<close>

theorem malloc_survives_failures:
  assumes "ln_safe mm_of st" and "inj mm_of" and "robust E" and "t_mm cur = mm_of (t_pid cur)"
    and "bounded (g_mm st) sz" and "0 < sz"
  shows "\<exists>ptr st'. generic_malloc E ln_ops cur sz st = Inr (ptr, st') \<and> ln_view mm_of st' = ln_view mm_of st \<and>
    ((\<exists>r us ws. (ptr = virtual_start r \<or> ptr = 0) \<and> ln_safe mm_of st' \<and> r_size r = sz \<and> r_free r = 0 \<and>
        live (g_areas st) = us @ ws \<and> live (g_areas st') = us @ (t_pid cur, r) # ws) \<or>
     (ptr = 0 \<and> live (g_areas st') = live (g_areas st)))"
  using assms(1) [unfolded ln_safe_def] assms(2-6)
  by (cases rule: ln.malloc_any) (unfold ln_safe_def ln_view_def, metis+)

lemma no_kmap_robust: "robust no_kmap"
proof -
  have "robust linux_ref" by (rule env_ok_robust [OF linux_ref_env_ok])
  then show ?thesis
    by (simp add: robust_def survivable_def paging_ok_def alloc_ok_def insert_vm_ok_def munmap_ok_def no_kmap_def)
qed

theorem malloc_survives_failures_witness:
  "\<exists>ptr st'. generic_malloc no_kmap ln_ops demo_cur 100 (behind 0 shared_state) = Inr (ptr, st') \<and>
     ln_view unat st' 7 8192 = (\<lambda>_. 5)"
proof -
  have "bounded (g_mm (behind 0 shared_state)) 100"
    by (simp add: bounded_def shared_state_def demo_state_def start_def)
  moreover have "ln_view unat (behind 0 shared_state) 7 8192 = (\<lambda>_. 5)"
    by (simp add: ln_view_def page_view_def shared_state_def)
  ultimately show ?thesis
    using malloc_survives_failures [OF behind_safe [OF shared_inv] demo_mm_of(1) no_kmap_robust demo_mm_of(2), of 0 100]
    by auto
qed

text \<open>
  C3. No state reached under the failures listed at the top of this theory can make the kernel thread
  die: from the state after loading,
  through any sequence of allocations, faults, user writes, exits and sound frees, with the
  connection reset at any time and another \<open>robust\<close> kernel at each step, every allocation of a positive,
  \<open>bounded\<close> size, every fault, every sound free, the exit of any process and the final cleanup return.
  \<open>robust\<close> assumes memory for the records of areas and regions and for the second page of a buffer,
  pages found by \<open>get_user_pages\<close> and a clean list head; no VMA was refused in the run so far.
\<close>

theorem failures_never_oops:
  assumes "loaded ln_ok ln_stored st0" and "(module_survives ln_ops (\<lambda>_. True) mm_of)\<^sup>*\<^sup>* st0 st" and "inj mm_of"
    and "robust E" and "t_mm cur = mm_of (t_pid cur)"
  shows "(bounded (g_mm st) sz \<and> 0 < sz \<longrightarrow> (\<exists>ptr st'. generic_malloc E ln_ops cur sz st = Inr (ptr, st'))) \<and>
    (free_sound E ln_ops (t_pid cur) ptr st \<longrightarrow> (\<exists>st'. generic_free E ln_ops cur ptr st = Inr st')) \<and>
    (v \<in> set (mmap (g_mm st) (t_mm cur)) \<and> g_pt st (t_mm cur, a) = None \<longrightarrow>
      (\<exists>res st'. generic_malloc_vm_fault E ln_ops cur v a st = Inr (res, st'))) \<and>
    (set vs = set (mmap (g_mm st) (mm_of p)) \<longrightarrow> (\<exists>st'. process_exit ln_ops (mm_of p) vs st = Inr st')) \<and>
    (\<exists>st'. generic_malloc_clean ln_ops st = Inr st')"
  using ln.reachable_any_total [OF assms] by blast

lemma behind_survives: "module_survives ln_ops (\<lambda>_. True) unat (behind n start) (behind n demo_state)"
proof -
  have "generic_malloc linux_ref ln_ops demo_cur 5000 (behind n start) = Inr (4096, behind n demo_state)"
    by (simp add: generic_malloc_def demo_create)
      (simp add: behind_def start_def unmap_page_def demo_state_def demo_region_def)
  moreover have "bounded (g_mm (behind n start)) 5000" using demo_env(1) by simp
  moreover have "create_region linux_ref (g_mm (behind n start)) 5000 demo_cur (g_areas (behind n start)) module_vm_ops =
      Inr (g_mm demo_state, g_areas demo_state, Some demo_region)" using demo_create by simp
  ultimately show ?thesis
    by (intro module_survives.SMalloc [where E = linux_ref and cur = demo_cur and sz = 5000])
      (simp_all add: env_ok_robust [OF linux_ref_env_ok] demo_mm_of(2))
qed

theorem failures_never_oops_witness:
  "\<exists>res st'. generic_malloc_vm_fault no_kmap ln_ops demo_cur 0 4096 (behind 1 demo_state) = Inr (res, st')"
proof -
  have "0 \<in> set (mmap (g_mm (behind 1 demo_state)) (t_mm demo_cur)) \<and> g_pt (behind 1 demo_state) (t_mm demo_cur, 4096) = None"
    by (simp add: demo_state_def start_def demo_cur_def)
  moreover have "(module_survives ln_ops (\<lambda>_. True) unat)\<^sup>*\<^sup>* (behind 1 start) (behind 1 demo_state)"
    by (intro r_into_rtranclp behind_survives)
  ultimately show ?thesis
    using failures_never_oops [OF behind_loaded [OF start_loaded] _ demo_mm_of(1) no_kmap_robust demo_mm_of(2)] by blast
qed

section \<open>What does not survive\<close>

lemma area_count_without:
  "i < length as \<Longrightarrow> a_pid (as ! i) = p \<Longrightarrow> get_area_count p as = Suc (get_area_count p (take i as @ drop (Suc i) as))"
proof (induction as arbitrary: i)
  case (Cons a as)
  then show ?case by (cases i) auto
qed simp

text \<open>
  C39. \<open>generic_free\<close> ignores that a page could not be put away, because the connection is lost, say.
  When the freed region is the last of its VMA and the page left in the buffer belongs to it, the
  VMA goes although the buffer still points to it, and if the process has another area every
  following \<open>netfree\<close> of it reads freed memory.
\<close>

theorem free_ignores_failed_save:
  assumes "ln_safe mm_of st" and "inj mm_of" and "robust E" and "t_pid cur = p"
    and "unmap_page E ln_ops p False st = Inr (e, st1)"
    and "buffer_of p (g_bufs st1) = Some b" and "b_vma b = Some v"
    and "remove_region (g_mm st) p ptr (g_areas st) = Inr (as, Some (Some v))" and "1 < get_area_count p as"
  shows "\<exists>st'. generic_free E ln_ops cur ptr st = Inr st' \<and>
    (\<forall>E' cur' ptr'. t_pid cur' = p \<longrightarrow> generic_free E' ln_ops cur' ptr' st' = Inl UseAfterFree)"
proof -
  note D = module_safeD [OF assms(1) [unfolded ln_safe_def]]
  have surv: "survivable E" using assms(3) by (simp add: robust_def)
  have "ln.unmapped mm_of E st e st1"
    by (rule ln.unmap_page_all [OF D(4) assms(2) surv, of p], use assms(5) in simp)
  then have u: "ln.psafe mm_of st1" "g_mm st1 = g_mm st" "g_areas st1 = g_areas st" by (simp_all add: ln.unmapped_def)
  have each: "\<forall>a\<in>set (g_areas st1). area_ok (g_mm st1) a" using D(2) u(2,3) by (simp add: areas_ok_def)
  from get_area_spec [OF this, of p ptr] obtain found where
    ga: "get_area (g_mm st1) p ptr (g_areas st1) = Inr found" by blast
  obtain s pages where r: "remove_storage_pages ln_ops p ptr st1 = Inr (st1\<lparr>g_store := s, g_pages := pages\<rparr>)"
    "ln.psafe mm_of (st1\<lparr>g_store := s, g_pages := pages\<rparr>)"
    using ln.remove_storage_pages_any [OF u(1) ga] by blast
  obtain cl' as'' where "remove_region (g_mm st) p ptr (g_areas st) = Inr (as'', cl')" "areas_ok (g_mm st) as''"
    "homes_ok mm_of (g_mm st) as''"
    "cl' = None \<or> (\<exists>i v. cl' = Some (Some v) \<and> i < length as'' \<and> a_vma (as'' ! i) = Some v \<and>
       regions (as'' ! i) = [] \<and> a_pid (as'' ! i) = p)"
    by (rule remove_region_shape [OF D(2,3), of p ptr]) blast
  with assms(8) obtain j where j: "areas_ok (g_mm st) as" "homes_ok mm_of (g_mm st) as" "j < length as"
    "a_vma (as ! j) = Some v" "regions (as ! j) = []" "a_pid (as ! j) = p" by auto
  define st3 where "st3 = st1\<lparr>g_store := s, g_pages := pages, g_areas := as\<rparr>"
  have a3: "g_areas st3 = as" "g_mm st3 = g_mm st" "g_bufs st3 = g_bufs st1" by (simp_all add: st3_def u(2))
  have safe3: "ln.msafe mm_of st3"
    using D(1) j(1,2) r(2) by (simp add: module_safe_def page_safe_def a3) (simp add: st3_def u(2))
  obtain vma M where run: "kbind (remove_vma E (g_mm st3) (g_pt st3) (Some v)) (\<lambda>(V, pt, closed).
       close_all ln_ops closed (st3\<lparr>g_mm := V, g_pt := pt\<rparr>)) = Inr (without_area j p v vma M st3)"
    using ln.unmap_area_run [OF safe3 assms(3), of j v p] j(3-6) unfolding a3 by metis
  define st' where "st' = without_area j p v vma M st3"
  have "get_area_count p (take j as @ drop (Suc j) as) \<noteq> 0"
    using area_count_without [OF j(3,6)] assms(9) by simp
  then have st': "g_bufs st' = g_bufs st1" "vmas (g_mm st') v = None"
    by (simp_all add: st'_def without_area_def Let_def a3)
  have "generic_free E ln_ops cur ptr st = Inr st'"
    using assms(4,5,8) r(1) run [folded st'_def]
    by (simp add: generic_free_def u st3_def [symmetric] Let_def) (simp add: st3_def u)
  moreover have "generic_free E' ln_ops cur' ptr' st' = Inl UseAfterFree" if "t_pid cur' = p" for E' cur' ptr'
    by (rule dangling_free_oops [of _ _ b v]) (use that assms(6,7) st' in simp_all)
  ultimately show ?thesis by blast
qed

text \<open>The process with two areas; each has one region, and a page of the first is mapped.\<close>

definition lone_areas :: "srv net gstate" where
  "lone_areas = two_areas\<lparr>g_areas := [shared_area\<lparr>free_space := 3192, regions := [demo_region]\<rparr>, other_area]\<rparr>"

lemma lone_areas_inv: "net_inv unat lone_areas"
proof -
  note D = net_closableD [OF two_areas_closable]
  note P = page_invD [OF module_invD(4) [OF shared_inv [unfolded net_inv_def]]]
  have same: "g_mm lone_areas = g_mm two_areas" "g_bufs lone_areas = g_bufs shared_state" "g_mem lone_areas = g_mem shared_state"
    "g_pt lone_areas = g_pt shared_state" "g_store lone_areas = g_store shared_state" "g_pages lone_areas = g_pages shared_state"
    by (simp_all add: lone_areas_def two_areas_def)
  have "areas_ok (g_mm lone_areas) (g_areas lone_areas)" "homes_ok unat (g_mm lone_areas) (g_areas lone_areas)"
    by (simp_all add: lone_areas_def two_areas_def shared_area_def other_area_def demo_region_def areas_ok_def area_ok_def
        homes_ok_def home_ok_def regions_wf_def tail_used_def)
  moreover have "slots_ok unat (\<lambda>_. True) (g_mm lone_areas) (g_pt lone_areas) c"
    if "buffer_of q (g_bufs lone_areas) = Some c" for q c
    using that by (auto simp: lone_areas_def two_areas_def shared_state_def slots_ok_def slot_ok_def split: if_splits)
  ultimately show ?thesis
    using D(1) P by (simp add: net_inv_def module_inv_def page_inv_def same)
qed

theorem free_ignores_failed_save_witness:
  "\<exists>st'. generic_free linux_ref ln_ops demo_cur 4096 (behind 0 lone_areas) = Inr st' \<and>
     generic_free linux_ref ln_ops demo_cur 12288 st' = Inl UseAfterFree"
proof -
  let ?st = "behind 0 lone_areas"
  define as where "as = [shared_area\<lparr>free_space := 8192, regions := []\<rparr>, other_area]"
  have "remove_region (g_mm ?st) 7 4096 (g_areas ?st) = Inr (as, Some (Some 0))"
    by (simp add: remove_region_def lone_areas_def two_areas_def shared_area_def other_area_def demo_region_def as_def
        get_region_def merge_neighbors_region_def merge_next_def remove_if_last_def Let_def)
  moreover have "1 < get_area_count 7 as" by (simp add: as_def shared_area_def other_area_def)
  moreover have "unmap_page linux_ref ln_ops 7 False ?st = Inr (- ECONNRESET, ?st)"
    by (simp add: unmap_page_def unmap_buffer_def is_existing_vma_def copy_page_from_user_def behind_def lone_areas_def
        two_areas_def shared_state_def demo_state_def start_def fresh_net_def linux_ref_def ln_ops_def network_ops_def
        network_save_def socket_send_def lossy_env_def header_size_def ECONNRESET_def Let_def)
  moreover have "buffer_of 7 (g_bufs ?st) = Some (hd (g_bufs shared_state))" "b_vma (hd (g_bufs shared_state)) = Some 0"
    by (simp_all add: lone_areas_def two_areas_def shared_state_def)
  moreover have "t_pid demo_cur = 7" by (simp add: demo_cur_def)
  ultimately show ?thesis
    using free_ignores_failed_save [OF behind_safe [OF lone_areas_inv] demo_mm_of(1) env_ok_robust [OF linux_ref_env_ok],
        of demo_cur 7] by blast
qed

text \<open>
  C38. A connection the server has closed is not seen as a failure: \<open>recv\<close> answers 0, which \<open>map_page\<close>
  takes for success, and the fault handler maps the page that was last in this place of the
  buffer: the process finds the bytes of another page where its own should be.
\<close>

theorem closed_connection_serves_stale:
  assumes "is_valid_address a v (g_areas st)" and "is_stored_page p a (g_pages st)" and "t_pid cur = p"
    and "get_buffer p (g_bufs st) = Some i" and "b_cache_vma (g_bufs st ! i) = None"
    and "b_cache (g_bufs st ! i) = Some g" and "owned (g_mem st) g"
    and "vmas (g_mm st) v = Some vma" and "vm_insert_page E (g_pt st) (vm_mm vma) a g = Some pt"
    and "sock (g_store st) = SockOpen"
    and "sock_sendmsg N (header_bytes \<lparr>command = PROTOCOL_GET, ph_pid = p, ph_address = a\<rparr>) (world (g_store st)) = (16, w1)"
    and "sock_recvmsg N 4096 w1 = (0, [], w2)"
  shows "\<exists>st'. generic_malloc_vm_fault E (network_ops E N) cur v a st = Inr (FaultDone g, st') \<and>
    g_pt st' = pt \<and> content (g_mem st') g = content (g_mem st) g"
proof -
  have i: "i < length (g_bufs st)" "b_pid (g_bufs st ! i) = p" using get_buffer_Some [OF assms(4)] by simp_all
  have "b_pid (swap_buffer_cache (g_bufs st ! i)) = p" using i(2) by simp
  note sw = get_buffer_update [OF assms(4) this]
  have "fill_page [] b = b" for b :: page by (rule ext) (simp add: fill_page_def)
  then have ld: "network_load N p a b (g_store st) = Inr (0, b, (g_store st)\<lparr>world := w2\<rparr>)" for b
    using assms(10-12) by (simp add: network_load_def socket_send_def socket_recv_def header_size_def)
  have u: "unmap_page E (network_ops E N) p True st = Inr (0, swap_at i st)"
    using assms(4,5) by (simp add: unmap_page_def)
  show ?thesis
    using assms(1-3,6-9) u sw i
    by (simp add: generic_malloc_vm_fault_def generic_malloc_get_page_def map_page_def write_frame_def swap_at_def
        network_ops_def ld)
qed

text \<open>A page of nines was last in the buffer; the page of fives is in the storage.\<close>

definition stale :: "srv net gstate" where
  "stale = evicted\<lparr>g_mem := \<lparr>content = (\<lambda>f. if f = 1 then (\<lambda>_. 9) else zero_page), owned = (\<lambda>f. f < 2), next_frame = 2\<rparr>,
     g_bufs := [\<lparr>b_buffer = Some 0, b_vma = None, b_start = 0, b_pid = 7,
                b_cache = Some 1, b_cache_vma = None, b_cache_start = 8192\<rparr>]\<rparr>"

theorem closed_connection_serves_stale_witness:
  "net_stored (g_store stale) (7, 4096) = Some (\<lambda>_. 5) \<and>
   (\<exists>f st'. generic_malloc_vm_fault linux_ref (network_ops linux_ref (server_env\<lparr>sock_recvmsg := \<lambda>_ w. (0, [], w)\<rparr>))
       demo_cur 0 4096 stale = Inr (FaultDone f, st') \<and> content (g_mem st') f = (\<lambda>_. 9))"
proof -
  let ?N = "server_env\<lparr>sock_recvmsg := \<lambda>_ w. (0, [], w)\<rparr>"
  have st: "g_store stale = g_store evicted" by (simp add: stale_def)
  have ok: "net_ok (g_store stale)"
    using page_invD(4) [OF module_invD(4) [OF evicted_inv [unfolded net_inv_def]]] by (simp add: index_ok_def st)
  then obtain w1 where "sock_sendmsg server_env (header_bytes \<lparr>command = PROTOCOL_GET, ph_pid = 7, ph_address = 4096\<rparr>)
      (world (g_store stale)) = (16, w1)"
    using srv.get [of "world (g_store stale)" 7 4096] by (auto simp: net_ok_def)
  then have s: "sock_sendmsg ?N (header_bytes \<lparr>command = PROTOCOL_GET, ph_pid = 7, ph_address = 4096\<rparr>)
      (world (g_store stale)) = (16, w1)" "sock_recvmsg ?N 4096 w1 = (0, [], w1)" "sock (g_store stale) = SockOpen"
    using ok by (simp_all add: net_ok_def)
  obtain vma where vma: "vmas (g_mm stale) 0 = Some vma" "vm_mm vma = 7" "g_pt stale = Map.empty"
    by (simp add: stale_def evicted_def demo_state_def start_def)
  have "vm_insert_page linux_ref (g_pt stale) (vm_mm vma) 4096 1 = Some [(7, 4096) \<mapsto> 1]"
    by (simp add: linux_ref_def vma)
  moreover have "is_valid_address 4096 0 (g_areas stale)" "is_stored_page 7 4096 (g_pages stale)" "t_pid demo_cur = 7"
    "get_buffer 7 (g_bufs stale) = Some 0" "b_cache_vma (g_bufs stale ! 0) = None" "b_cache (g_bufs stale ! 0) = Some 1"
    "owned (g_mem stale) 1" "content (g_mem stale) 1 = (\<lambda>_. 9)"
    by (simp_all add: stale_def evicted_def demo_state_def is_valid_address_def demo_region_def align_floor_def align_ceil_def
        PAGE_SHIFT_def demo_cur_def)
  ultimately show ?thesis
    using closed_connection_serves_stale [of 4096 0 stale 7 demo_cur 0 1 vma linux_ref _ ?N w1 w1] s vma(1) evicted_stored
    by (auto simp: st)
qed

text \<open>
  When the user's page cannot be pinned, \<open>copy_page_from_user\<close> answers 0 without having saved
  anything, so \<open>unmap_buffer\<close> unmaps the page all the same: its bytes are lost.
\<close>

theorem failed_pin_loses_page:
  assumes "b_vma (g_bufs st ! i) = Some v" and "vmas (g_mm st) v = Some vma" and "v \<in> set (mmap (g_mm st) (vm_mm vma))"
    and "get_user_pages E (g_pt st) (vm_mm vma) (b_start (g_bufs st ! i)) = None"
    and "kallsyms_ok E ''zap_page_range''" and "\<forall>pt m a. zap_page_range E pt m a PAGE_SIZE = pt((m, a) := None)"
  shows "\<exists>st'. unmap_buffer E ops i st = Inr (0, st') \<and> g_store st' = g_store st \<and> g_pages st' = g_pages st \<and>
    g_pt st' (vm_mm vma, b_start (g_bufs st ! i)) = None"
  using assms
  by (simp add: unmap_buffer_def is_existing_vma_live copy_page_from_user_def remove_user_page_def Let_def)

theorem failed_pin_loses_page_witness:
  "net_view unat shared_state 7 8192 = (\<lambda>_. 5) \<and>
   (\<exists>st'. unmap_buffer (linux_ref\<lparr>get_user_pages := \<lambda>_ _ _. None\<rparr>) net_ops 0 shared_state = Inr (0, st') \<and>
      net_view unat st' 7 8192 = zero_page)"
proof -
  let ?E = "linux_ref\<lparr>get_user_pages := \<lambda>_ _ _. None\<rparr>"
  obtain vma where vma: "vmas (g_mm shared_state) 0 = Some vma" "vm_mm vma = 7" "0 \<in> set (mmap (g_mm shared_state) 7)"
    by (simp add: shared_state_def demo_state_def)
  have z: "\<forall>pt m a. zap_page_range ?E pt m a PAGE_SIZE = pt((m, a) := None)" by (simp add: linux_ref_def)
  have b: "b_vma (g_bufs shared_state ! 0) = Some 0" "b_start (g_bufs shared_state ! 0) = 8192"
    by (simp_all add: shared_state_def)
  obtain st' where st': "unmap_buffer ?E net_ops 0 shared_state = Inr (0, st')" "g_pages st' = g_pages shared_state"
    "g_pt st' (7, 8192) = None"
    using failed_pin_loses_page [of shared_state 0 0 vma ?E net_ops] vma b z by (auto simp: linux_ref_def)
  have "g_pages shared_state = []" by (simp add: shared_state_def demo_state_def start_def)
  then have "net_view unat st' 7 8192 = zero_page" using st'(2,3) by (simp add: net_view_def page_view_def)
  moreover have "net_view unat shared_state 7 8192 = (\<lambda>_. 5)" by (simp add: net_view_def page_view_def shared_state_def)
  ultimately show ?thesis using st'(1) by blast
qed

end
