(* ===== verification/Clients.thy ===== *)
theory Clients
  imports Server
begin

text \<open>
  \<open>src/server/server.py\<close> with several connections: \<open>ThreadedTCPServer\<close> starts a thread for each, and
  all of them work on the one dictionary \<open>pages\<close>, an attribute of the class.  Here the bytes of different
  connections interleave, and a thread handles a request in one step when its bytes have arrived;
  \<open>Threads\<close> takes the requests apart and shows for which clients this is right.
\<close>

section \<open>The server\<close>

type_synonym conn = nat

record server =
  sv_pages :: page_table
  sv_in :: "conn \<Rightarrow> u8 list"
  sv_out :: "conn \<Rightarrow> u8 list"
  sv_end :: "conn \<Rightarrow> loop_end"

text \<open>The thread of connection \<open>c\<close> runs until it waits again, or ends because its peer has closed.\<close>

definition run_thread :: "bool \<Rightarrow> conn \<Rightarrow> u8 list \<Rightarrow> server \<Rightarrow> server" where
  "run_thread closed c bs S =
     (if sv_end S c \<noteq> Waiting then S
      else (case handle closed (sv_pages S) (sv_in S c @ bs) (sv_out S c) of (pages, inb, out, e) \<Rightarrow>
        S\<lparr>sv_pages := pages, sv_in := (sv_in S)(c := inb), sv_out := (sv_out S)(c := out),
          sv_end := (sv_end S)(c := e)\<rparr>))"

text \<open>What the network can do: deliver bytes of a connection, or close it.\<close>

datatype event = Arrive conn "u8 list" | Hangup conn

fun serve_event :: "event \<Rightarrow> server \<Rightarrow> server" where
  "serve_event (Arrive c bs) S = run_thread False c bs S"
| "serve_event (Hangup c) S = run_thread True c [] S"

definition serve :: "event list \<Rightarrow> server \<Rightarrow> server" where
  "serve evs S = fold serve_event evs S"

lemma serve_simps [simp]: "serve [] S = S" "serve (ev # evs) S = serve evs (serve_event ev S)"
  by (simp_all add: serve_def)

definition fresh_server :: "page_table \<Rightarrow> server" where
  "fresh_server pages = \<lparr>sv_pages = pages, sv_in = (\<lambda>_. []), sv_out = (\<lambda>_. []), sv_end = (\<lambda>_. Waiting)\<rparr>"

section \<open>Requests of one connection, cut anywhere\<close>

lemma encode_nonempty: "16 \<le> length (encode r)"
  by (cases r) (simp_all add: header_size_def)

text \<open>A request that has not arrived as a whole waits.\<close>

lemma handle_incomplete:
  assumes "inb @ later = encode r" and "later \<noteq> []"
  shows "handle closed pages inb out = (pages, inb, out, if closed then (if length inb < 16 then Quit else TypeError) else Waiting)"
proof (cases "length inb < 16")
  case True
  then show ?thesis by (simp add: handle_short)
next
  case False
  have len: "length inb < length (encode r)" using assms by (metis length_append less_add_same_cancel1 length_greater_0_conv)
  with False obtain p a b where r: "r = Put p a b" by (cases r) (simp_all add: header_size_def)
  define h where "h = header_bytes \<lparr>command = PROTOCOL_PUT, ph_pid = p, ph_address = a\<rparr>"
  have lh: "length h = 16" by (simp add: h_def header_size_def)
  have enc: "encode r = h @ page_bytes b" by (simp add: r h_def)
  have "take 16 inb = take 16 (inb @ later)" using False by simp
  also have "\<dots> = h" using assms(1) lh by (simp add: enc)
  finally have inb: "inb = h @ drop 16 inb" by (metis append_take_drop_id)
  moreover have "length (drop 16 inb) < 4096" using len False by (simp add: enc lh)
  ultimately show ?thesis
    using False handle_header [of closed pages "\<lparr>command = PROTOCOL_PUT, ph_pid = p, ph_address = a\<rparr>" "drop 16 inb" out]
    by (simp add: h_def [symmetric])
qed

text \<open>What has arrived is a sequence of whole requests and the beginning of the next one.\<close>

lemma handle_prefix:
  assumes "table_ok pages" and "inb @ later = concat (map encode rs)"
  shows "\<exists>finished todo i pages'. rs = finished @ todo \<and>
    handle False pages inb out = (pages', i, out @ replies finished (table_abs pages), Waiting) \<and>
    i @ later = concat (map encode todo) \<and> (todo \<noteq> [] \<longrightarrow> length i < length (encode (hd todo))) \<and>
    table_abs pages' = fold apply_request finished (table_abs pages) \<and> table_ok pages'"
  using assms
proof (induction rs arbitrary: pages inb out)
  case Nil
  then show ?case by (intro exI [of _ "[]"] exI [of _ "[]"] exI [of _ "[]"] exI [of _ pages]) simp
next
  case (Cons r rs)
  show ?case
  proof (cases "length inb < length (encode r)")
    case True
    define rest where "rest = drop (length inb) (encode r)"
    have "take (length inb) (inb @ later) = take (length inb) (encode r @ concat (map encode rs))"
      using Cons.prems(2) by simp
    then have "inb = take (length inb) (encode r)" using True by simp
    then have "inb @ rest = encode r" by (metis append_take_drop_id rest_def)
    moreover have "rest \<noteq> []" using True by (simp add: rest_def)
    ultimately have "handle False pages inb out = (pages, inb, out, Waiting)"
      using handle_incomplete [of inb rest r False pages out] by simp
    then show ?thesis using Cons.prems True
      by (intro exI [of _ "[]"] exI [of _ "r # rs"] exI [of _ inb] exI [of _ pages]) simp
  next
    case False
    define inb' where "inb' = drop (length (encode r)) inb"
    have "take (length (encode r)) (inb @ later) = encode r" using Cons.prems(2) by simp
    then have "take (length (encode r)) inb = encode r" using False by simp
    then have inb: "inb = encode r @ inb'" by (metis append_take_drop_id inb'_def)
    then have later: "inb' @ later = concat (map encode rs)" using Cons.prems(2) by simp
    obtain p1 where p1: "handle False pages inb out = handle False p1 inb' (out @ reply r (table_abs pages))"
      "table_abs p1 = apply_request r (table_abs pages)" "table_ok p1"
      using handle_request [OF Cons.prems(1), of False r inb' out] by (auto simp: inb)
    obtain finished todo i p' where rest: "rs = finished @ todo"
      "handle False p1 inb' (out @ reply r (table_abs pages)) =
         (p', i, (out @ reply r (table_abs pages)) @ replies finished (table_abs p1), Waiting)"
      "i @ later = concat (map encode todo)" "todo \<noteq> [] \<longrightarrow> length i < length (encode (hd todo))"
      "table_abs p' = fold apply_request finished (table_abs p1)" "table_ok p'"
      using Cons.IH [OF p1(3) later, of "out @ reply r (table_abs pages)"] by blast
    then show ?thesis using p1
      by (intro exI [of _ "r # finished"] exI [of _ todo] exI [of _ i] exI [of _ p']) simp
  qed
qed

section \<open>Linearisation\<close>

text \<open>The bytes of connection \<open>c\<close> that are delivered before it is closed.\<close>

fun sent :: "conn \<Rightarrow> event list \<Rightarrow> u8 list" where
  "sent c [] = []"
| "sent c (Arrive d bs # evs) = (if d = c then bs else []) @ sent c evs"
| "sent c (Hangup d # evs) = (if d = c then [] else sent c evs)"

text \<open>The requests of one connection in a log of requests, and the replies it gets.\<close>

definition requests_of :: "conn \<Rightarrow> (conn \<times> request) list \<Rightarrow> request list" where
  "requests_of c log = map snd (filter (\<lambda>x. fst x = c) log)"

fun replies_to :: "conn \<Rightarrow> (conn \<times> request) list \<Rightarrow> (pid_t \<times> u64 \<Rightarrow> page option) \<Rightarrow> u8 list" where
  "replies_to c [] T = []"
| "replies_to c ((d, r) # log) T = (if d = c then reply r T else []) @ replies_to c log (apply_request r T)"

lemma requests_of_simps [simp]:
  "requests_of c [] = []" "requests_of c (x # log) = (if fst x = c then [snd x] else []) @ requests_of c log"
  "requests_of c (log @ log') = requests_of c log @ requests_of c log'"
  by (simp_all add: requests_of_def)

lemma requests_of_tag: "requests_of c (map (Pair d) rs) = (if c = d then rs else [])"
  by (induction rs) auto

lemma replies_to_append:
  "replies_to c (log @ log') T = replies_to c log T @ replies_to c log' (fold apply_request (map snd log) T)"
  by (induction c log T rule: replies_to.induct) auto

lemma replies_to_tag: "replies_to c (map (Pair d) rs) T = (if c = d then replies rs T else [])"
  by (induction rs arbitrary: T) auto

text \<open>Where the connections stand: \<open>rs c\<close> are the requests of \<open>c\<close> that are not handled yet.\<close>

definition stands :: "loop_end \<Rightarrow> u8 list \<Rightarrow> u8 list \<Rightarrow> request list \<Rightarrow> bool" where
  "stands e inb left rs \<longleftrightarrow>
     (if e = Waiting then inb @ left = concat (map encode rs) \<and> (rs \<noteq> [] \<longrightarrow> length inb < length (encode (hd rs)))
      else rs = [])"

definition standing :: "server \<Rightarrow> (conn \<Rightarrow> u8 list) \<Rightarrow> (conn \<Rightarrow> request list) \<Rightarrow> bool" where
  "standing S left rs \<longleftrightarrow> table_ok (sv_pages S) \<and> (\<forall>c. stands (sv_end S c) (sv_in S c) (left c) (rs c))"

lemma standingD: "standing S left rs \<Longrightarrow> stands (sv_end S c) (sv_in S c) (left c) (rs c)"
  by (simp add: standing_def)

lemma standingI:
  assumes "table_ok (sv_pages S)" and "\<And>c. stands (sv_end S c) (sv_in S c) (left c) (rs c)"
  shows "standing S left rs"
  using assms by (simp add: standing_def)

text \<open>When everything has arrived everything is handled.\<close>

lemma stands_all: "stands Waiting inb [] rs \<Longrightarrow> rs = []"
  by (cases rs) (auto simp: stands_def)

lemma arrive_step:
  assumes "standing S (\<lambda>d. (if d = c then bs else []) @ left d) rs"
  shows "\<exists>finished todo. rs c = finished @ todo \<and> standing (run_thread False c bs S) left (rs(c := todo)) \<and>
    sv_out (run_thread False c bs S) = (sv_out S)(c := sv_out S c @ replies finished (table_abs (sv_pages S))) \<and>
    table_abs (sv_pages (run_thread False c bs S)) = fold apply_request finished (table_abs (sv_pages S)) \<and>
    sv_end (run_thread False c bs S) = sv_end S"
proof (cases "sv_end S c = Waiting")
  case False
  then have "run_thread False c bs S = S" "rs c = []"
    using standingD [OF assms, of c] by (simp_all add: run_thread_def stands_def)
  moreover have "standing S left rs"
  proof (rule standingI)
    show "table_ok (sv_pages S)" using assms by (simp add: standing_def)
    show "stands (sv_end S d) (sv_in S d) (left d) (rs d)" for d
      using standingD [OF assms, of d] False by (cases "d = c") (simp_all add: stands_def)
  qed
  ultimately show ?thesis by (intro exI [of _ "[]"] exI [of _ "[]"]) (simp add: fun_upd_idem)
next
  case True
  then have eq: "(sv_in S c @ bs) @ left c = concat (map encode (rs c))" and ok: "table_ok (sv_pages S)"
    using standingD [OF assms, of c] assms True by (simp_all add: stands_def standing_def)
  from handle_prefix [OF ok eq, of "sv_out S c"] obtain finished todo i p' where
    h: "rs c = finished @ todo"
      "handle False (sv_pages S) (sv_in S c @ bs) (sv_out S c) = (p', i, sv_out S c @ replies finished (table_abs (sv_pages S)), Waiting)"
      "i @ left c = concat (map encode todo)" "todo \<noteq> [] \<longrightarrow> length i < length (encode (hd todo))"
      "table_abs p' = fold apply_request finished (table_abs (sv_pages S))" "table_ok p'" by blast
  have run: "run_thread False c bs S = S\<lparr>sv_pages := p', sv_in := (sv_in S)(c := i),
      sv_out := (sv_out S)(c := sv_out S c @ replies finished (table_abs (sv_pages S)))\<rparr>"
    using True h(2) by (simp add: run_thread_def fun_upd_idem)
  have "standing (run_thread False c bs S) left (rs(c := todo))"
  proof (rule standingI)
    show "table_ok (sv_pages (run_thread False c bs S))" using h(6) by (simp add: run)
    show "stands (sv_end (run_thread False c bs S) d) (sv_in (run_thread False c bs S) d) (left d) ((rs(c := todo)) d)" for d
      using standingD [OF assms, of d] h(3,4) True by (cases "d = c") (simp_all add: run stands_def)
  qed
  with h(1,5) show ?thesis by (intro exI [of _ finished] exI [of _ todo]) (simp add: run)
qed

text \<open>A connection that is closed inside a request leaves the table alone.\<close>

lemma hangup_step:
  assumes st: "standing S left rs" and w: "sv_end S c = Waiting"
  shows "\<exists>e. e \<noteq> Waiting \<and> run_thread True c [] S = S\<lparr>sv_end := (sv_end S)(c := e)\<rparr>"
proof -
  have eq: "sv_in S c @ left c = concat (map encode (rs c))"
    and short: "rs c \<noteq> [] \<longrightarrow> length (sv_in S c) < length (encode (hd (rs c)))"
    using standingD [OF st, of c] w by (simp_all add: stands_def)
  have "\<exists>e. e \<noteq> Waiting \<and> handle True (sv_pages S) (sv_in S c) (sv_out S c) = (sv_pages S, sv_in S c, sv_out S c, e)"
  proof (cases "rs c")
    case Nil
    with eq show ?thesis by simp
  next
    case (Cons r rest)
    have "take (length (sv_in S c)) (sv_in S c @ left c) = take (length (sv_in S c)) (encode r @ concat (map encode rest))"
      using eq Cons by simp
    then have "sv_in S c = take (length (sv_in S c)) (encode r)" using short Cons by simp
    then have "sv_in S c @ drop (length (sv_in S c)) (encode r) = encode r" by (metis append_take_drop_id)
    from handle_incomplete [OF this, of True "sv_pages S" "sv_out S c"] short Cons show ?thesis by auto
  qed
  then show ?thesis using w by (auto simp: run_thread_def)
qed

lemma serve_log:
  assumes "standing S (\<lambda>c. sent c evs @ later c) rs"
  shows "\<exists>log. table_abs (sv_pages (serve evs S)) = fold apply_request (map snd log) (table_abs (sv_pages S)) \<and>
    (\<forall>c. sv_out (serve evs S) c = sv_out S c @ replies_to c log (table_abs (sv_pages S)) \<and>
       (\<exists>todo. rs c = requests_of c log @ todo \<and> (later c = [] \<longrightarrow> todo = [])))"
  using assms
proof (induction evs arbitrary: S rs)
  case Nil
  have "rs c = []" if "later c = []" for c
  proof (cases "sv_end S c = Waiting")
    case True
    then show ?thesis using standingD [OF Nil, of c] that by (intro stands_all [of "sv_in S c"]) simp
  next
    case False
    then show ?thesis using standingD [OF Nil, of c] by (simp add: stands_def)
  qed
  then show ?case by (intro exI [of _ "[]"]) simp
next
  case (Cons ev evs)
  show ?case
  proof (cases ev)
    case (Arrive c bs)
    define S1 where "S1 = run_thread False c bs S"
    define T where "T = table_abs (sv_pages S)"
    have "(\<lambda>d. sent d (ev # evs) @ later d) = (\<lambda>d. (if d = c then bs else []) @ sent d evs @ later d)"
      by (auto simp: Arrive)
    with Cons.prems have "standing S (\<lambda>d. (if d = c then bs else []) @ sent d evs @ later d) rs" by simp
    from arrive_step [OF this] obtain finished todo where
      a: "rs c = finished @ todo" "standing S1 (\<lambda>d. sent d evs @ later d) (rs(c := todo))"
        "sv_out S1 = (sv_out S)(c := sv_out S c @ replies finished T)"
        "table_abs (sv_pages S1) = fold apply_request finished T"
      unfolding S1_def T_def by blast
    from Cons.IH [OF a(2)] obtain log where
      l: "table_abs (sv_pages (serve evs S1)) = fold apply_request (map snd log) (table_abs (sv_pages S1))"
        "\<forall>d. sv_out (serve evs S1) d = sv_out S1 d @ replies_to d log (table_abs (sv_pages S1)) \<and>
           (\<exists>t. (rs(c := todo)) d = requests_of d log @ t \<and> (later d = [] \<longrightarrow> t = []))" by blast
    have m: "map (snd \<circ> Pair c) finished = finished" by (simp add: comp_def)
    have "sv_out (serve evs S1) d = sv_out S d @ replies_to d (map (Pair c) finished @ log) T \<and>
        (\<exists>t. rs d = requests_of d (map (Pair c) finished @ log) @ t \<and> (later d = [] \<longrightarrow> t = []))" for d
      using l(2) [THEN spec, of d] a(1,3,4)
      by (cases "d = c") (auto simp: replies_to_append replies_to_tag requests_of_tag m)
    then show ?thesis
      using l(1) a(4) by (intro exI [of _ "map (Pair c) finished @ log"]) (simp add: Arrive S1_def [symmetric] T_def m)
  next
    case (Hangup c)
    show ?thesis
    proof (cases "sv_end S c = Waiting")
      case False
      then have "run_thread True c [] S = S" by (simp add: run_thread_def)
      moreover have "standing S (\<lambda>d. sent d evs @ later d) rs"
      proof (rule standingI)
        show "table_ok (sv_pages S)" using Cons.prems by (simp add: standing_def)
        show "stands (sv_end S d) (sv_in S d) (sent d evs @ later d) (rs d)" for d
          using standingD [OF Cons.prems, of d] False by (cases "d = c") (simp_all add: Hangup stands_def)
      qed
      ultimately show ?thesis using Cons.IH [of S rs] by (simp add: Hangup)
    next
      case True
      from hangup_step [OF Cons.prems True] obtain e where
        e: "e \<noteq> Waiting" "run_thread True c [] S = S\<lparr>sv_end := (sv_end S)(c := e)\<rparr>" by blast
      define S1 where "S1 = S\<lparr>sv_end := (sv_end S)(c := e)\<rparr>"
      have "standing S1 (\<lambda>d. sent d evs @ later d) (rs(c := []))"
      proof (rule standingI)
        show "table_ok (sv_pages S1)" using Cons.prems by (simp add: standing_def S1_def)
        show "stands (sv_end S1 d) (sv_in S1 d) (sent d evs @ later d) ((rs(c := [])) d)" for d
          using standingD [OF Cons.prems, of d] e(1) by (cases "d = c") (simp_all add: Hangup S1_def stands_def)
      qed
      from Cons.IH [OF this] obtain log where
        l: "table_abs (sv_pages (serve evs S1)) = fold apply_request (map snd log) (table_abs (sv_pages S1))"
          "\<forall>d. sv_out (serve evs S1) d = sv_out S1 d @ replies_to d log (table_abs (sv_pages S1)) \<and>
             (\<exists>t. (rs(c := [])) d = requests_of d log @ t \<and> (later d = [] \<longrightarrow> t = []))" by blast
      have none: "rs c = []" if "later c = []"
        using standingD [OF Cons.prems, of c] that True by (auto simp: Hangup intro: stands_all)
      have "\<exists>t. rs d = requests_of d log @ t \<and> (later d = [] \<longrightarrow> t = [])" for d
        using l(2) [THEN spec, of d] none by (cases "d = c") auto
      then show ?thesis
        using l by (intro exI [of _ log]) (simp add: Hangup e(2) S1_def [symmetric], simp add: S1_def)
    qed
  qed
qed

section \<open>Properties\<close>

text \<open>
  Where each request is one step the server with any number of clients is linearisable: however the bytes of their requests are
  cut, delivered and interleaved, and even if connections are closed in the middle of a request,
  there is one order of whole requests, in which those of each client come in the order it sent
  them, such that the shared table and every reply are what a single map gives that is asked in
  this order.  No request that has arrived completely is missing.
\<close>

theorem clients_linearise:
  assumes "table_ok pages" and "\<forall>c. sent c evs @ later c = concat (map encode (rs c))"
  shows "\<exists>log. table_abs (sv_pages (serve evs (fresh_server pages))) = fold apply_request (map snd log) (table_abs pages) \<and>
    (\<forall>c. sv_out (serve evs (fresh_server pages)) c = replies_to c log (table_abs pages) \<and>
       (\<exists>todo. rs c = requests_of c log @ todo \<and> (later c = [] \<longrightarrow> todo = [])))"
proof -
  have "standing (fresh_server pages) (\<lambda>c. sent c evs @ later c) rs"
  proof (rule standingI)
    show "table_ok (sv_pages (fresh_server pages))" using assms(1) by (simp add: fresh_server_def)
    have "0 < length (encode r)" for r using encode_nonempty [of r] by linarith
    then show "stands (sv_end (fresh_server pages) c) (sv_in (fresh_server pages) c) (sent c evs @ later c) (rs c)" for c
      using assms(2) by (simp add: fresh_server_def stands_def del: length_greater_0_conv)
  qed
  from serve_log [OF this] show ?thesis by (simp add: fresh_server_def)
qed

text \<open>Two clients, each with a \<open>PUT\<close> to the same key, delivered one inside the other.\<close>

theorem clients_linearise_witness:
  "\<exists>log. requests_of 0 log = [Put 7 4096 (\<lambda>_. 5)] \<and> requests_of 1 log = [Put 7 4096 (\<lambda>_. 6)] \<and>
     table_abs (sv_pages (serve [Arrive 0 (take 20 (encode (Put 7 4096 (\<lambda>_. 5)))), Arrive 1 (encode (Put 7 4096 (\<lambda>_. 6))),
        Hangup 1, Arrive 0 (drop 20 (encode (Put 7 4096 (\<lambda>_. 5))))] (fresh_server Map.empty))) =
      fold apply_request (map snd log) Map.empty"
proof -
  let ?a = "encode (Put 7 4096 (\<lambda>_. 5))" and ?b = "encode (Put 7 4096 (\<lambda>_. 6))"
  let ?evs = "[Arrive 0 (take 20 ?a), Arrive 1 ?b, Hangup 1, Arrive 0 (drop 20 ?a)]"
  define rs where "rs = (\<lambda>c :: conn. if c = 0 then [Put 7 4096 (\<lambda>_. 5)] else if c = 1 then [Put 7 4096 (\<lambda>_. 6)] else [])"
  have "\<forall>c. sent c ?evs @ [] = concat (map encode (rs c))" by (simp add: rs_def del: encode.simps)
  from clients_linearise [OF table_empty(2) this] obtain log where
    "table_abs (sv_pages (serve ?evs (fresh_server Map.empty))) = fold apply_request (map snd log) Map.empty"
    and "\<And>c. rs c = requests_of c log" by auto
  from this(1) this(2) [of 0] this(2) [of 1] show ?thesis by (intro exI [of _ log]) (simp add: rs_def del: encode.simps serve_simps)
qed

text \<open>
  One table for all: when a second client unloads its module (\<open>RELEASE\<close>), the pages of the first are
  gone, and it reads zeroes.
\<close>

theorem release_clears_other_clients:
  assumes "table_ok pages"
  shows "sv_out (serve [Arrive 0 (encode (Put p a b)), Arrive 1 (encode Release), Arrive 0 (encode (Get p a))]
      (fresh_server pages)) 0 = page_bytes zero_page"
proof -
  obtain p1 where 1: "handle False pages (encode (Put p a b)) [] = (p1, [], [], Waiting)" "table_ok p1"
    using handle_request [OF assms, of False "Put p a b" "[]" "[]"] by auto
  have 2: "handle False p1 (encode Release) [] = (Map.empty, [], [], Waiting)"
    using handle_header [of False p1 "\<lparr>command = PROTOCOL_RELEASE, ph_pid = 0, ph_address = 0\<rparr>" "[]" "[]"] by simp
  obtain p3 where 3: "handle False Map.empty (encode (Get p a)) [] = (p3, [], page_bytes zero_page, Waiting)"
    using handle_request [OF table_empty(2), of False "Get p a" "[]" "[]"] by auto
  from 1(1) 2 3 show ?thesis by (simp add: run_thread_def fresh_server_def del: encode.simps)
qed

theorem release_clears_other_clients_witness:
  "sv_out (serve [Arrive 0 (encode (Put 7 4096 (\<lambda>_. 5))), Arrive 1 (encode Release), Arrive 0 (encode (Get 7 4096))]
      (fresh_server Map.empty)) 0 = replicate 4096 0"
  unfolding release_clears_other_clients [OF table_empty(2)] by (rule page_bytes_zero)

end
