(* ===== verification/Wire.thy ===== *)
theory Wire
  imports StorageSpec Clients
begin

text \<open>
  The two ends of the connection together: what the network storage sends is a sequence of the
  requests the server understands, as long as every message is sent whole; one that is not puts
  the stream out of step.
\<close>

section \<open>What the module sends\<close>

text \<open>
  A connection that takes every message whole; \<open>trace\<close> is what has been sent over it.
\<close>

definition carries :: "'w netenv \<Rightarrow> ('w \<Rightarrow> u8 list) \<Rightarrow> bool" where
  "carries N trace \<longleftrightarrow>
     (\<forall>bs w. \<exists>w'. sock_sendmsg N bs w = (int (length bs), w') \<and> trace w' = trace w @ bs) \<and>
     (\<forall>len w r bs w'. sock_recvmsg N len w = (r, bs, w') \<longrightarrow> trace w' = trace w) \<and>
     (\<forall>w. trace (sock_release N w) = trace w)"

text \<open>The calls of the storage while it is in use, and the request each of them stands for.\<close>

datatype storage_call = SaveCall pid_t u64 page | LoadCall pid_t u64 page | RemoveCall pid_t u64

fun do_call :: "'s storage_ops \<Rightarrow> storage_call \<Rightarrow> 's \<Rightarrow> kfault + 's" where
  "do_call ops (SaveCall p a b) s = kbind (so_save ops p a b s) (\<lambda>(n, s'). Inr s')"
| "do_call ops (LoadCall p a b) s = kbind (so_load ops p a b s) (\<lambda>(n, c, s'). Inr s')"
| "do_call ops (RemoveCall p a) s = so_remove ops p a s"

fun do_calls :: "'s storage_ops \<Rightarrow> storage_call list \<Rightarrow> 's \<Rightarrow> kfault + 's" where
  "do_calls ops [] s = Inr s"
| "do_calls ops (c # cs) s = kbind (do_call ops c s) (do_calls ops cs)"

fun request_of :: "storage_call \<Rightarrow> request" where
  "request_of (SaveCall p a b) = Put p a b"
| "request_of (LoadCall p a b) = Get p a"
| "request_of (RemoveCall p a) = Rm p a"

lemma carries_send:
  assumes "carries N trace" and "sock n = SockOpen"
  obtains n' where "socket_send N bs n = Inr (int (length bs), n')" "sock n' = SockOpen" "trace (world n') = trace (world n) @ bs"
proof -
  obtain w where "sock_sendmsg N bs (world n) = (int (length bs), w)" "trace w = trace (world n) @ bs"
    using assms(1) unfolding carries_def by blast
  with assms(2) that [of "n\<lparr>world := w\<rparr>"] show thesis by (simp add: socket_send_def)
qed

lemma carries_recv:
  assumes "carries N trace" and "sock n = SockOpen"
  obtains r bs n' where "socket_recv N len n = Inr (r, bs, n')" "sock n' = SockOpen" "trace (world n') = trace (world n)"
proof -
  obtain r bs w where w: "sock_recvmsg N len (world n) = (r, bs, w)" by (cases "sock_recvmsg N len (world n)")
  then have "trace w = trace (world n)" using assms(1) unfolding carries_def by blast
  with w assms(2) that [of r bs "n\<lparr>world := w\<rparr>"] show thesis by (simp add: socket_recv_def)
qed

lemma call_sends:
  assumes "carries N trace" and "sock n = SockOpen"
  shows "\<exists>n'. do_call (network_ops E N) c n = Inr n' \<and> sock n' = SockOpen \<and>
    trace (world n') = trace (world n) @ encode (request_of c)"
proof (cases c)
  case (SaveCall p a b)
  obtain n1 where n1: "socket_send N (header_bytes \<lparr>command = PROTOCOL_PUT, ph_pid = p, ph_address = a\<rparr>) n = Inr (16, n1)"
    "sock n1 = SockOpen" "trace (world n1) = trace (world n) @ header_bytes \<lparr>command = PROTOCOL_PUT, ph_pid = p, ph_address = a\<rparr>"
    using carries_send [OF assms] by (metis header_size_def length_header_bytes of_nat_numeral)
  obtain n2 where "socket_send N (page_bytes b) n1 = Inr (4096, n2)" "sock n2 = SockOpen"
    "trace (world n2) = trace (world n1) @ page_bytes b"
    using carries_send [OF assms(1) n1(2), of "page_bytes b"] by auto
  with n1 SaveCall show ?thesis by (simp add: network_ops_def network_save_def header_size_def)
next
  case (LoadCall p a b)
  obtain n1 where n1: "socket_send N (header_bytes \<lparr>command = PROTOCOL_GET, ph_pid = p, ph_address = a\<rparr>) n = Inr (16, n1)"
    "sock n1 = SockOpen" "trace (world n1) = trace (world n) @ header_bytes \<lparr>command = PROTOCOL_GET, ph_pid = p, ph_address = a\<rparr>"
    using carries_send [OF assms] by (metis header_size_def length_header_bytes of_nat_numeral)
  obtain r bs n2 where "socket_recv N 4096 n1 = Inr (r, bs, n2)" "sock n2 = SockOpen" "trace (world n2) = trace (world n1)"
    using carries_recv [OF assms(1) n1(2), of 4096] .
  with n1 LoadCall show ?thesis by (simp add: network_ops_def network_load_def header_size_def)
next
  case (RemoveCall p a)
  obtain n1 where "socket_send N (header_bytes \<lparr>command = PROTOCOL_RM, ph_pid = p, ph_address = a\<rparr>) n = Inr (16, n1)"
    "sock n1 = SockOpen" "trace (world n1) = trace (world n) @ header_bytes \<lparr>command = PROTOCOL_RM, ph_pid = p, ph_address = a\<rparr>"
    using carries_send [OF assms] by (metis header_size_def length_header_bytes of_nat_numeral)
  with RemoveCall show ?thesis by (simp add: network_ops_def network_remove_def)
qed

lemma calls_send:
  assumes "carries N trace" and "sock n = SockOpen"
  shows "\<exists>n'. do_calls (network_ops E N) cs n = Inr n' \<and> sock n' = SockOpen \<and>
    trace (world n') = trace (world n) @ concat (map (\<lambda>c. encode (request_of c)) cs)"
  using assms(2)
proof (induction cs arbitrary: n)
  case (Cons c cs)
  obtain n1 where "do_call (network_ops E N) c n = Inr n1" "sock n1 = SockOpen"
    "trace (world n1) = trace (world n) @ encode (request_of c)"
    using call_sends [OF assms(1) Cons.prems, of E c] by blast
  with Cons.IH [of n1] show ?case by auto
qed simp

text \<open>
  C23. The module speaks the protocol: whatever calls of the network storage it makes, and whatever
  comes back, what it has put on the wire is one well-formed request for each call, in order, and at
  the end \<open>RELEASE\<close>; so the server, fed with these bytes, consumes all of them, takes none for an
  unknown command, and does to its table what the calls mean.
\<close>

theorem module_speaks_protocol:
  assumes "carries N trace" and "sock n = SockOpen" and "trace (world n) = []" and "table_ok pages"
  shows "\<exists>n' n'' pages'. do_calls (network_ops E N) cs n = Inr n' \<and> so_release (network_ops E N) n' = Inr n'' \<and>
    trace (world n') = concat (map (\<lambda>c. encode (request_of c)) cs) \<and>
    trace (world n'') = concat (map (\<lambda>c. encode (request_of c)) cs) @ encode Release \<and>
    handle False pages (trace (world n')) [] = (pages', [], replies (map request_of cs) (table_abs pages), Waiting) \<and>
    table_abs pages' = fold apply_request (map request_of cs) (table_abs pages)"
proof -
  obtain n' where n': "do_calls (network_ops E N) cs n = Inr n'" "sock n' = SockOpen"
    "trace (world n') = concat (map (\<lambda>c. encode (request_of c)) cs)"
    using calls_send [OF assms(1,2), of E cs] assms(3) by auto
  obtain n1 where n1: "socket_send N (encode Release) n' = Inr (16, n1)" "sock n1 = SockOpen"
    "trace (world n1) = trace (world n') @ encode Release"
    using carries_send [OF assms(1) n'(2), of "encode Release"] by (auto simp: header_size_def)
  have "trace (sock_release N (world n1)) = trace (world n1)" using assms(1) by (simp add: carries_def)
  then have r: "so_release (network_ops E N) n' = Inr (n1\<lparr>sock := SockReleased, world := sock_release N (world n1)\<rparr>)"
    "trace (world (n1\<lparr>sock := SockReleased, world := sock_release N (world n1)\<rparr>)) = trace (world n') @ encode Release"
    using n1 by (simp_all add: network_ops_def network_release_def socket_release_def)
  obtain p where p: "handle False pages (trace (world n')) [] = (p, [], replies (map request_of cs) (table_abs pages), Waiting)"
    "table_abs p = fold apply_request (map request_of cs) (table_abs pages)"
    using handle_requests [OF assms(4), of False "map request_of cs" "[]" "[]"] by (auto simp: n'(3) comp_def)
  show ?thesis
    by (rule exI [of _ n'], rule exI [of _ "n1\<lparr>sock := SockReleased, world := sock_release N (world n1)\<rparr>"], rule exI [of _ p])
      (use n'(1,3) r p in \<open>simp del: encode.simps\<close>)
qed

text \<open>A connection that only records.\<close>

definition recorder :: "u8 list netenv" where
  "recorder = \<lparr>sock_create = (\<lambda>w. (0, w)), sock_connect = (\<lambda>port ip w. (0, w)),
     sock_sendmsg = (\<lambda>bs w. (int (length bs), w @ bs)), sock_recvmsg = (\<lambda>len w. (int len, replicate len 0, w)),
     sock_release = id, kstrtol = (\<lambda>s. (0, 0))\<rparr>"

theorem module_speaks_protocol_witness:
  "\<exists>n' n''. do_calls (network_ops linux_ref recorder) [SaveCall 7 4096 (\<lambda>_. 5), LoadCall 7 4096 zero_page, RemoveCall 7 4096]
       \<lparr>sock = SockOpen, world = []\<rparr> = Inr n' \<and> so_release (network_ops linux_ref recorder) n' = Inr n'' \<and>
     world n'' = encode (Put 7 4096 (\<lambda>_. 5)) @ encode (Get 7 4096) @ encode (Rm 7 4096) @ encode Release"
proof -
  have "carries recorder id" by (simp add: carries_def recorder_def)
  from module_speaks_protocol [OF this, of "\<lparr>sock = SockOpen, world = []\<rparr>" Map.empty linux_ref
      "[SaveCall 7 4096 (\<lambda>_. 5), LoadCall 7 4096 zero_page, RemoveCall 7 4096]"]
  show ?thesis by (auto simp del: encode.simps do_calls.simps)
qed

section \<open>A message that is cut\<close>

text \<open>
  A save whose page could not be sent after its header was, because a signal interrupted the
  sender, say, puts the stream out of step: the next save reports success, but its page is not
  stored; its header and the start of its page become the content of the first page.
\<close>

theorem interrupted_save_desyncs:
  fixes b0 b :: page
  assumes "sock n = SockOpen" and "srv_ok (world n)" and "(p, a) \<noteq> (q, c)" and "b0 \<noteq> b" and "\<forall>i\<ge>4080. b i = 0"
    and "\<And>w. sock_sendmsg N (page_bytes b0) w = (- 4, w)"
    and "\<And>bs w. bs \<noteq> page_bytes b0 \<Longrightarrow> sock_sendmsg N bs w = sock_sendmsg server_env bs w"
  shows "\<exists>n1 n2. network_save N p a b0 n = Inr (- 4, n1) \<and> network_save N q c b n1 = Inr (4096, n2) \<and>
    table_abs (s_pages (world n2)) (q, c) = table_abs (s_pages (world n)) (q, c) \<and>
    table_abs (s_pages (world n2)) (p, a) = Some (fill_page (take 4096 (encode (Put q c b))) zero_page)"
proof -
  let ?h = "\<lambda>p a. header_bytes \<lparr>command = PROTOCOL_PUT, ph_pid = p, ph_address = a\<rparr>"
  define P where "P = s_pages (world n)"
  define data where "data = take 4096 (encode (Put q c b))"
  define rest where "rest = drop 4096 (encode (Put q c b))"
  have w: "s_in (world n) = []" "s_out (world n) = []" using assms(2) by (simp_all add: srv_ok_def)
  have l: "length (?h p a) = 16" for p a by (simp add: header_size_def)
  have dl: "length data = 4096" by (simp add: data_def header_size_def)
  have b0: "page_bytes b \<noteq> page_bytes b0" using assms(4) by (metis fill_page_bytes)
  have h0: "?h p a \<noteq> page_bytes b0" for p a
  proof
    assume "?h p a = page_bytes b0"
    then have "length (?h p a) = length (page_bytes b0)" by (rule arg_cong)
    then show False by (simp add: header_size_def)
  qed
  have rest: "rest = replicate 16 0"
  proof (rule nth_equalityI)
    show len: "length rest = length (replicate 16 (0 :: u8))" by (simp add: rest_def header_size_def)
    fix i assume i: "i < length rest"
    then have i16: "i < 16" using len by simp
    then have "rest ! i = page_bytes b ! (4080 + i)" by (simp add: rest_def nth_append header_size_def)
    also have "\<dots> = b (word_of_nat (4080 + i))" using i16 by (simp add: page_bytes_def)
    also have "\<dots> = 0"
    proof -
      have "unat (word_of_nat (4080 + i) :: 12 word) = 4080 + i"
        using i16 by (simp only: unat_of_nat) simp
      then have "(4080 :: 12 word) \<le> word_of_nat (4080 + i)" by (simp add: word_le_nat_alt)
      then show ?thesis using assms(5) by blast
    qed
    finally show "rest ! i = replicate 16 0 ! i" using i16 by simp
  qed
  have zero: "unpack (replicate 16 0) = (0, 0, 0)" by (simp add: unpack_def numeral_eq_Suc)
  have s1: "sock_sendmsg N (?h p a) (world n) = (16, \<lparr>s_pages = P, s_in = ?h p a, s_out = []\<rparr>)"
    using assms(7) [OF h0] handle_header [of False P "\<lparr>command = PROTOCOL_PUT, ph_pid = p, ph_address = a\<rparr>" "[]" "[]"] w
    by (simp add: server_env_def P_def header_size_def)
  define n1 where "n1 = n\<lparr>world := \<lparr>s_pages = P, s_in = ?h p a, s_out = []\<rparr>\<rparr>"
  have save1: "network_save N p a b0 n = Inr (- 4, n1)"
    using assms(1,6) s1 by (simp add: network_save_def socket_send_def header_size_def n1_def)
  have s2: "sock_sendmsg N (?h q c) (world n1) = (16, \<lparr>s_pages = P, s_in = ?h p a @ ?h q c, s_out = []\<rparr>)"
    using assms(7) [OF h0] handle_header [of False P "\<lparr>command = PROTOCOL_PUT, ph_pid = p, ph_address = a\<rparr>" "?h q c" "[]"]
    by (simp add: server_env_def n1_def header_size_def)
  have split: "(?h p a @ ?h q c) @ page_bytes b = ?h p a @ data @ rest"
    unfolding data_def rest_def append_take_drop_id by simp
  have "handle False P (?h p a @ data @ rest) [] = handle False (put_page p a data P) rest []"
    using handle_header [of False P "\<lparr>command = PROTOCOL_PUT, ph_pid = p, ph_address = a\<rparr>" "data @ rest" "[]"] dl by simp
  also have "\<dots> = (put_page p a data P, [], [], Waiting)"
    by (subst handle.simps) (simp add: rest zero header_size_def)
  finally have s3: "sock_sendmsg N (page_bytes b) \<lparr>s_pages = P, s_in = ?h p a @ ?h q c, s_out = []\<rparr> =
      (4096, \<lparr>s_pages = put_page p a data P, s_in = [], s_out = []\<rparr>)"
    using assms(7) [OF b0] by (simp add: server_env_def split [unfolded append_assoc])
  define n2 where "n2 = n\<lparr>world := \<lparr>s_pages = put_page p a data P, s_in = [], s_out = []\<rparr>\<rparr>"
  have save2: "network_save N q c b n1 = Inr (4096, n2)"
    using assms(1) s2 s3 by (simp add: network_save_def socket_send_def header_size_def n1_def n2_def)
  have "page_bytes (fill_page data zero_page) = data" by (rule page_bytes_fill [OF dl])
  then have "table_abs (put_page p a data P) = (table_abs P)((p, a) \<mapsto> fill_page data zero_page)"
    using put_page_abs [of p a "fill_page data zero_page" P] by simp
  with save1 save2 assms(3) show ?thesis
    by (intro exI [of _ n1] exI [of _ n2]) (auto simp: n2_def P_def data_def simp del: encode.simps)
qed

text \<open>The example: pages of fives and of zeroes, and a connection on which fives are interrupted.\<close>

definition interrupted_env :: "srv netenv" where
  "interrupted_env = server_env\<lparr>sock_sendmsg := (\<lambda>bs w.
     if bs = page_bytes (\<lambda>_. 5) then (- 4, w) else sock_sendmsg server_env bs w)\<rparr>"

theorem interrupted_save_desyncs_witness:
  "\<exists>n1 n2. network_save interrupted_env 7 4096 (\<lambda>_. 5) fresh_net = Inr (- 4, n1) \<and>
     network_save interrupted_env 7 8192 zero_page n1 = Inr (4096, n2) \<and>
     table_abs (s_pages (world n2)) (7, 8192) = None"
proof -
  have "(\<lambda>_. 5) \<noteq> zero_page" by (auto simp: zero_page_def dest: fun_cong)
  moreover have "\<forall>i\<ge>4080. zero_page i = 0" by (simp add: zero_page_def)
  moreover have "sock_sendmsg interrupted_env (page_bytes (\<lambda>_. 5)) w = (- 4, w)" for w by (simp add: interrupted_env_def)
  moreover have "sock_sendmsg interrupted_env bs w = sock_sendmsg server_env bs w" if "bs \<noteq> page_bytes (\<lambda>_. 5)" for bs w
    using that by (simp add: interrupted_env_def)
  moreover have "(7 :: pid_t, 4096 :: u64) \<noteq> (7, 8192)" by simp
  moreover have "s_pages (world fresh_net) = Map.empty" by (simp add: fresh_net_def)
  ultimately show ?thesis
    using interrupted_save_desyncs [OF fresh_net_ok, of 7 4096 7 8192 "\<lambda>_. 5" zero_page interrupted_env] by auto
qed

end
