(* ===== verification/Locking.thy ===== *)
theory Locking
  imports ModuleProps
begin

text \<open>
  The semaphore of \<open>src/src/generic_malloc.c\<close>.  The fault handler and the two system calls are here
  broken up at the calls they make, with every \<open>up\<close> and every early return where the code has it, and
  the threads are interleaved between these points.  The other theories treat each operation as one
  step; this theory shows that the semaphore makes it one, as long as no wait is interrupted: the result
  of \<open>down_interruptible\<close> is not looked at.  The close handler takes no lock and is left out.  So is
  \<open>mmap_sem\<close>, which keeps threads of one process apart and allows fewer interleavings than there are here;
  the examples have threads of two processes.
\<close>

section \<open>The semaphore of the kernel\<close>

text \<open>\<open>down\<close> is \<open>None\<close> when the caller has to wait.\<close>

record 'l sem_api =
  sema_init :: "nat \<Rightarrow> 'l"
  sem_down :: "'l \<Rightarrow> 'l option"
  sem_up :: "'l \<Rightarrow> 'l"

text \<open>The operations, at the points where other threads may come in.\<close>

datatype malloc_point = MallocCreate u64 | MallocUnmap region_struct | MallocOut u64
datatype free_point = FreeUnmap u64 | FreeStorage u64 | FreeRegion u64 | FreeOut
datatype fault_point = FaultCheck vid u64 | FaultRefused | FaultPage vid u64 | FaultFailed | FaultMapped frame

datatype answer = RetAddress u64 | RetVoid | RetFault fault_result

datatype 'p control = Goto 'p | Return answer

fun malloc_body ::
  "'l sem_api \<Rightarrow> kenv \<Rightarrow> 's storage_ops \<Rightarrow> task \<Rightarrow> malloc_point \<Rightarrow> 'l \<Rightarrow> 's gstate
     \<Rightarrow> kfault + malloc_point control \<times> 'l \<times> 's gstate" where
  "malloc_body A E ops current (MallocCreate sz) sem st =
     kbind (create_region E (g_mm st) sz current (g_areas st) module_vm_ops) (\<lambda>(V, areas, region).
       let st1 = st\<lparr>g_mm := V, g_areas := areas\<rparr>
       in Inr (case region of None \<Rightarrow> Goto (MallocOut 0) | Some r \<Rightarrow> Goto (MallocUnmap r), sem, st1))"
| "malloc_body A E ops current (MallocUnmap region) sem st =
     kbind (unmap_page E ops (t_pid current) False st) (\<lambda>(error, st1).
       Inr (if error < 0 then Goto (MallocOut 0) else Goto (MallocOut (virtual_start region)), sem, st1))"
| "malloc_body A E ops current (MallocOut ptr) sem st = Inr (Return (RetAddress ptr), sem_up A sem, st)"

fun free_body ::
  "'l sem_api \<Rightarrow> kenv \<Rightarrow> 's storage_ops \<Rightarrow> task \<Rightarrow> free_point \<Rightarrow> 'l \<Rightarrow> 's gstate
     \<Rightarrow> kfault + free_point control \<times> 'l \<times> 's gstate" where
  "free_body A E ops current (FreeUnmap ptr) sem st =
     kbind (unmap_page E ops (t_pid current) False st) (\<lambda>(_, st1). Inr (Goto (FreeStorage ptr), sem, st1))"
| "free_body A E ops current (FreeStorage ptr) sem st =
     kbind (remove_storage_pages ops (t_pid current) ptr st) (\<lambda>st1. Inr (Goto (FreeRegion ptr), sem, st1))"
| "free_body A E ops current (FreeRegion ptr) sem st =
     kbind (remove_region (g_mm st) (t_pid current) ptr (g_areas st)) (\<lambda>(areas, empty).
       let st1 = st\<lparr>g_areas := areas\<rparr> in
       case empty of
         None \<Rightarrow> Inr (Goto FreeOut, sem, st1)
       | Some vma \<Rightarrow>
           kbind (remove_vma E (g_mm st1) (g_pt st1) vma) (\<lambda>(V, pt, closed).
           kbind (close_all ops closed (st1\<lparr>g_mm := V, g_pt := pt\<rparr>)) (\<lambda>st2. Inr (Goto FreeOut, sem, st2))))"
| "free_body A E ops current FreeOut sem st = Inr (Return RetVoid, sem_up A sem, st)"

fun fault_body ::
  "'l sem_api \<Rightarrow> kenv \<Rightarrow> 's storage_ops \<Rightarrow> task \<Rightarrow> fault_point \<Rightarrow> 'l \<Rightarrow> 's gstate
     \<Rightarrow> kfault + fault_point control \<times> 'l \<times> 's gstate" where
  "fault_body A E ops current (FaultCheck vma address) sem st =
     Inr (if \<not> is_valid_address address vma (g_areas st) then Goto FaultRefused else Goto (FaultPage vma address), sem, st)"
| "fault_body A E ops current FaultRefused sem st = Inr (Return (RetFault VM_FAULT_SIGBUS), sem_up A sem, st)"
| "fault_body A E ops current (FaultPage vma address) sem st =
     kbind (generic_malloc_get_page E ops (t_pid current) address vma st) (\<lambda>(page, st1).
       Inr (case page of None \<Rightarrow> Goto FaultFailed | Some f \<Rightarrow> Goto (FaultMapped f), sem, st1))"
| "fault_body A E ops current FaultFailed sem st = Inr (Return (RetFault VM_FAULT_SIGBUS), sem_up A sem, st)"
| "fault_body A E ops current (FaultMapped f) sem st = Inr (Return (RetFault (FaultDone f)), sem_up A sem, st)"

section \<open>Threads\<close>

datatype call = CMalloc u64 | CFree u64 | CFault vid u64

datatype point = AtMalloc malloc_point | AtFree free_point | AtFault fault_point

text \<open>Where a call is when it has passed \<open>down_interruptible\<close>, and one step from there.\<close>

fun entry :: "call \<Rightarrow> point" where
  "entry (CMalloc sz) = AtMalloc (MallocCreate sz)"
| "entry (CFree ptr) = AtFree (FreeUnmap ptr)"
| "entry (CFault vma address) = AtFault (FaultCheck vma address)"

definition tag_control :: "('p \<Rightarrow> point) \<Rightarrow> kfault + 'p control \<times> 'l \<times> 's gstate \<Rightarrow> kfault + point control \<times> 'l \<times> 's gstate" where
  "tag_control f x = kbind x (\<lambda>(c, sem, st). Inr (map_control f c, sem, st))"

fun body ::
  "'l sem_api \<Rightarrow> kenv \<Rightarrow> 's storage_ops \<Rightarrow> task \<Rightarrow> point \<Rightarrow> 'l \<Rightarrow> 's gstate \<Rightarrow> kfault + point control \<times> 'l \<times> 's gstate" where
  "body A E ops current (AtMalloc p) sem st = tag_control AtMalloc (malloc_body A E ops current p sem st)"
| "body A E ops current (AtFree p) sem st = tag_control AtFree (free_body A E ops current p sem st)"
| "body A E ops current (AtFault p) sem st = tag_control AtFault (fault_body A E ops current p sem st)"

text \<open>
  A thread is outside of the three operations, at \<open>down_interruptible\<close>, inside, or it has died inside.
  Each call finds a kernel \<open>E\<close> of its own.  \<open>sys_log\<close> and \<open>sys_intr\<close> only record what has happened: the
  calls that have returned, with their answers, and the number of waits that a signal has ended.
\<close>

datatype location = Outside | AtDown kenv call | Inside kenv call point | Dead kenv call kfault

record ('t, 'l, 's) system =
  sys_sem :: 'l
  sys_loc :: "'t \<Rightarrow> location"
  sys_st :: "'s gstate"
  sys_log :: "('t \<times> kenv \<times> call \<times> answer) list"
  sys_intr :: nat

text \<open>\<open>sema_init(&sem, 1)\<close>\<close>

definition boot :: "'l sem_api \<Rightarrow> 's gstate \<Rightarrow> ('t, 'l, 's) system" where
  "boot A st = \<lparr>sys_sem = sema_init A 1, sys_loc = (\<lambda>_. Outside), sys_st = st, sys_log = [], sys_intr = 0\<rparr>"

text \<open>
  A thread that would have to wait can be woken by a signal, if there are any: \<open>down_interruptible\<close>
  answers \<open>-EINTR\<close> without having taken the semaphore, and the operation goes on all the same.
\<close>

inductive sys_step ::
  "'l sem_api \<Rightarrow> 's storage_ops \<Rightarrow> ('t \<Rightarrow> task) \<Rightarrow> bool \<Rightarrow> ('t, 'l, 's) system \<Rightarrow> ('t, 'l, 's) system \<Rightarrow> bool"
  for A ops cur signals where
  Call: "sys_loc S t = Outside \<Longrightarrow> sys_step A ops cur signals S (S\<lparr>sys_loc := (sys_loc S)(t := AtDown E c)\<rparr>)"
| Down: "sys_loc S t = AtDown E c \<Longrightarrow> sem_down A (sys_sem S) = Some l \<Longrightarrow>
    sys_step A ops cur signals S (S\<lparr>sys_sem := l, sys_loc := (sys_loc S)(t := Inside E c (entry c))\<rparr>)"
| Interrupted: "signals \<Longrightarrow> sys_loc S t = AtDown E c \<Longrightarrow> sem_down A (sys_sem S) = None \<Longrightarrow>
    sys_step A ops cur signals S
      (S\<lparr>sys_loc := (sys_loc S)(t := Inside E c (entry c)), sys_intr := Suc (sys_intr S)\<rparr>)"
| Go: "sys_loc S t = Inside E c p \<Longrightarrow> body A E ops (cur t) p (sys_sem S) (sys_st S) = Inr (Goto p', l, st) \<Longrightarrow>
    sys_step A ops cur signals S (S\<lparr>sys_sem := l, sys_loc := (sys_loc S)(t := Inside E c p'), sys_st := st\<rparr>)"
| Leave: "sys_loc S t = Inside E c p \<Longrightarrow> body A E ops (cur t) p (sys_sem S) (sys_st S) = Inr (Return r, l, st) \<Longrightarrow>
    sys_step A ops cur signals S
      (S\<lparr>sys_sem := l, sys_loc := (sys_loc S)(t := Outside), sys_st := st, sys_log := sys_log S @ [(t, E, c, r)]\<rparr>)"
| Oops: "sys_loc S t = Inside E c p \<Longrightarrow> body A E ops (cur t) p (sys_sem S) (sys_st S) = Inl e \<Longrightarrow>
    sys_step A ops cur signals S (S\<lparr>sys_loc := (sys_loc S)(t := Dead E c e)\<rparr>)"

inductive_cases sys_stepE: "sys_step A ops cur signals S S'"

section \<open>The operations in one piece\<close>

text \<open>The call as the other theories have it, and what is left of it at a point inside.\<close>

fun operation :: "kenv \<Rightarrow> 's storage_ops \<Rightarrow> task \<Rightarrow> call \<Rightarrow> 's gstate \<Rightarrow> kfault + answer \<times> 's gstate" where
  "operation E ops current (CMalloc sz) st =
     kbind (generic_malloc E ops current sz st) (\<lambda>(ptr, st'). Inr (RetAddress ptr, st'))"
| "operation E ops current (CFree ptr) st = kbind (generic_free E ops current ptr st) (\<lambda>st'. Inr (RetVoid, st'))"
| "operation E ops current (CFault vma address) st =
     kbind (generic_malloc_vm_fault E ops current vma address st) (\<lambda>(res, st'). Inr (RetFault res, st'))"

definition remaining_region :: "kenv \<Rightarrow> 's storage_ops \<Rightarrow> task \<Rightarrow> u64 \<Rightarrow> 's gstate \<Rightarrow> kfault + answer \<times> 's gstate" where
  "remaining_region E ops current ptr st =
     kbind (remove_region (g_mm st) (t_pid current) ptr (g_areas st)) (\<lambda>(areas, empty).
       let st1 = st\<lparr>g_areas := areas\<rparr> in
       case empty of
         None \<Rightarrow> Inr (RetVoid, st1)
       | Some vma \<Rightarrow>
           kbind (remove_vma E (g_mm st1) (g_pt st1) vma) (\<lambda>(V, pt, closed).
           kbind (close_all ops closed (st1\<lparr>g_mm := V, g_pt := pt\<rparr>)) (\<lambda>st2. Inr (RetVoid, st2))))"

fun remaining :: "kenv \<Rightarrow> 's storage_ops \<Rightarrow> task \<Rightarrow> point \<Rightarrow> 's gstate \<Rightarrow> kfault + answer \<times> 's gstate" where
  "remaining E ops current (AtMalloc (MallocCreate sz)) st = operation E ops current (CMalloc sz) st"
| "remaining E ops current (AtMalloc (MallocUnmap r)) st =
     kbind (unmap_page E ops (t_pid current) False st) (\<lambda>(error, st1).
       Inr (RetAddress (if error < 0 then 0 else virtual_start r), st1))"
| "remaining E ops current (AtMalloc (MallocOut ptr)) st = Inr (RetAddress ptr, st)"
| "remaining E ops current (AtFree (FreeUnmap ptr)) st = operation E ops current (CFree ptr) st"
| "remaining E ops current (AtFree (FreeStorage ptr)) st =
     kbind (remove_storage_pages ops (t_pid current) ptr st) (remaining_region E ops current ptr)"
| "remaining E ops current (AtFree (FreeRegion ptr)) st = remaining_region E ops current ptr st"
| "remaining E ops current (AtFree FreeOut) st = Inr (RetVoid, st)"
| "remaining E ops current (AtFault (FaultCheck vma address)) st = operation E ops current (CFault vma address) st"
| "remaining E ops current (AtFault FaultRefused) st = Inr (RetFault VM_FAULT_SIGBUS, st)"
| "remaining E ops current (AtFault (FaultPage vma address)) st =
     kbind (generic_malloc_get_page E ops (t_pid current) address vma st) (\<lambda>(page, st1).
       Inr (RetFault (case page of None \<Rightarrow> VM_FAULT_SIGBUS | Some f \<Rightarrow> FaultDone f), st1))"
| "remaining E ops current (AtFault FaultFailed) st = Inr (RetFault VM_FAULT_SIGBUS, st)"
| "remaining E ops current (AtFault (FaultMapped f)) st = Inr (RetFault (FaultDone f), st)"

lemma remaining_entry: "remaining E ops current (entry c) st = operation E ops current c st"
  by (cases c) simp_all

text \<open>A step inside takes a piece off what remains; only leaving touches the semaphore, and it always does.\<close>

definition body_ok ::
  "'l sem_api \<Rightarrow> 'l \<Rightarrow> kfault + answer \<times> 's gstate \<Rightarrow> (point \<Rightarrow> 's gstate \<Rightarrow> kfault + answer \<times> 's gstate)
     \<Rightarrow> kfault + point control \<times> 'l \<times> 's gstate \<Rightarrow> bool" where
  "body_ok A sem now later x \<longleftrightarrow>
     (case x of
        Inl e \<Rightarrow> now = Inl e
      | Inr (Goto p, l, st) \<Rightarrow> l = sem \<and> now = later p st
      | Inr (Return r, l, st) \<Rightarrow> l = sem_up A sem \<and> now = Inr (r, st))"

lemma malloc_body_ok:
  "body_ok A sem (remaining E ops current (AtMalloc p) st) (remaining E ops current) (body A E ops current (AtMalloc p) sem st)"
  by (cases p)
    (auto simp: body_ok_def tag_control_def kbind_def generic_malloc_def Let_def
      split: sum.splits prod.splits option.splits)

lemma free_body_ok:
  "body_ok A sem (remaining E ops current (AtFree p) st) (remaining E ops current) (body A E ops current (AtFree p) sem st)"
  by (cases p)
    (auto simp: body_ok_def tag_control_def kbind_def generic_free_def remaining_region_def Let_def
      split: sum.splits prod.splits option.splits)

lemma fault_body_ok:
  "body_ok A sem (remaining E ops current (AtFault p) st) (remaining E ops current) (body A E ops current (AtFault p) sem st)"
  by (cases p)
    (auto simp: body_ok_def tag_control_def kbind_def generic_malloc_vm_fault_def Let_def
      split: sum.splits prod.splits option.splits)

lemma body_ok: "body_ok A sem (remaining E ops current p st) (remaining E ops current) (body A E ops current p sem st)"
  by (cases p) (simp_all only: malloc_body_ok free_body_ok fault_body_ok)

lemma body_Goto:
  "body A E ops current p sem st = Inr (Goto p', l, st') \<Longrightarrow>
     l = sem \<and> remaining E ops current p st = remaining E ops current p' st'"
  using body_ok [of A sem E ops current p st] by (simp add: body_ok_def)

lemma body_Return:
  "body A E ops current p sem st = Inr (Return r, l, st') \<Longrightarrow>
     l = sem_up A sem \<and> remaining E ops current p st = Inr (r, st')"
  using body_ok [of A sem E ops current p st] by (simp add: body_ok_def)

lemma body_Inl: "body A E ops current p sem st = Inl e \<Longrightarrow> remaining E ops current p st = Inl e"
  using body_ok [of A sem E ops current p st] by (simp add: body_ok_def)

section \<open>Counting\<close>

text \<open>What the kernel documents of its semaphores: they hold a number, and \<open>down\<close> waits at 0.\<close>

locale counting_sem =
  fixes A :: "'l sem_api" and cnt :: "'l \<Rightarrow> nat"
  assumes cnt_init: "cnt (sema_init A n) = n"
    and cnt_wait: "sem_down A l = None \<longleftrightarrow> cnt l = 0"
    and cnt_down: "sem_down A l = Some l' \<Longrightarrow> cnt l = Suc (cnt l')"
    and cnt_up: "cnt (sem_up A l) = Suc (cnt l)"

text \<open>The threads that have passed \<open>down_interruptible\<close> and not yet \<open>up\<close>; those that died in between stay there.\<close>

definition is_inside :: "location \<Rightarrow> bool" where
  "is_inside x \<longleftrightarrow> (case x of Outside \<Rightarrow> False | AtDown E c \<Rightarrow> False | Inside E c p \<Rightarrow> True | Dead E c e \<Rightarrow> True)"

lemma is_inside_simps [simp]:
  "\<not> is_inside Outside" "\<not> is_inside (AtDown E c)" "is_inside (Inside E c p)" "is_inside (Dead E c e)"
  by (simp_all add: is_inside_def)

definition inside_of :: "('t \<Rightarrow> location) \<Rightarrow> 't set" where
  "inside_of loc = {t. is_inside (loc t)}"

abbreviation inside :: "('t, 'l, 's) system \<Rightarrow> 't set" where
  "inside S \<equiv> inside_of (sys_loc S)"

definition counted :: "('l \<Rightarrow> nat) \<Rightarrow> ('t, 'l, 's) system \<Rightarrow> bool" where
  "counted cnt S \<longleftrightarrow> finite (inside S) \<and> cnt (sys_sem S) + card (inside S) = Suc (sys_intr S)"

lemma inside_upd: "inside_of (loc(t := x)) = (if is_inside x then insert t (inside_of loc) else inside_of loc - {t})"
  by (auto simp: inside_of_def)

lemma inside_mem: "t \<in> inside_of loc \<longleftrightarrow> is_inside (loc t)"
  by (simp add: inside_of_def)

lemma inside_changes:
  "is_inside (loc t) \<Longrightarrow> is_inside x \<Longrightarrow> inside_of (loc(t := x)) = inside_of loc"
  "\<not> is_inside (loc t) \<Longrightarrow> \<not> is_inside x \<Longrightarrow> inside_of (loc(t := x)) = inside_of loc"
  by (auto simp: inside_upd inside_mem)

text \<open>What the calls that have returned have done, one after the other.\<close>

fun replays ::
  "'s storage_ops \<Rightarrow> ('t \<Rightarrow> task) \<Rightarrow> ('t \<times> kenv \<times> call \<times> answer) list \<Rightarrow> 's gstate \<Rightarrow> 's gstate \<Rightarrow> bool" where
  "replays ops cur [] st st' \<longleftrightarrow> st' = st"
| "replays ops cur ((t, E, c, r) # log) st st' \<longleftrightarrow>
     (case operation E ops (cur t) c st of Inl e \<Rightarrow> False | Inr (r1, st1) \<Rightarrow> r1 = r \<and> replays ops cur log st1 st')"

lemma replays_snoc:
  "replays ops cur (log @ [(t, E, c, r)]) st st' \<longleftrightarrow>
     (\<exists>st1. replays ops cur log st st1 \<and> operation E ops (cur t) c st1 = Inr (r, st'))"
  by (induction ops cur log st st' rule: replays.induct) (auto split: sum.splits)

text \<open>
  \<open>st\<close> is the state as the calls that have returned left it: a thread inside has still to do what is
  left of its call at \<open>st\<close>, and when nobody is inside \<open>st\<close> is the state of the module.
\<close>

definition serial :: "'s storage_ops \<Rightarrow> ('t \<Rightarrow> task) \<Rightarrow> 's gstate \<Rightarrow> ('t, 'l, 's) system \<Rightarrow> 's gstate \<Rightarrow> bool" where
  "serial ops cur st0 S st \<longleftrightarrow> replays ops cur (sys_log S) st0 st \<and>
     (\<forall>t E c p. sys_loc S t = Inside E c p \<longrightarrow> remaining E ops (cur t) p (sys_st S) = operation E ops (cur t) c st) \<and>
     (\<forall>t E c e. sys_loc S t = Dead E c e \<longrightarrow> operation E ops (cur t) c st = Inl e) \<and>
     (inside S = {} \<longrightarrow> sys_st S = st)"

lemma serial_none:
  assumes "inside S = {}"
  shows "serial ops cur st0 S st \<longleftrightarrow> replays ops cur (sys_log S) st0 st \<and> sys_st S = st"
proof -
  have "sys_loc S u \<noteq> Inside E c p" "sys_loc S u \<noteq> Dead E c e" for u E c p e
    using assms inside_mem [of u "sys_loc S"] by auto
  with assms show ?thesis by (simp add: serial_def)
qed

lemma serial_one:
  assumes "inside S = {t}"
  shows "serial ops cur st0 S st \<longleftrightarrow> replays ops cur (sys_log S) st0 st \<and>
    (\<forall>E c p. sys_loc S t = Inside E c p \<longrightarrow> remaining E ops (cur t) p (sys_st S) = operation E ops (cur t) c st) \<and>
    (\<forall>E c e. sys_loc S t = Dead E c e \<longrightarrow> operation E ops (cur t) c st = Inl e)"
proof -
  have "u = t" if "sys_loc S u = Inside E c p \<or> sys_loc S u = Dead E c e" for u E c p e
  proof -
    from that have "is_inside (sys_loc S u)" by (elim disjE) simp_all
    then have "u \<in> inside S" by (simp only: inside_mem)
    with assms show ?thesis by simp
  qed
  then have i: "(\<forall>u E c p. sys_loc S u = Inside E c p \<longrightarrow> P u E c p) = (\<forall>E c p. sys_loc S t = Inside E c p \<longrightarrow> P t E c p)"
    and d: "(\<forall>u E c e. sys_loc S u = Dead E c e \<longrightarrow> Q u E c e) = (\<forall>E c e. sys_loc S t = Dead E c e \<longrightarrow> Q t E c e)"
    for P and Q by metis+
  show ?thesis unfolding serial_def i d using assms by simp
qed

context counting_sem
begin

lemma step_counted:
  assumes "sys_step A ops cur signals S S'" and inv: "counted cnt S"
  shows "counted cnt S'"
  using assms(1)
proof (cases rule: sys_stepE [consumes 1, case_names Call Down Interrupted Go Leave Oops])
  case (Call t E c)
  then show ?thesis using inv by (simp add: counted_def inside_changes)
next
  case (Down t E c l)
  then have "t \<notin> inside S" by (simp add: inside_mem)
  then show ?thesis using inv Down cnt_down [OF Down(3)] by (simp add: counted_def inside_upd)
next
  case (Interrupted t E c)
  then have "t \<notin> inside S" by (simp add: inside_mem)
  then show ?thesis using inv Interrupted by (simp add: counted_def inside_upd)
next
  case (Go t E c p p' l st)
  then show ?thesis using inv body_Goto [OF Go(3)] by (simp add: counted_def inside_changes)
next
  case (Leave t E c p r l st)
  then have t: "t \<in> inside S" by (simp add: inside_mem)
  then have "0 < card (inside S)" using inv by (auto simp: counted_def card_gt_0_iff)
  then show ?thesis using inv Leave t body_Return [OF Leave(3)] cnt_up
    by (simp add: counted_def inside_upd card_Diff_singleton)
next
  case (Oops t E c p e)
  then show ?thesis using inv by (simp add: counted_def inside_changes)
qed

lemma boot_counted: "counted cnt (boot A st0)"
  by (simp add: counted_def boot_def inside_of_def cnt_init)

lemma steps_counted: "(sys_step A ops cur signals)\<^sup>*\<^sup>* S S' \<Longrightarrow> counted cnt S \<Longrightarrow> counted cnt S'"
  by (induction rule: rtranclp_induct) (auto intro: step_counted)

lemma only_one:
  assumes "counted cnt S" and "sys_intr S = 0" and "t \<in> inside S"
  shows "inside S = {t}" and "cnt (sys_sem S) = 0"
proof -
  have c: "card (inside S) \<le> 1" "finite (inside S)" using assms by (simp_all add: counted_def)
  then show e: "inside S = {t}" using assms(3) by (metis One_nat_def card_le_Suc0_iff_eq empty_iff insert_iff set_eq_iff)
  show "cnt (sys_sem S) = 0" using assms(1,2) by (simp add: counted_def e)
qed

lemma step_serial:
  assumes step: "sys_step A ops cur False S S'" and count: "counted cnt S" and quiet: "sys_intr S = 0"
    and ser: "serial ops cur st0 S st"
  shows "sys_intr S' = 0 \<and> (\<exists>st'. serial ops cur st0 S' st')"
  using step
proof (cases rule: sys_stepE [consumes 1, case_names Call Down Interrupted Go Leave Oops])
  case (Call t E c)
  have "serial ops cur st0 S' st"
    using ser unfolding serial_def Call by (simp add: Call(2) inside_changes)
  with Call quiet show ?thesis by auto
next
  case (Down t E c l)
  have none: "inside S = {}"
    using cnt_down [OF Down(3)] only_one(2) [OF count quiet] by fastforce
  then have one: "inside S' = {t}" by (simp add: Down inside_upd)
  have "serial ops cur st0 S' st"
    unfolding serial_one [OF one] using ser [unfolded serial_none [OF none]] by (simp add: Down(1) remaining_entry)
  with Down quiet show ?thesis by auto
next
  case (Interrupted t E c)
  then show ?thesis by simp
next
  case (Go t E c p p' l st1)
  have one: "inside S = {t}" by (rule only_one(1) [OF count quiet]) (simp add: inside_mem Go)
  then have one': "inside S' = {t}" by (simp add: Go inside_upd)
  have "remaining E ops (cur t) p (sys_st S) = operation E ops (cur t) c st"
    using ser [unfolded serial_one [OF one]] Go(2) by blast
  then have "serial ops cur st0 S' st"
    unfolding serial_one [OF one'] using ser [unfolded serial_one [OF one]] body_Goto [OF Go(3)] by (simp add: Go(1))
  with Go quiet show ?thesis by auto
next
  case (Leave t E c p r l st1)
  have one: "inside S = {t}" by (rule only_one(1) [OF count quiet]) (simp add: inside_mem Leave)
  then have none: "inside S' = {}" by (simp add: Leave inside_upd)
  have "operation E ops (cur t) c st = Inr (r, st1)"
    using ser [unfolded serial_one [OF one]] Leave(2) body_Return [OF Leave(3)] by metis
  then have "serial ops cur st0 S' st1"
    unfolding serial_none [OF none] using ser [unfolded serial_one [OF one]] by (auto simp: Leave(1) replays_snoc)
  with Leave quiet show ?thesis by auto
next
  case (Oops t E c p e)
  have one: "inside S = {t}" by (rule only_one(1) [OF count quiet]) (simp add: inside_mem Oops)
  then have one': "inside S' = {t}" by (simp add: Oops inside_upd)
  have "operation E ops (cur t) c st = Inl e"
    using ser [unfolded serial_one [OF one]] Oops(2) body_Inl [OF Oops(3)] by metis
  then have "serial ops cur st0 S' st"
    unfolding serial_one [OF one'] using ser [unfolded serial_one [OF one]] by (simp add: Oops(1))
  with Oops quiet show ?thesis by auto
qed

lemma reachable_serial:
  assumes "(sys_step A ops cur False)\<^sup>*\<^sup>* (boot A st0) S"
  shows "sys_intr S = 0 \<and> (\<exists>st. serial ops cur st0 S st)"
  using assms
proof (induction rule: rtranclp_induct)
  case base
  show ?case by (auto simp: serial_def boot_def)
next
  case (step S S')
  then show ?case using step_serial [OF step(2) steps_counted [OF step(1) boot_counted]] by blast
qed

end

context counting_sem
begin

lemma intr_mono: "(sys_step A ops cur signals)\<^sup>*\<^sup>* S S' \<Longrightarrow> sys_intr S \<le> sys_intr S'"
proof (induction rule: rtranclp_induct)
  case (step S1 S2)
  from step(2) have "sys_intr S1 \<le> sys_intr S2"
    by (cases rule: sys_stepE [consumes 1, case_names Call Down Interrupted Go Leave Oops]) simp_all
  with step(3) show ?case by simp
qed simp

lemma serialise:
  assumes "(sys_step A ops cur False)\<^sup>*\<^sup>* (boot A st0) S"
  shows "(\<forall>t u. is_inside (sys_loc S t) \<longrightarrow> is_inside (sys_loc S u) \<longrightarrow> t = u) \<and>
    (\<exists>st. serial ops cur st0 S st) \<and> (inside S = {} \<longrightarrow> cnt (sys_sem S) = 1)"
proof -
  note c = steps_counted [OF assms boot_counted] and r = reachable_serial [OF assms]
  have "t = u" if "is_inside (sys_loc S t)" "is_inside (sys_loc S u)" for t u
    using only_one(1) [OF c conjunct1 [OF r], of t] that by (auto simp: inside_of_def)
  moreover have "cnt (sys_sem S) = 1" if "inside S = {}" using c r that by (simp add: counted_def)
  ultimately show ?thesis using r by blast
qed

lemma interrupt:
  assumes "(sys_step A ops cur True)\<^sup>*\<^sup>* (boot A st0) S" and "is_inside (sys_loc S t)"
    and "sys_loc S u = AtDown E c" and "cnt (sys_sem S) = 0"
  shows "\<exists>S1. sys_step A ops cur True S S1 \<and> is_inside (sys_loc S1 t) \<and> is_inside (sys_loc S1 u) \<and>
    (\<forall>S2. (sys_step A ops cur True)\<^sup>*\<^sup>* S1 S2 \<longrightarrow> 2 \<le> cnt (sys_sem S2) + card (inside S2))"
proof -
  define S1 where "S1 = S\<lparr>sys_loc := (sys_loc S)(u := Inside E c (entry c)), sys_intr := Suc (sys_intr S)\<rparr>"
  have step: "sys_step A ops cur True S S1"
    unfolding S1_def by (rule sys_step.Interrupted) (simp_all add: assms(3,4) cnt_wait)
  have "t \<noteq> u" using assms(2,3) by auto
  then have in1: "is_inside (sys_loc S1 t)" "is_inside (sys_loc S1 u)" using assms(2) by (simp_all add: S1_def)
  have "2 \<le> cnt (sys_sem S2) + card (inside S2)" if "(sys_step A ops cur True)\<^sup>*\<^sup>* S1 S2" for S2
  proof -
    have "counted cnt S1" by (rule step_counted [OF step steps_counted [OF assms(1) boot_counted]])
    from steps_counted [OF that this] intr_mono [OF that] show ?thesis by (simp add: counted_def S1_def)
  qed
  with step in1 show ?thesis by blast
qed

end

text \<open>A semaphore that is just its number.\<close>

definition number_sem :: "nat sem_api" where
  "number_sem = \<lparr>sema_init = (\<lambda>n. n), sem_down = (\<lambda>n. if n = 0 then None else Some (n - 1)), sem_up = Suc\<rparr>"

interpretation number: counting_sem number_sem "\<lambda>n. n"
  by unfold_locales (auto simp: number_sem_def split: if_splits)

section \<open>Properties\<close>

text \<open>
  C27. The semaphore turns the operations into atomic ones.  Any number of threads run the fault handler and the
  two system calls, interleaved at all the points where these call another function; the kernel behaves
  differently at each call, and threads may die.  As long as no wait is interrupted, at most one thread is
  inside, and the state is what the calls that have returned produce one after the other, in the order
  of their returns and with the answers they gave; a thread inside is on its way to what its call does in one
  piece from there.  On every path, early returns included, the semaphore is given back: when nobody
  is inside it is 1 again.
\<close>

theorem calls_serialise:
  assumes "counting_sem A cnt" and "(sys_step A ops cur False)\<^sup>*\<^sup>* (boot A st0) S"
  shows "(\<forall>t u. is_inside (sys_loc S t) \<longrightarrow> is_inside (sys_loc S u) \<longrightarrow> t = u) \<and>
    (\<exists>st. replays ops cur (sys_log S) st0 st \<and>
      (\<forall>t E c p. sys_loc S t = Inside E c p \<longrightarrow> remaining E ops (cur t) p (sys_st S) = operation E ops (cur t) c st) \<and>
      (inside S = {} \<longrightarrow> sys_st S = st)) \<and>
    (inside S = {} \<longrightarrow> cnt (sys_sem S) = 1)"
  using counting_sem.serialise [OF assms] unfolding serial_def by blast

text \<open>
  Two processes.  Thread 0 faults at an address that is not allocated and is refused, while thread 1 arrives.
\<close>

definition two_tasks :: "nat \<Rightarrow> task" where
  "two_tasks t = (if t = 0 then demo_cur else \<lparr>t_pid = 8, t_mm = 8\<rparr>)"

lemma two_tasks_0 [simp]: "two_tasks 0 = demo_cur"
  by (simp add: two_tasks_def)

definition one_refused :: "(nat, nat, srv net) system" where
  "one_refused = \<lparr>sys_sem = 1, sys_loc = (\<lambda>_. Outside)(1 := AtDown linux_ref (CMalloc 100)), sys_st = start,
     sys_log = [(0, linux_ref, CFault 0 4096, RetFault VM_FAULT_SIGBUS)], sys_intr = 0\<rparr>"

definition one_inside :: "point \<Rightarrow> (nat, nat, srv net) system" where
  "one_inside p = \<lparr>sys_sem = 0,
     sys_loc = (\<lambda>_. Outside)(1 := AtDown linux_ref (CMalloc 100), 0 := Inside linux_ref (CFault 0 4096) p),
     sys_st = start, sys_log = [], sys_intr = 0\<rparr>"

lemma one_inside_reachable:
  "(sys_step number_sem net_ops two_tasks signals)\<^sup>*\<^sup>* (boot number_sem start) (one_inside (AtFault (FaultCheck 0 4096)))"
proof -
  let ?step = "sys_step number_sem net_ops two_tasks signals"
  let ?c = "CFault 0 4096"
  define Sa where "Sa = (boot number_sem start :: (nat, nat, srv net) system)
    \<lparr>sys_loc := (\<lambda>_. Outside)(0 := AtDown linux_ref ?c)\<rparr>"
  define Sb where "Sb = Sa\<lparr>sys_sem := 0, sys_loc := (sys_loc Sa)(0 := Inside linux_ref ?c (entry ?c))\<rparr>"
  have a: "?step (boot number_sem start) Sa"
    using sys_step.Call [of "boot number_sem start" "0 :: nat" number_sem net_ops two_tasks signals linux_ref ?c]
    by (simp add: Sa_def boot_def)
  have b: "?step Sa Sb"
    unfolding Sb_def by (rule sys_step.Down) (simp_all add: Sa_def boot_def number_sem_def)
  have "one_inside (AtFault (FaultCheck 0 4096)) = Sb\<lparr>sys_loc := (sys_loc Sb)(1 := AtDown linux_ref (CMalloc 100))\<rparr>"
    by (simp add: one_inside_def Sb_def Sa_def boot_def number_sem_def fun_upd_twist [of "Suc 0" 0])
  then have c: "?step Sb (one_inside (AtFault (FaultCheck 0 4096)))"
    by (simp only:) (rule sys_step.Call, simp add: Sb_def Sa_def)
  show ?thesis by (rule rtranclp.rtrancl_into_rtrancl [OF rtranclp.rtrancl_into_rtrancl [OF r_into_rtranclp [of ?step, OF a] b] c])
qed

lemma one_refused_reachable:
  "(sys_step number_sem net_ops two_tasks signals)\<^sup>*\<^sup>* (boot number_sem start) one_refused"
proof -
  let ?step = "sys_step number_sem net_ops two_tasks signals"
  have "\<not> is_valid_address 4096 0 (g_areas start)" by (simp add: is_valid_address_def start_def)
  then have b: "body number_sem linux_ref net_ops demo_cur (AtFault (FaultCheck 0 4096)) 0 start =
      Inr (Goto (AtFault FaultRefused), 0, start)" by (simp add: tag_control_def)
  have 1: "?step (one_inside (AtFault (FaultCheck 0 4096))) (one_inside (AtFault FaultRefused))"
    using sys_step.Go [of "one_inside (AtFault (FaultCheck 0 4096))" 0 linux_ref "CFault 0 4096" "AtFault (FaultCheck 0 4096)"
        number_sem net_ops two_tasks "AtFault FaultRefused" 0 start signals] b
    by (simp add: one_inside_def)
  have 2: "?step (one_inside (AtFault FaultRefused)) one_refused"
    using sys_step.Leave [of "one_inside (AtFault FaultRefused)" 0 linux_ref "CFault 0 4096" "AtFault FaultRefused"
        number_sem net_ops two_tasks "RetFault VM_FAULT_SIGBUS" 1 start signals]
    by (simp add: one_inside_def one_refused_def tag_control_def number_sem_def fun_upd_idem)
  show ?thesis by (rule rtranclp.rtrancl_into_rtrancl [OF rtranclp.rtrancl_into_rtrancl [OF one_inside_reachable 1] 2])
qed

theorem calls_serialise_witness:
  "sys_sem one_refused = 1 \<and>
     operation linux_ref net_ops demo_cur (CFault 0 4096) start = Inr (RetFault VM_FAULT_SIGBUS, sys_st one_refused)"
proof -
  have "inside one_refused = {}" by (simp add: inside_of_def one_refused_def)
  with calls_serialise [OF number.counting_sem_axioms one_refused_reachable]
  have "sys_sem one_refused = 1" "replays net_ops two_tasks (sys_log one_refused) start (sys_st one_refused)" by auto
  then show ?thesis by (simp add: one_refused_def del: operation.simps split: sum.splits prod.splits)
qed

text \<open>
  C40. One signal is enough: a thread whose wait is interrupted is inside together with the one that
  holds the semaphore, and the damage is for good.  In every state from then on the value of the semaphore and
  the number of threads inside are at least 2 together, so whenever nobody is inside the semaphore
  lets two threads in without any further signal.
\<close>

theorem interrupted_wait_breaks_exclusion:
  assumes "counting_sem A cnt" and "(sys_step A ops cur True)\<^sup>*\<^sup>* (boot A st0) S"
    and "is_inside (sys_loc S t)" and "sys_loc S u = AtDown E c" and "cnt (sys_sem S) = 0"
  shows "\<exists>S1. sys_step A ops cur True S S1 \<and> is_inside (sys_loc S1 t) \<and> is_inside (sys_loc S1 u) \<and>
    (\<forall>S2. (sys_step A ops cur True)\<^sup>*\<^sup>* S1 S2 \<longrightarrow> 2 \<le> cnt (sys_sem S2) + card (inside S2))"
  by (rule counting_sem.interrupt [OF assms])

theorem interrupted_wait_breaks_exclusion_witness:
  "\<exists>S. (sys_step number_sem net_ops two_tasks True)\<^sup>*\<^sup>* (boot number_sem start) S \<and>
     is_inside (sys_loc S 0) \<and> is_inside (sys_loc S (1 :: nat))"
proof -
  let ?S = "one_inside (AtFault (FaultCheck 0 4096))"
  have s: "is_inside (sys_loc ?S 0)" "sys_loc ?S 1 = AtDown linux_ref (CMalloc 100)" "sys_sem ?S = 0"
    by (simp_all add: one_inside_def)
  from interrupted_wait_breaks_exclusion [OF number.counting_sem_axioms one_inside_reachable s] obtain S1 where
    S1: "sys_step number_sem net_ops two_tasks True ?S S1" "is_inside (sys_loc S1 0)" "is_inside (sys_loc S1 1)" by blast
  have "(sys_step number_sem net_ops two_tasks True)\<^sup>*\<^sup>* (boot number_sem start) S1"
    by (rule rtranclp.rtrancl_into_rtrancl [OF one_inside_reachable S1(1)])
  with S1(2,3) show ?thesis by blast
qed

end
