(* ===== verification/Threads.thy ===== *)
theory Threads
  imports Clients
begin

text \<open>
  The threads of \<open>src/server/server.py\<close> inside a request.  They take no lock: a \<open>PUT\<close> tests whether the
  process has an entry, looks the entry up and stores into it, a \<open>GET\<close> and an \<open>RM\<close> test and look up
  twice, and between any two of these accesses to the shared dictionary other threads may run.  The inner
  dictionaries are objects, which a thread holds by reference while another may replace the entry.
\<close>

section \<open>Dictionaries as objects\<close>

record py_heap =
  dicts :: "nat \<Rightarrow> (u64 \<Rightarrow> u8 list option)"   \<comment> \<open>the inner dictionaries\<close>
  entries :: "u32 \<Rightarrow> nat option"                 \<comment> \<open>\<open>self.pages\<close>\<close>
  next_dict :: nat

text \<open>
  Where a thread is in the branch of its request.  \<open>PutLookup\<close>, \<open>GetLookup\<close> and \<open>RmLookup\<close> evaluate
  \<open>self.pages[p.pid]\<close>; a missing key raises \<open>KeyError\<close>, which ends the thread.
\<close>

datatype py_point =
    PutTest u32 u64 "u8 list" | PutLookup u32 u64 "u8 list" | PutSet nat u64 "u8 list" | PutNew u32 u64 "u8 list"
  | GetTest u32 u64 | GetLookup u32 u64 | GetIn nat u64 | GetItem nat u64 | Send "u8 list"
  | RmTest u32 u64 | RmLookup u32 u64 | RmIn nat u64 | RmDel nat u64
  | Clear | Finished | KeyError

fun py_begin :: "request \<Rightarrow> py_point" where
  "py_begin (Put p a b) = PutTest p a (page_bytes b)"
| "py_begin (Get p a) = GetTest p a"
| "py_begin (Rm p a) = RmTest p a"
| "py_begin Release = Clear"

text \<open>One access to shared data; the last result is what is sent.\<close>

fun py_step :: "py_point \<Rightarrow> py_heap \<Rightarrow> py_point \<times> py_heap \<times> u8 list" where
  "py_step (PutTest p a data) h = (if entries h p \<noteq> None then PutLookup p a data else PutNew p a data, h, [])"
| "py_step (PutLookup p a data) h = (case entries h p of None \<Rightarrow> KeyError | Some k \<Rightarrow> PutSet k a data, h, [])"
| "py_step (PutSet k a data) h = (Finished, h\<lparr>dicts := (dicts h)(k := (dicts h k)(a \<mapsto> data))\<rparr>, [])"
| "py_step (PutNew p a data) h =
     (Finished, h\<lparr>dicts := (dicts h)(next_dict h := [a \<mapsto> data]), entries := (entries h)(p \<mapsto> next_dict h),
                   next_dict := Suc (next_dict h)\<rparr>, [])"
| "py_step (GetTest p a) h = (if entries h p \<noteq> None then GetLookup p a else Send (replicate 4096 0), h, [])"
| "py_step (GetLookup p a) h = (case entries h p of None \<Rightarrow> KeyError | Some k \<Rightarrow> GetIn k a, h, [])"
| "py_step (GetIn k a) h = (if dicts h k a \<noteq> None then GetItem k a else Send (replicate 4096 0), h, [])"
| "py_step (GetItem k a) h = (case dicts h k a of None \<Rightarrow> KeyError | Some data \<Rightarrow> Send data, h, [])"
| "py_step (Send data) h = (Finished, h, data)"
| "py_step (RmTest p a) h = (if entries h p \<noteq> None then RmLookup p a else Finished, h, [])"
| "py_step (RmLookup p a) h = (case entries h p of None \<Rightarrow> KeyError | Some k \<Rightarrow> RmIn k a, h, [])"
| "py_step (RmIn k a) h = (if dicts h k a \<noteq> None then RmDel k a else Finished, h, [])"
| "py_step (RmDel k a) h =
     (if dicts h k a = None then (KeyError, h, [])
      else (Finished, h\<lparr>dicts := (dicts h)(k := (dicts h k)(a := None))\<rparr>, []))"
| "py_step Clear h = (Finished, h\<lparr>entries := Map.empty\<rparr>, [])"
| "py_step Finished h = (Finished, h, [])"
| "py_step KeyError h = (KeyError, h, [])"

text \<open>
  The threads: each has requests to come, in the order in which they are read from its connection, and
  perhaps one it works on.  \<open>th_log\<close> records the requests in the order in which they are finished.
\<close>

datatype th_state = Ready | Busy request py_point

record threads =
  th_heap :: py_heap
  th_loc :: "conn \<Rightarrow> th_state"
  th_todo :: "conn \<Rightarrow> request list"
  th_out :: "conn \<Rightarrow> u8 list"
  th_log :: "(conn \<times> request) list"

inductive th_step :: "threads \<Rightarrow> threads \<Rightarrow> bool" where
  Read: "th_loc S c = Ready \<Longrightarrow> th_todo S c = r # rs \<Longrightarrow>
    th_step S (S\<lparr>th_loc := (th_loc S)(c := Busy r (py_begin r)), th_todo := (th_todo S)(c := rs)\<rparr>)"
| Run: "th_loc S c = Busy r pc \<Longrightarrow> pc \<noteq> KeyError \<Longrightarrow> py_step pc (th_heap S) = (pc', h, bs) \<Longrightarrow> pc' \<noteq> Finished \<Longrightarrow>
    th_step S (S\<lparr>th_heap := h, th_loc := (th_loc S)(c := Busy r pc')\<rparr>)"
| Finish: "th_loc S c = Busy r pc \<Longrightarrow> py_step pc (th_heap S) = (Finished, h, bs) \<Longrightarrow>
    th_step S (S\<lparr>th_heap := h, th_loc := (th_loc S)(c := Ready), th_out := (th_out S)(c := th_out S c @ bs),
                 th_log := th_log S @ [(c, r)]\<rparr>)"

inductive_cases th_stepE: "th_step S S'"

text \<open>The server before the first request, with the requests each connection is going to make.\<close>

definition th_start :: "py_heap \<Rightarrow> (conn \<Rightarrow> request list) \<Rightarrow> threads" where
  "th_start h rs = \<lparr>th_heap = h, th_loc = (\<lambda>_. Ready), th_todo = rs, th_out = (\<lambda>_. []), th_log = []\<rparr>"

section \<open>The table behind the objects\<close>

definition flat :: "py_heap \<Rightarrow> page_table" where
  "flat h = (\<lambda>p. map_option (dicts h) (entries h p))"

definition heap_ok :: "py_heap \<Rightarrow> bool" where
  "heap_ok h \<longleftrightarrow> (\<forall>p k. entries h p = Some k \<longrightarrow> k < next_dict h) \<and>
     (\<forall>p q k. entries h p = Some k \<longrightarrow> entries h q = Some k \<longrightarrow> p = q)"

text \<open>
  What a thread knows at each point of its request, as long as nobody else touches the entry of the
  process: the entry it has tested is there, and the object it holds is the entry.
\<close>

fun at_point :: "py_heap \<Rightarrow> request \<Rightarrow> py_point \<Rightarrow> bool" where
  "at_point h (Put p a b) pc \<longleftrightarrow>
     pc = PutTest p a (page_bytes b) \<or> pc = PutLookup p a (page_bytes b) \<and> entries h p \<noteq> None \<or>
     (\<exists>k. pc = PutSet k a (page_bytes b) \<and> entries h p = Some k) \<or>
     pc = PutNew p a (page_bytes b) \<and> entries h p = None"
| "at_point h (Get p a) pc \<longleftrightarrow>
     pc = GetTest p a \<or> pc = GetLookup p a \<and> entries h p \<noteq> None \<or>
     (\<exists>k. pc = GetIn k a \<and> entries h p = Some k) \<or>
     (\<exists>k. pc = GetItem k a \<and> entries h p = Some k \<and> dicts h k a \<noteq> None) \<or>
     pc = Send (get_stored p a (flat h))"
| "at_point h (Rm p a) pc \<longleftrightarrow>
     pc = RmTest p a \<or> pc = RmLookup p a \<and> entries h p \<noteq> None \<or>
     (\<exists>k. pc = RmIn k a \<and> entries h p = Some k) \<or>
     (\<exists>k. pc = RmDel k a \<and> entries h p = Some k \<and> dicts h k a \<noteq> None)"
| "at_point h Release pc \<longleftrightarrow> False"

fun request_pid :: "request \<Rightarrow> pid_t option" where
  "request_pid (Put p a b) = Some p"
| "request_pid (Get p a) = Some p"
| "request_pid (Rm p a) = Some p"
| "request_pid Release = None"

text \<open>What a request does to the dictionary of dictionaries when it runs alone.\<close>

fun alone :: "request \<Rightarrow> page_table \<Rightarrow> page_table" where
  "alone (Put p a b) t = put_page p a (page_bytes b) t"
| "alone (Get p a) t = t"
| "alone (Rm p a) t = rm_page p a t"
| "alone Release t = Map.empty"

fun answer_alone :: "request \<Rightarrow> page_table \<Rightarrow> u8 list" where
  "answer_alone (Get p a) t = get_stored p a t"
| "answer_alone r t = []"

lemma alone_abs:
  assumes "table_ok t"
  shows "table_abs (alone r t) = apply_request r (table_abs t)" and "table_ok (alone r t)"
    and "answer_alone r t = reply r (table_abs t)"
  using assms by (cases r; simp add: put_page_abs put_page_ok rm_page_abs rm_page_ok get_stored_abs)+

text \<open>One access of a thread, when the thread is alone with the entries of its process.\<close>

definition untouched :: "pid_t option \<Rightarrow> py_heap \<Rightarrow> py_heap \<Rightarrow> bool" where
  "untouched q h h' \<longleftrightarrow> (\<forall>p. Some p \<noteq> q \<longrightarrow> entries h' p = entries h p \<and>
     (\<forall>k. entries h p = Some k \<longrightarrow> dicts h' k = dicts h k))"

lemma untouched_refl [simp]: "untouched q h h"
  by (simp add: untouched_def)

lemma flat_entry:
  "entries h p = Some k \<Longrightarrow> flat h p = Some (dicts h k)" "entries h p = None \<Longrightarrow> flat h p = None"
  by (simp_all add: flat_def)

lemma set_entry:
  assumes "heap_ok h" and "entries h p = Some k"
  shows "heap_ok (h\<lparr>dicts := (dicts h)(k := m)\<rparr>)" and "untouched (Some p) h (h\<lparr>dicts := (dicts h)(k := m)\<rparr>)"
    and "flat (h\<lparr>dicts := (dicts h)(k := m)\<rparr>) = (flat h)(p \<mapsto> m)"
proof -
  have k: "entries h q = Some k \<longleftrightarrow> q = p" for q using assms by (auto simp: heap_ok_def)
  show "heap_ok (h\<lparr>dicts := (dicts h)(k := m)\<rparr>)" using assms(1) by (simp add: heap_ok_def)
  show "untouched (Some p) h (h\<lparr>dicts := (dicts h)(k := m)\<rparr>)" using k by (auto simp: untouched_def)
  show "flat (h\<lparr>dicts := (dicts h)(k := m)\<rparr>) = (flat h)(p \<mapsto> m)"
  proof
    fix q
    show "flat (h\<lparr>dicts := (dicts h)(k := m)\<rparr>) q = ((flat h)(p \<mapsto> m)) q"
      using k [of q] assms(2) by (cases "entries h q") (auto simp: flat_def)
  qed
qed

lemma new_entry:
  fixes p m
  assumes "heap_ok h"
  defines "h' \<equiv> h\<lparr>dicts := (dicts h)(next_dict h := m), entries := (entries h)(p \<mapsto> next_dict h),
     next_dict := Suc (next_dict h)\<rparr>"
  shows "heap_ok h'" and "untouched (Some p) h h'" and "flat h' = (flat h)(p \<mapsto> m)"
proof -
  have k: "entries h q \<noteq> Some (next_dict h)" for q using assms(1) by (auto simp: heap_ok_def)
  have "k < Suc (next_dict h)" if "entries h q = Some k" for q k
    using that assms(1) by (auto simp: heap_ok_def less_Suc_eq)
  with assms(1) k show "heap_ok h'" by (auto simp: heap_ok_def h'_def)
  show "untouched (Some p) h h'" using k by (auto simp: untouched_def h'_def)
  show "flat h' = (flat h)(p \<mapsto> m)"
  proof
    fix q
    show "flat h' q = ((flat h)(p \<mapsto> m)) q"
      using k [of q] by (cases "entries h q") (auto simp: flat_def h'_def)
  qed
qed

lemma py_step_ok:
  assumes "at_point h r pc" and "heap_ok h" and "py_step pc h = (pc', h', bs)"
  shows "heap_ok h' \<and> untouched (request_pid r) h h' \<and> pc' \<noteq> KeyError \<and>
    (if pc' = Finished then flat h' = alone r (flat h) \<and> bs = answer_alone r (flat h)
     else at_point h' r pc' \<and> flat h' = flat h)"
proof (cases r)
  case (Put p a b)
  consider (look) "pc = PutTest p a (page_bytes b) \<or> pc = PutLookup p a (page_bytes b) \<and> entries h p \<noteq> None"
    | (set) k where "pc = PutSet k a (page_bytes b)" "entries h p = Some k"
    | (new) "pc = PutNew p a (page_bytes b)" "entries h p = None"
    using assms(1) unfolding Put at_point.simps by metis
  then show ?thesis
  proof cases
    case look
    then have "h' = h \<and> bs = [] \<and> (pc' = PutLookup p a (page_bytes b) \<and> entries h p \<noteq> None \<or>
        pc' = PutNew p a (page_bytes b) \<and> entries h p = None \<or> (\<exists>k. pc' = PutSet k a (page_bytes b) \<and> entries h p = Some k))"
      using assms(3) by (cases "entries h p") auto
    then show ?thesis using assms(2) unfolding Put by (elim conjE disjE exE) simp_all
  next
    case set
    note s = set_entry [OF assms(2) set(2), of "(dicts h k)(a \<mapsto> page_bytes b)"]
    have "pc' = Finished" "h' = h\<lparr>dicts := (dicts h)(k := (dicts h k)(a \<mapsto> page_bytes b))\<rparr>" "bs = []"
      using assms(3) set(1) by simp_all
    with s Put flat_entry(1) [OF set(2)] show ?thesis by (simp add: put_page_def)
  next
    case new
    note s = new_entry [OF assms(2), of p "[a \<mapsto> page_bytes b]"]
    have "pc' = Finished" "h' = h\<lparr>dicts := (dicts h)(next_dict h := [a \<mapsto> page_bytes b]),
        entries := (entries h)(p \<mapsto> next_dict h), next_dict := Suc (next_dict h)\<rparr>" "bs = []"
      using assms(3) new(1) by simp_all
    with s Put flat_entry(2) [OF new(2)] show ?thesis by (simp add: put_page_def)
  qed
next
  case (Get p a)
  have none: "get_stored p a (flat h) = replicate 4096 0" if "entries h p = None"
    using flat_entry(2) [OF that] by (simp add: get_stored_def)
  have some: "get_stored p a (flat h) = (case dicts h k a of None \<Rightarrow> replicate 4096 0 | Some d \<Rightarrow> d)" if "entries h p = Some k" for k
    using flat_entry(1) [OF that] by (simp add: get_stored_def split: option.split)
  consider (test) "pc = GetTest p a" | (look) k where "pc = GetLookup p a" "entries h p = Some k"
    | (member) k where "pc = GetIn k a" "entries h p = Some k"
    | (item) k d where "pc = GetItem k a" "entries h p = Some k" "dicts h k a = Some d"
    | (send) "pc = Send (get_stored p a (flat h))"
    using assms(1) unfolding Get at_point.simps by (metis option.exhaust)
  then have "pc' = Finished \<and> h' = h \<and> bs = get_stored p a (flat h) \<or>
      at_point h (Get p a) pc' \<and> pc' \<noteq> KeyError \<and> pc' \<noteq> Finished \<and> h' = h"
  proof cases
    case test
    then show ?thesis using assms(3) none by (cases "entries h p") auto
  next
    case look
    then show ?thesis using assms(3) by auto
  next
    case member
    then show ?thesis using assms(3) some [OF member(2)] by (cases "dicts h k a") auto
  next
    case item
    then show ?thesis using assms(3) some [OF item(2)] by auto
  next
    case send
    then show ?thesis using assms(3) by auto
  qed
  then show ?thesis using assms(2) Get by (elim disjE conjE) (simp_all del: at_point.simps)
next
  case (Rm p a)
  consider (test) "pc = RmTest p a" | (look) "pc = RmLookup p a \<and> entries h p \<noteq> None"
    | (member) k where "pc = RmIn k a" "entries h p = Some k"
    | (del) k where "pc = RmDel k a" "entries h p = Some k" "dicts h k a \<noteq> None" using assms(1) Rm by auto
  then show ?thesis
  proof cases
    case del
    note s = set_entry [OF assms(2) del(2), of "(dicts h k)(a := None)"]
    have "pc' = Finished" "h' = h\<lparr>dicts := (dicts h)(k := (dicts h k)(a := None))\<rparr>" "bs = []"
      using assms(3) del(1,3) by (auto split: if_splits)
    with s Rm flat_entry(1) [OF del(2)] del(3) show ?thesis by (simp add: rm_page_def)
  next
    case test
    then show ?thesis using assms Rm by (auto simp: rm_page_def flat_entry split: if_splits)
  next
    case look
    then show ?thesis using assms Rm by auto
  next
    case member
    then show ?thesis using assms Rm by (auto simp: rm_page_def flat_entry split: if_splits)
  qed
qed (use assms in simp)

text \<open>The accesses of other threads, to other processes, leave a thread where it is.\<close>

lemma untouched_at:
  assumes "untouched q h h'" and "request_pid r \<noteq> q" and "at_point h r pc"
  shows "at_point h' r pc"
proof (cases "request_pid r")
  case None
  then show ?thesis using assms(3) by (cases r) simp_all
next
  case (Some p)
  then have e: "entries h' p = entries h p" "entries h p = Some k \<Longrightarrow> dicts h' k = dicts h k" for k
    using assms(1,2) by (auto simp: untouched_def)
  then have "flat h' p = flat h p" by (cases "entries h p") (simp_all add: flat_def)
  then have "get_stored p a (flat h') = get_stored p a (flat h)" for a by (simp add: get_stored_def)
  with e assms(3) Some show ?thesis by (cases r) auto
qed

section \<open>Interleaving\<close>

text \<open>Requests that keep out of each other's way: no \<open>RELEASE\<close>, and every process has one connection.\<close>

definition apart :: "(conn \<Rightarrow> request list) \<Rightarrow> bool" where
  "apart rs \<longleftrightarrow> (\<forall>c. \<forall>r\<in>set (rs c). r \<noteq> Release) \<and>
     (\<forall>c d. \<forall>r\<in>set (rs c). \<forall>s\<in>set (rs d). c \<noteq> d \<longrightarrow> request_pid r \<noteq> request_pid s)"

definition busy :: "th_state \<Rightarrow> request list" where
  "busy x = (case x of Ready \<Rightarrow> [] | Busy r pc \<Rightarrow> [r])"

lemma busy_simps [simp]: "busy Ready = []" "busy (Busy r pc) = [r]"
  by (simp_all add: busy_def)

definition th_inv :: "py_heap \<Rightarrow> (conn \<Rightarrow> request list) \<Rightarrow> threads \<Rightarrow> bool" where
  "th_inv h rs S \<longleftrightarrow> heap_ok (th_heap S) \<and> table_ok (flat (th_heap S)) \<and>
     table_abs (flat (th_heap S)) = fold apply_request (map snd (th_log S)) (table_abs (flat h)) \<and>
     (\<forall>c r pc. th_loc S c = Busy r pc \<longrightarrow> at_point (th_heap S) r pc) \<and>
     (\<forall>c. th_out S c = replies_to c (th_log S) (table_abs (flat h)) \<and>
          rs c = requests_of c (th_log S) @ busy (th_loc S c) @ th_todo S c)"

lemma th_invD:
  assumes "th_inv h rs S"
  shows "heap_ok (th_heap S)" and "table_ok (flat (th_heap S))"
    and "table_abs (flat (th_heap S)) = fold apply_request (map snd (th_log S)) (table_abs (flat h))"
    and "th_loc S c = Busy r pc \<Longrightarrow> at_point (th_heap S) r pc"
    and "th_out S c = replies_to c (th_log S) (table_abs (flat h))"
    and "rs c = requests_of c (th_log S) @ busy (th_loc S c) @ th_todo S c"
  using assms unfolding th_inv_def by blast+

lemma at_begin: "r \<noteq> Release \<Longrightarrow> at_point h r (py_begin r)"
  by (cases r) simp_all

lemma at_not_error: "at_point h r pc \<Longrightarrow> pc \<noteq> KeyError"
  by (cases r) auto

text \<open>An access of the thread of \<open>c\<close> leaves the others where they are.\<close>

lemma others_stay:
  assumes inv: "th_inv h rs S" and apart: "apart rs" and c: "th_loc S c = Busy r pc"
    and u: "untouched (request_pid r) (th_heap S) h'" and d: "th_loc S d = Busy s pd" "d \<noteq> c"
  shows "at_point h' s pd"
proof -
  have "r \<in> set (rs c)" "s \<in> set (rs d)"
    using th_invD(6) [OF inv, of c] th_invD(6) [OF inv, of d] c d(1) by simp_all
  then have "request_pid s \<noteq> request_pid r" using apart d(2) unfolding apart_def by metis
  from untouched_at [OF u this th_invD(4) [OF inv d(1)]] show ?thesis .
qed

lemma th_step_inv:
  assumes "th_step S S'" and inv: "th_inv h rs S" and apart: "apart rs"
  shows "th_inv h rs S'"
  using assms(1)
proof (cases rule: th_stepE [consumes 1, case_names Read Run Finish])
  case (Read c r rs')
  have "r \<in> set (rs c)" using th_invD(6) [OF inv, of c] Read by simp
  then have "at_point (th_heap S) r (py_begin r)" using apart by (intro at_begin) (auto simp: apart_def)
  then show ?thesis using inv Read unfolding th_inv_def by simp
next
  case (Run c r pc pc' h' bs)
  from py_step_ok [OF th_invD(4) [OF inv Run(2)] th_invD(1) [OF inv] Run(4)] Run(5) have
    p: "heap_ok h'" "untouched (request_pid r) (th_heap S) h'" "at_point h' r pc'" "flat h' = flat (th_heap S)" by auto
  have "at_point h' s pd" if "((th_loc S)(c := Busy r pc')) d = Busy s pd" for d s pd
    using others_stay [OF inv apart Run(2) p(2), of d s pd] that p(3) by (cases "d = c") auto
  then show ?thesis using inv p Run(2) unfolding th_inv_def Run(1) by simp
next
  case (Finish c r pc h' bs)
  from py_step_ok [OF th_invD(4) [OF inv Finish(2)] th_invD(1) [OF inv] Finish(3)] have
    p: "heap_ok h'" "untouched (request_pid r) (th_heap S) h'" "flat h' = alone r (flat (th_heap S))"
       "bs = answer_alone r (flat (th_heap S))" by auto
  have at: "at_point h' s pd" if "((th_loc S)(c := Ready)) d = Busy s pd" for d s pd
    using others_stay [OF inv apart Finish(2) p(2), of d s pd] that by (cases "d = c") auto
  note a = alone_abs [OF th_invD(2) [OF inv], of r]
  have out: "((th_out S)(c := th_out S c @ bs)) d = replies_to d (th_log S @ [(c, r)]) (table_abs (flat h))" for d
    using th_invD(5) [OF inv, of d] th_invD(5) [OF inv, of c] p(4) a(3) th_invD(3) [OF inv]
    by (cases "d = c") (simp_all add: replies_to_append)
  have todo: "rs d = requests_of d (th_log S @ [(c, r)]) @ busy (((th_loc S)(c := Ready)) d) @ th_todo S d" for d
    using th_invD(6) [OF inv, of d] Finish(2) by (cases "d = c") simp_all
  have "table_abs (flat h') = fold apply_request (map snd (th_log S @ [(c, r)])) (table_abs (flat h))"
    using a(1) p(3) th_invD(3) [OF inv] by simp
  with p a(2) at out todo show ?thesis unfolding th_inv_def Finish(1) by simp
qed

section \<open>Properties\<close>

text \<open>
  C22. The threads of the server are linearisable access by access, for clients that keep apart (each
  process has one connection, and none sends \<open>RELEASE\<close> yet, as with one module behind the server): however
  the threads interleave at their accesses to the shared dictionary, no lookup fails, and the table
  and every reply are those of a single map asked one request after the other, in the order in which
  the requests are finished; each connection's requests come in its order and none is lost.  The
  condition is needed: \<open>racing_requests\<close>.
\<close>

theorem threads_linearise:
  assumes "heap_ok h" and "table_ok (flat h)" and "apart rs" and "th_step\<^sup>*\<^sup>* (th_start h rs) S"
  shows "(\<forall>c r. th_loc S c \<noteq> Busy r KeyError) \<and>
    table_abs (flat (th_heap S)) = fold apply_request (map snd (th_log S)) (table_abs (flat h)) \<and>
    (\<forall>c. th_out S c = replies_to c (th_log S) (table_abs (flat h)) \<and>
         rs c = requests_of c (th_log S) @ busy (th_loc S c) @ th_todo S c)"
proof -
  have "th_inv h rs (th_start h rs)" using assms(1,2) by (simp add: th_inv_def th_start_def)
  with assms(4) have inv: "th_inv h rs S"
    by (induction rule: rtranclp_induct) (auto intro: th_step_inv [OF _ _ assms(3)])
  have "th_loc S c \<noteq> Busy r KeyError" for c r using th_invD(4) [OF inv, of c r KeyError] at_not_error by blast
  with th_invD(3,5,6) [OF inv] show ?thesis by blast
qed

text \<open>Two processes put their first pages, one inside the other.\<close>

definition two_puts :: "conn \<Rightarrow> request list" where
  "two_puts c = (if c = 0 then [Put 7 4096 (\<lambda>_. 5)] else if c = 1 then [Put 8 4096 (\<lambda>_. 6)] else [])"

definition no_pages :: py_heap where
  "no_pages = \<lparr>dicts = (\<lambda>_. Map.empty), entries = Map.empty, next_dict = 0\<rparr>"

definition both_put :: threads where
  "both_put = \<lparr>th_heap = \<lparr>dicts = (\<lambda>_. Map.empty)(0 := [4096 \<mapsto> page_bytes (\<lambda>_. 6)], 1 := [4096 \<mapsto> page_bytes (\<lambda>_. 5)]),
       entries = [8 \<mapsto> 0, 7 \<mapsto> 1], next_dict = 2\<rparr>,
     th_loc = (\<lambda>_. Ready), th_todo = (\<lambda>_. []), th_out = (\<lambda>_. []),
     th_log = [(1, Put 8 4096 (\<lambda>_. 6)), (0, Put 7 4096 (\<lambda>_. 5))]\<rparr>"

lemma both_put_reachable: "th_step\<^sup>*\<^sup>* (th_start no_pages two_puts) both_put"
proof -
  let ?r0 = "Put 7 4096 (\<lambda>_. 5)" and ?r1 = "Put 8 4096 (\<lambda>_. 6)"
  let ?d0 = "page_bytes (\<lambda>_. 5)" and ?d1 = "page_bytes (\<lambda>_. 6)"
  define A where "A = th_start no_pages two_puts"
  define B where "B = A\<lparr>th_loc := (th_loc A)(0 := Busy ?r0 (py_begin ?r0)), th_todo := (th_todo A)(0 := [])\<rparr>"
  define C where "C = B\<lparr>th_loc := (th_loc B)(1 := Busy ?r1 (py_begin ?r1)), th_todo := (th_todo B)(1 := [])\<rparr>"
  define D where "D = C\<lparr>th_heap := no_pages, th_loc := (th_loc C)(0 := Busy ?r0 (PutNew 7 4096 ?d0))\<rparr>"
  define F where "F = D\<lparr>th_heap := no_pages, th_loc := (th_loc D)(1 := Busy ?r1 (PutNew 8 4096 ?d1))\<rparr>"
  define h1 where "h1 = \<lparr>dicts = (\<lambda>_. Map.empty)(0 := [4096 \<mapsto> ?d1]), entries = [8 \<mapsto> 0], next_dict = 1\<rparr>"
  define G where "G = F\<lparr>th_heap := h1, th_loc := (th_loc F)(1 := Ready), th_out := (th_out F)(1 := th_out F 1 @ []),
      th_log := th_log F @ [(1, ?r1)]\<rparr>"
  have 1: "th_step A B" unfolding B_def by (rule th_step.Read) (simp_all add: A_def th_start_def two_puts_def)
  have 2: "th_step B C" unfolding C_def by (rule th_step.Read) (simp_all add: B_def A_def th_start_def two_puts_def)
  have 3: "th_step C D" unfolding D_def
    by (rule th_step.Run [where pc = "PutTest 7 4096 ?d0" and bs = "[]"]) (simp_all add: C_def B_def A_def th_start_def no_pages_def)
  have 4: "th_step D F" unfolding F_def
    by (rule th_step.Run [where pc = "PutTest 8 4096 ?d1" and bs = "[]"]) (simp_all add: D_def C_def B_def A_def th_start_def no_pages_def)
  have 5: "th_step F G" unfolding G_def
    by (rule th_step.Finish [where pc = "PutNew 8 4096 ?d1"]) (simp_all add: F_def no_pages_def h1_def)
  have "both_put = G\<lparr>th_heap := th_heap both_put, th_loc := (th_loc G)(0 := Ready), th_out := (th_out G)(0 := th_out G 0 @ []),
      th_log := th_log G @ [(0, ?r0)]\<rparr>"
    by (simp add: both_put_def G_def F_def D_def C_def B_def A_def th_start_def two_puts_def fun_eq_iff)
  moreover have "th_step G (G\<lparr>th_heap := th_heap both_put, th_loc := (th_loc G)(0 := Ready),
      th_out := (th_out G)(0 := th_out G 0 @ []), th_log := th_log G @ [(0, ?r0)]\<rparr>)"
    by (rule th_step.Finish [where pc = "PutNew 7 4096 ?d0"])
      (simp_all add: G_def F_def D_def h1_def both_put_def)
  ultimately have 6: "th_step G both_put" by metis
  show ?thesis using 1 2 3 4 5 6 unfolding A_def by (meson converse_rtranclp_into_rtranclp rtranclp.rtrancl_refl)
qed

theorem threads_linearise_witness:
  "table_abs (flat (th_heap both_put)) = [(8, 4096) \<mapsto> (\<lambda>_. 6), (7, 4096) \<mapsto> (\<lambda>_. 5)]"
proof -
  have "heap_ok no_pages" "flat no_pages = Map.empty" by (auto simp: heap_ok_def flat_def no_pages_def)
  moreover have "apart two_puts" by (auto simp: apart_def two_puts_def)
  ultimately show ?thesis
    using threads_linearise [OF _ _ _ both_put_reachable] by (simp add: both_put_def)
qed

text \<open>
  Two connections that put the first pages of the same process at the same time: both find no entry,
  and the second new entry replaces the first, whose page is lost.  And a \<open>RELEASE\<close> between the test
  and the lookup ends the thread with an exception.
\<close>

theorem racing_requests:
  assumes "entries h p = None" and "a \<noteq> b"
  shows "py_step (PutTest p a d) h = (PutNew p a d, h, []) \<and> py_step (PutTest p b e) h = (PutNew p b e, h, []) \<and>
    (\<exists>h1 h2. py_step (PutNew p a d) h = (Finished, h1, []) \<and> py_step (PutNew p b e) h1 = (Finished, h2, []) \<and>
       get_stored p a (flat h2) = replicate 4096 0 \<and>
       (\<exists>h3. py_step (PutTest p a d) h2 = (PutLookup p a d, h2, []) \<and> py_step Clear h2 = (Finished, h3, []) \<and>
          py_step (PutLookup p a d) h3 = (KeyError, h3, [])))"
  using assms by (simp add: flat_def get_stored_def)

theorem racing_requests_witness:
  "\<exists>h1 h2. py_step (PutNew 7 4096 d) no_pages = (Finished, h1, []) \<and> py_step (PutNew 7 8192 e) h1 = (Finished, h2, []) \<and>
     get_stored 7 4096 (flat h2) = replicate 4096 0"
proof -
  have "entries no_pages 7 = None" "(4096 :: u64) \<noteq> 8192" by (simp_all add: no_pages_def)
  from racing_requests [OF this, of d e] show ?thesis by blast
qed

end
