(* ===== verification/Dump.thy ===== *)
theory Dump
  imports Area StoredPage MappedBuffer Storage
begin

text \<open>
  The dumps of the lists (\<open>dump_area_list\<close>, \<open>dump_stored_pages\<close>, \<open>dump_buffers\<close>,
  \<open>dump_kernel_buffer_list\<close>) as lists of lines, one constructor for each format.  They follow the
  links of the lists and no other pointer, so they cannot fail; what can be read from them is
  stated here.
\<close>

section \<open>Lines\<close>

datatype dump_line =
    AreasTitle | AreaLine pid_t u64 u64 | RegionLine u64 u64 int
  | PagesTitle | PageLine nat pid_t u64
  | BuffersTitle | BufferLine pid_t u64 | CacheLine u64
  | KernelEmpty | KernelTitle | KernelLine u64 pid_t
  | BlankLine

fun dump_regions :: "region_struct list \<Rightarrow> dump_line list" where
  "dump_regions [] = []"
| "dump_regions (region # rs) =
     RegionLine (virtual_start region) (r_size region) (r_free region) # dump_regions rs"

fun dump_areas :: "area_struct list \<Rightarrow> dump_line list" where
  "dump_areas [] = []"
| "dump_areas (area # areas) =
     AreaLine (a_pid area) (a_size area) (free_space area) # dump_regions (regions area) @ dump_areas areas"

definition dump_area_list :: "area_struct list \<Rightarrow> dump_line list" where
  "dump_area_list area_list = AreasTitle # dump_areas area_list @ [BlankLine]"

fun dump_pages :: "nat \<Rightarrow> stored_page list \<Rightarrow> dump_line list" where
  "dump_pages i [] = []"
| "dump_pages i (page # pages) = PageLine (Suc i) (sp_pid page) (sp_start page) # dump_pages (Suc i) pages"

definition dump_stored_pages :: "stored_page list \<Rightarrow> dump_line list" where
  "dump_stored_pages stored_pages = PagesTitle # dump_pages 0 stored_pages @ [BlankLine]"

fun dump_buffer_lines :: "mapped_buffer list \<Rightarrow> dump_line list" where
  "dump_buffer_lines [] = []"
| "dump_buffer_lines (buffer # buffers) =
     BufferLine (b_pid buffer) (b_start buffer) #
     (if b_cache_vma buffer \<noteq> None then [CacheLine (b_cache_start buffer)] else []) @ dump_buffer_lines buffers"

definition dump_buffers :: "mapped_buffer list \<Rightarrow> dump_line list" where
  "dump_buffers buffers = BuffersTitle # dump_buffer_lines buffers @ [BlankLine]"

definition dump_kernel_buffer_list :: "kernel_buffer list \<Rightarrow> dump_line list" where
  "dump_kernel_buffer_list kbs =
     (if kbs = [] then [KernelEmpty] else KernelTitle # map (\<lambda>kb. KernelLine (kb_address kb) (kb_pid kb)) kbs)"

section \<open>Reading a dump\<close>

text \<open>A reader of the lines about areas: each line of a region belongs to the last area before it.\<close>

type_synonym area_summary = "pid_t \<times> u64 \<times> u64 \<times> (u64 \<times> u64 \<times> int) list"

fun read_areas :: "dump_line list \<Rightarrow> area_summary list" where
  "read_areas (AreaLine p s f # ls) =
     (p, s, f, map (\<lambda>l. case l of RegionLine a n x \<Rightarrow> (a, n, x) | _ \<Rightarrow> (0, 0, 0))
                 (takeWhile (\<lambda>l. case l of RegionLine _ _ _ \<Rightarrow> True | _ \<Rightarrow> False) ls)) # read_areas ls"
| "read_areas (l # ls) = read_areas ls"
| "read_areas [] = []"

definition area_summary :: "area_struct \<Rightarrow> area_summary" where
  "area_summary a = (a_pid a, a_size a, free_space a,
     map (\<lambda>r. (virtual_start r, r_size r, r_free r)) (regions a))"

lemma read_regions:
  "read_areas (dump_regions rs @ ls) = read_areas ls"
  by (induction rs) simp_all

lemma take_regions:
  assumes "ls = [] \<or> (\<forall>a n x. hd ls \<noteq> RegionLine a n x)"
  shows "map (\<lambda>l. case l of RegionLine a n x \<Rightarrow> (a, n, x) | _ \<Rightarrow> (0, 0, 0))
      (takeWhile (\<lambda>l. case l of RegionLine _ _ _ \<Rightarrow> True | _ \<Rightarrow> False) (dump_regions rs @ ls)) =
    map (\<lambda>r. (virtual_start r, r_size r, r_free r)) rs"
proof (induction rs)
  case Nil
  show ?case using assms by (cases ls) (auto split: dump_line.split)
qed simp

lemma dump_areas_head: "\<forall>a n x. hd (dump_areas as @ [BlankLine]) \<noteq> RegionLine a n x"
  by (cases as) simp_all

lemma read_dump: "read_areas (dump_areas as @ [BlankLine]) = map area_summary as"
proof (induction as)
  case (Cons a as)
  then show ?case
    using take_regions [of "dump_areas as @ [BlankLine]" "regions a"] dump_areas_head [of as]
    by (simp add: read_regions area_summary_def)
qed simp

lemma dump_pages_iff:
  "PageLine i p a \<in> set (dump_pages k pages) \<longleftrightarrow>
     (\<exists>j < length pages. i = Suc (k + j) \<and> pages ! j = \<lparr>sp_pid = p, sp_start = a\<rparr>)"
proof (induction pages arbitrary: k)
  case (Cons x xs)
  show ?case
    unfolding dump_pages.simps list.set insert_iff Cons.IH
    by (cases x) (auto simp: less_Suc_eq_0_disj)
qed simp

lemma stored_page_nth:
  "is_stored_page p a pages \<longleftrightarrow> (\<exists>j < length pages. pages ! j = \<lparr>sp_pid = p, sp_start = a\<rparr>)"
proof (induction pages)
  case (Cons x xs)
  then show ?case by (cases x) (auto simp: less_Suc_eq_0_disj)
qed simp

section \<open>Properties\<close>

text \<open>
  The dumps are faithful.  The dump of the areas can be read back: it gives for each area its
  process, size and free space and the start, size and use of each of its regions, in order.  The dump
  of the stored pages numbers them from 1, and a page is in the index exactly if it has a line.
\<close>

theorem dumps_faithful:
  "read_areas (dump_area_list as) = map area_summary as \<and>
   (is_stored_page p a pages \<longleftrightarrow> (\<exists>i. PageLine i p a \<in> set (dump_stored_pages pages))) \<and>
   (PageLine i p a \<in> set (dump_stored_pages pages) \<longleftrightarrow>
      0 < i \<and> i \<le> length pages \<and> pages ! (i - 1) = \<lparr>sp_pid = p, sp_start = a\<rparr>)"
proof -
  have line: "PageLine i p a \<in> set (dump_stored_pages pages) \<longleftrightarrow>
      (\<exists>j < length pages. i = Suc j \<and> pages ! j = \<lparr>sp_pid = p, sp_start = a\<rparr>)" for i
    using dump_pages_iff [of i p a 0 pages] by (auto simp: dump_stored_pages_def)
  show ?thesis
    unfolding line stored_page_nth
    by (cases i) (auto simp: dump_area_list_def read_dump Suc_le_eq)
qed

text \<open>
  The dump of the buffers shows an address for the current page of each process whether a page is
  mapped there or not: two lists that differ in this look the same.
\<close>

theorem buffer_dump_ambiguous:
  "dump_buffers (buffer\<lparr>b_vma := None\<rparr> # buffers) = dump_buffers (buffer # buffers)"
  by (simp add: dump_buffers_def)

end
