(* ===== verification/Access.thy ===== *)
theory Access
  imports ModuleProps
begin

text \<open>
  What the user program gets: the processor executes an instruction, a page of its operands is not
  mapped, the kernel calls the fault handler of the VMA, and the instruction starts again.  The two
  pages of a buffer are kept in the order of their faults, so an instruction on two pages always
  completes, and one on three never does.  Byte by byte, the memory behaves like an array.
\<close>

section \<open>The buffer of the process after a fault\<close>

text \<open>
  The place of the older page becomes the place of the new one, and the newer page becomes the older.
  These lemmas follow the code and need no invariant.
\<close>

definition aged :: "mapped_buffer \<Rightarrow> mapped_buffer \<Rightarrow> bool" where
  "aged b b' \<longleftrightarrow> b_pid b' = b_pid b \<and> b_buffer b' = b_cache b \<and>
     b_cache b' = b_buffer b \<and> b_cache_vma b' = b_vma b \<and> b_cache_start b' = b_start b"

lemma copy_page_keeps:
  "copy_page_from_user E ops p a v st = Inr (e, st') \<Longrightarrow>
     g_bufs st' = g_bufs st \<and> g_mm st' = g_mm st \<and> g_pt st' = g_pt st"
  by (auto simp: copy_page_from_user_def Let_def split: option.splits if_splits prod.splits sum.splits elim!: kbind_InrE)

lemma remove_user_page_keeps:
  assumes "remove_user_page E a v st = Inr (e, st')" and "paging_ok E"
  shows "g_bufs st' = g_bufs st \<and> g_mm st' = g_mm st \<and> (\<forall>k f. g_pt st' k = Some f \<longrightarrow> g_pt st k = Some f)"
  using assms by (auto simp: remove_user_page_def paging_ok_def split: if_splits elim!: kbind_InrE)

lemma unmap_buffer_keeps:
  assumes "unmap_buffer E ops i st = Inr (e, st')" and "paging_ok E"
  shows "(g_bufs st' = g_bufs st \<or> g_bufs st' = (g_bufs st)[i := (g_bufs st ! i)\<lparr>b_vma := None\<rparr>]) \<and> g_mm st' = g_mm st \<and>
    (\<forall>k f. g_pt st' k = Some f \<longrightarrow> g_pt st k = Some f)"
  using assms
  by (auto simp: unmap_buffer_def Let_def split: if_splits elim!: kbind_InrE
      dest!: copy_page_keeps remove_user_page_keeps [OF _ assms(2)])

lemma unmap_page_ages:
  assumes run: "unmap_page E ops p True st = Inr (e, st')" and P: "paging_ok E"
  shows "g_mm st' = g_mm st \<and> (\<forall>k f. g_pt st' k = Some f \<longrightarrow> g_pt st k = Some f) \<and>
    (case get_buffer p (g_bufs st) of None \<Rightarrow> g_bufs st' = g_bufs st
     | Some i \<Rightarrow> \<exists>b'. g_bufs st' = (g_bufs st)[i := b'] \<and> aged (g_bufs st ! i) b')"
proof (cases "get_buffer p (g_bufs st)")
  case None
  with run show ?thesis by (simp add: unmap_page_def)
next
  case (Some i)
  have i: "i < length (g_bufs st)" using get_buffer_Some [OF Some] by simp
  let ?b = "swap_buffer_cache (g_bufs st ! i)"
  have a: "aged (g_bufs st ! i) (?b\<lparr>b_vma := w\<rparr>)" "aged (g_bufs st ! i) ?b" for w
    by (simp_all add: aged_def swap_buffer_cache_def)
  show ?thesis
  proof (cases "b_cache_vma (g_bufs st ! i) = None")
    case True
    with run Some have "st' = swap_at i st" by (simp add: unmap_page_def)
    with Some a(2) show ?thesis by (auto simp: swap_at_def)
  next
    case False
    with run Some have "unmap_buffer E ops i (swap_at i st) = Inr (e, st')" by (simp add: unmap_page_def)
    note k = unmap_buffer_keeps [OF this P]
    have "g_bufs st' = (g_bufs st)[i := ?b] \<or> g_bufs st' = (g_bufs st)[i := ?b\<lparr>b_vma := None\<rparr>]"
      using k i by (simp add: swap_at_def)
    with k Some a show ?thesis by auto
  qed
qed

lemma map_page_records:
  assumes run: "map_page E ops p a v st = Inr (res, st')" and P: "paging_ok E"
  shows "g_mm st' = g_mm st" and "res = Some f \<Longrightarrow>
    (\<exists>vma. vmas (g_mm st) v = Some vma \<and> g_pt st' = (g_pt st)((vm_mm vma, a) \<mapsto> f)) \<and>
    (case get_buffer p (g_bufs st) of
       Some i \<Rightarrow> b_buffer (g_bufs st ! i) = Some f \<and> g_bufs st' = (g_bufs st)[i := (g_bufs st ! i)\<lparr>b_vma := Some v, b_start := a\<rparr>]
     | None \<Rightarrow> \<exists>b'. g_bufs st' = g_bufs st @ [b'] \<and> b_pid b' = p \<and> b_buffer b' = Some f \<and> b_vma b' = Some v \<and>
         b_start b' = a \<and> b_cache_vma b' = None)"
  using run P
  by (auto simp: map_page_def Let_def add_buffer_def nth_append list_update_append paging_ok_def
      split: option.splits if_splits prod.splits elim!: kbind_InrE)

lemma get_buffer_append:
  "get_buffer p bs = None \<Longrightarrow> b_pid b = p \<Longrightarrow> get_buffer p (bs @ [b]) = Some (length bs)"
  by (induction bs) (auto split: if_splits)

lemma fault_records:
  assumes run: "generic_malloc_vm_fault E ops cur v a st = Inr (FaultDone f, st')" and P: "paging_ok E" and p: "p = t_pid cur"
  obtains b' vma where "buffer_of p (g_bufs st') = Some b'" "b_buffer b' = Some f" "b_vma b' = Some v" "b_start b' = a"
    "\<And>b. buffer_of p (g_bufs st) = Some b \<Longrightarrow>
       b_cache b = Some f \<and> b_cache b' = b_buffer b \<and> b_cache_vma b' = b_vma b \<and> b_cache_start b' = b_start b"
    "vmas (g_mm st) v = Some vma" "g_pt st' (vm_mm vma, a) = Some f"
    "\<And>k x. k \<noteq> (vm_mm vma, a) \<Longrightarrow> g_pt st' k = Some x \<Longrightarrow> g_pt st k = Some x"
proof -
  obtain st1 where u: "unmap_page E ops p True st = Inr (0, st1)" and m: "map_page E ops p a v st1 = Inr (Some f, st')"
    using run p by (auto simp: generic_malloc_vm_fault_def generic_malloc_get_page_def
        split: if_splits option.splits elim!: kbind_InrE)
  note ages = unmap_page_ages [OF u P]
  from map_page_records(2) [OF m P refl] obtain vma where vma: "vmas (g_mm st1) v = Some vma"
      "g_pt st' = (g_pt st1)((vm_mm vma, a) \<mapsto> f)"
    and rec: "case get_buffer p (g_bufs st1) of
       Some i \<Rightarrow> b_buffer (g_bufs st1 ! i) = Some f \<and> g_bufs st' = (g_bufs st1)[i := (g_bufs st1 ! i)\<lparr>b_vma := Some v, b_start := a\<rparr>]
     | None \<Rightarrow> \<exists>b'. g_bufs st' = g_bufs st1 @ [b'] \<and> b_pid b' = p \<and> b_buffer b' = Some f \<and> b_vma b' = Some v \<and>
         b_start b' = a \<and> b_cache_vma b' = None" by blast
  have "\<exists>b'. buffer_of p (g_bufs st') = Some b' \<and> b_buffer b' = Some f \<and> b_vma b' = Some v \<and> b_start b' = a \<and>
    (\<forall>b. buffer_of p (g_bufs st) = Some b \<longrightarrow>
       b_cache b = Some f \<and> b_cache b' = b_buffer b \<and> b_cache_vma b' = b_vma b \<and> b_cache_start b' = b_start b)"
  proof (cases "get_buffer p (g_bufs st)")
    case None
    with ages have "get_buffer p (g_bufs st1) = None" by simp
    with rec obtain b' where "g_bufs st' = g_bufs st1 @ [b']" "b_pid b' = p" "b_buffer b' = Some f" "b_vma b' = Some v"
      "b_start b' = a" by auto
    with get_buffer_append [of p "g_bufs st1" b'] \<open>get_buffer p (g_bufs st1) = None\<close> None show ?thesis
      by (intro exI [of _ b']) (simp add: buffer_of_def)
  next
    case (Some i)
    note i = get_buffer_Some [OF Some]
    from ages Some obtain c where c: "g_bufs st1 = (g_bufs st)[i := c]" "aged (g_bufs st ! i) c" by auto
    have g1: "get_buffer p (g_bufs st1) = Some i"
      unfolding c(1) using c(2) i by (intro get_buffer_update [OF Some]) (simp add: aged_def)
    have nth: "g_bufs st1 ! i = c" using c(1) i by simp
    from rec g1 nth have r: "b_buffer c = Some f" "g_bufs st' = (g_bufs st1)[i := c\<lparr>b_vma := Some v, b_start := a\<rparr>]" by simp_all
    have "get_buffer p (g_bufs st') = Some i"
      unfolding r(2) using c(2) i by (intro get_buffer_update [OF g1]) (simp add: aged_def)
    moreover have "g_bufs st' ! i = c\<lparr>b_vma := Some v, b_start := a\<rparr>" using r(2) c(1) i by simp
    ultimately show ?thesis using Some r(1) c(2)
      by (intro exI [of _ "c\<lparr>b_vma := Some v, b_start := a\<rparr>"]) (simp add: buffer_of_def aged_def)
  qed
  then obtain b' where b': "buffer_of p (g_bufs st') = Some b'" "b_buffer b' = Some f" "b_vma b' = Some v" "b_start b' = a"
    "\<And>b. buffer_of p (g_bufs st) = Some b \<Longrightarrow>
       b_cache b = Some f \<and> b_cache b' = b_buffer b \<and> b_cache_vma b' = b_vma b \<and> b_cache_start b' = b_start b" by blast
  show thesis
    by (rule that [OF b']) (use vma ages in \<open>auto split: if_splits\<close>)
qed

lemma fault_keeps_mm:
  assumes run: "generic_malloc_vm_fault E ops cur v a st = Inr (res, st')" and P: "paging_ok E"
  shows "g_mm st' = g_mm st"
proof (cases "is_valid_address a v (g_areas st)")
  case True
  with run obtain e st1 where u: "unmap_page E ops (t_pid cur) True st = Inr (e, st1)"
    and m: "st' = st1 \<or> (\<exists>pg. map_page E ops (t_pid cur) a v st1 = Inr (pg, st'))"
    by (auto simp: generic_malloc_vm_fault_def generic_malloc_get_page_def
        split: if_splits option.splits elim!: kbind_InrE)
  with unmap_page_ages [OF u P] map_page_records(1) [OF _ P] show ?thesis by metis
qed (use run in \<open>simp add: generic_malloc_vm_fault_def\<close>)

section \<open>Instructions\<close>

text \<open>The VMA of an address, as the page fault code of the kernel looks it up.\<close>

definition vma_at :: "vmem \<Rightarrow> mmid \<Rightarrow> u64 \<Rightarrow> vid option" where
  "vma_at V m a = find (\<lambda>v. case vmas V v of None \<Rightarrow> False | Some x \<Rightarrow> vm_start x \<le> a \<and> a < vm_end x) (mmap V m)"

text \<open>
  An instruction whose operands lie in the pages \<open>pages\<close>: when they are all mapped it completes;
  otherwise the first that is not causes a fault, after which the instruction is started again.  A
  fault outside all VMAs, or one that is answered by \<open>VM_FAULT_SIGBUS\<close>, kills the process.  \<open>None\<close> means
  that the instruction is started again and again forever.
\<close>

datatype outcome = Completed | Killed

partial_function (option) access ::
  "kenv \<Rightarrow> 's storage_ops \<Rightarrow> task \<Rightarrow> u64 list \<Rightarrow> 's gstate \<Rightarrow> (kfault + outcome \<times> 's gstate) option" where
  "access E ops cur pages st =
     (case find (\<lambda>a. g_pt st (t_mm cur, a) = None) pages of
        None \<Rightarrow> Some (Inr (Completed, st))
      | Some a \<Rightarrow>
          (case vma_at (g_mm st) (t_mm cur) a of
             None \<Rightarrow> Some (Inr (Killed, st))
           | Some v \<Rightarrow>
               (case generic_malloc_vm_fault E ops cur v a st of
                  Inl e \<Rightarrow> Some (Inl e)
                | Inr r \<Rightarrow>
                    (case fst r of
                       VM_FAULT_SIGBUS \<Rightarrow> Some (Inr (Killed, snd r))
                     | FaultDone f \<Rightarrow> access E ops cur pages (snd r)))))"

lemma access_completes:
  assumes "\<forall>a\<in>set pages. g_pt st (t_mm cur, a) \<noteq> None"
  shows "access E ops cur pages st = Some (Inr (Completed, st))"
proof -
  have "find (\<lambda>a. g_pt st (t_mm cur, a) = None) pages = None" using assms by (simp add: find_None_iff)
  then show ?thesis by (simp add: access.simps)
qed

lemma access_restarts:
  assumes "find (\<lambda>a. g_pt st (t_mm cur, a) = None) pages = Some a" and "vma_at (g_mm st) (t_mm cur) a = Some v"
    and "generic_malloc_vm_fault E ops cur v a st = Inr (FaultDone f, st')"
  shows "access E ops cur pages st = access E ops cur pages st'"
  by (subst access.simps) (simp add: assms)

text \<open>The same with a bound \<open>n\<close> on the number of faults: \<open>None\<close> when it is not enough.\<close>

fun access_within ::
  "nat \<Rightarrow> kenv \<Rightarrow> 's storage_ops \<Rightarrow> task \<Rightarrow> u64 list \<Rightarrow> 's gstate \<Rightarrow> (kfault + outcome \<times> 's gstate) option" where
  "access_within n E ops cur pages st =
     (case find (\<lambda>a. g_pt st (t_mm cur, a) = None) pages of
        None \<Rightarrow> Some (Inr (Completed, st))
      | Some a \<Rightarrow>
          (case vma_at (g_mm st) (t_mm cur) a of
             None \<Rightarrow> Some (Inr (Killed, st))
           | Some v \<Rightarrow>
               (case n of
                  0 \<Rightarrow> None
                | Suc m \<Rightarrow>
                    (case generic_malloc_vm_fault E ops cur v a st of
                       Inl e \<Rightarrow> Some (Inl e)
                     | Inr r \<Rightarrow>
                         (case fst r of
                            VM_FAULT_SIGBUS \<Rightarrow> Some (Inr (Killed, snd r))
                          | FaultDone f \<Rightarrow> access_within m E ops cur pages (snd r))))))"

declare access_within.simps [simp del]

lemma access_within_access: "access_within n E ops cur pages st = Some r \<Longrightarrow> access E ops cur pages st = Some r"
proof (induction n arbitrary: st)
  case 0
  then show ?case by (subst access.simps) (auto simp: access_within.simps [of 0] split: option.splits)
next
  case (Suc n)
  then show ?case
    by (subst access.simps)
      (auto simp: access_within.simps [of "Suc n"] split: option.splits sum.splits fault_result.splits)
qed

lemma access_within_completes:
  assumes "\<forall>a\<in>set pages. g_pt st (t_mm cur, a) \<noteq> None"
  shows "access_within n E ops cur pages st = Some (Inr (Completed, st))"
proof -
  have "find (\<lambda>a. g_pt st (t_mm cur, a) = None) pages = None" using assms by (simp add: find_None_iff)
  then show ?thesis by (simp add: access_within.simps)
qed

lemma access_within_restarts:
  assumes "find (\<lambda>a. g_pt st (t_mm cur, a) = None) pages = Some a" and "vma_at (g_mm st) (t_mm cur) a = Some v"
    and "generic_malloc_vm_fault E ops cur v a st = Inr (FaultDone f, st')"
  shows "access_within (Suc n) E ops cur pages st = access_within n E ops cur pages st'"
  by (subst access_within.simps) (simp add: assms)

lemma find_missing:
  assumes "\<not> (\<forall>a\<in>set pages. g_pt st (m, a) \<noteq> None)"
  obtains a where "find (\<lambda>a. g_pt st (m, a) = None) pages = Some a" "a \<in> set pages" "g_pt st (m, a) = None"
proof -
  obtain a where a: "find (\<lambda>a. g_pt st (m, a) = None) pages = Some a"
    using assms by (cases "find (\<lambda>a. g_pt st (m, a) = None) pages") (auto simp: find_None_iff)
  then show thesis by (intro that [OF a]) (auto simp: find_Some_iff)
qed

text \<open>An address in a VMA of the process, on a page that a region in use touches.\<close>

definition usable :: "vmem \<Rightarrow> mmid \<Rightarrow> area_struct list \<Rightarrow> u64 \<Rightarrow> bool" where
  "usable V m as a \<longleftrightarrow> (\<exists>v. vma_at V m a = Some v \<and> is_valid_address a v as)"

text \<open>When the page is mapped, it is to a frame of the buffer of the process.\<close>

definition own_page :: "(pid_t \<Rightarrow> mmid) \<Rightarrow> 's gstate \<Rightarrow> pid_t \<Rightarrow> u64 \<Rightarrow> bool" where
  "own_page mm_of st p a \<longleftrightarrow> (\<forall>f. g_pt st (mm_of p, a) = Some f \<longrightarrow>
     (\<exists>b. buffer_of p (g_bufs st) = Some b \<and> f \<in> set (frames_of b)))"

text \<open>The page that was brought in last, unless it has been put away since.\<close>

definition newest :: "pid_t \<Rightarrow> 's gstate \<Rightarrow> u64 option" where
  "newest p st = (case buffer_of p (g_bufs st) of None \<Rightarrow> None
     | Some b \<Rightarrow> if b_vma b = None then None else Some (b_start b))"

lemma vma_at_mem: "vma_at V m a = Some v \<Longrightarrow> v \<in> set (mmap V m)"
  by (auto simp: vma_at_def find_Some_iff)

lemma fault_on:
  assumes inv: "net_inv mm_of st" and inj: "inj mm_of" and env: "env_ok E" "insert_total E" and mm: "t_mm cur = mm_of (t_pid cur)"
    and u: "usable (g_mm st) (t_mm cur) (g_areas st) a" and none: "g_pt st (t_mm cur, a) = None"
  obtains v f st' where "vma_at (g_mm st) (t_mm cur) a = Some v"
    "generic_malloc_vm_fault E net_ops cur v a st = Inr (FaultDone f, st')"
    "net_inv mm_of st'" "net_view mm_of st' = net_view mm_of st" "g_areas st' = g_areas st" "g_mm st' = g_mm st"
    "g_pt st' (t_mm cur, a) = Some f" "newest (t_pid cur) st' = Some a"
    "\<And>x. newest (t_pid cur) st = Some x \<Longrightarrow> g_pt st' (t_mm cur, x) \<noteq> None"
    "\<And>x. own_page mm_of st (t_pid cur) x \<Longrightarrow> own_page mm_of st' (t_pid cur) x"
proof -
  from u obtain v where v: "vma_at (g_mm st) (t_mm cur) a = Some v" "is_valid_address a v (g_areas st)"
    by (auto simp: usable_def)
  have P: "paging_ok E" using env(1) by (simp add: env_ok_def)
  from net_fault_total [OF inv inj env(1) mm vma_at_mem [OF v(1)] none] v(2) env(2) obtain f st' where
    f: "generic_malloc_vm_fault E net_ops cur v a st = Inr (FaultDone f, st')" "g_pt st' (t_mm cur, a) = Some f"
    and t: "net_inv mm_of st'" "net_view mm_of st' = net_view mm_of st" "g_areas st' = g_areas st" by auto
  obtain b' vma where
    b': "buffer_of (t_pid cur) (g_bufs st') = Some b'" "b_buffer b' = Some f" "b_vma b' = Some v" "b_start b' = a"
    and age: "\<And>b. buffer_of (t_pid cur) (g_bufs st) = Some b \<Longrightarrow>
       b_cache b = Some f \<and> b_cache b' = b_buffer b \<and> b_cache_vma b' = b_vma b \<and> b_cache_start b' = b_start b"
    and vma: "vmas (g_mm st) v = Some vma" "g_pt st' (vm_mm vma, a) = Some f"
    and keep: "\<And>k x. k \<noteq> (vm_mm vma, a) \<Longrightarrow> g_pt st' k = Some x \<Longrightarrow> g_pt st k = Some x"
    by (rule fault_records [OF f(1) P refl]) (rule that)
  note PI = module_invD(4) [OF t(1) [unfolded net_inv_def]]
  have "mm_wf (g_mm st) (t_mm cur)" using module_invD(1) [OF inv [unfolded net_inv_def]] by (simp add: spaces_ok_def)
  then have vm: "vm_mm vma = t_mm cur" using mm_wfD [OF _ vma_at_mem [OF v(1)]] vma(1) by (metis option.inject)
  have sl: "slots_ok mm_of (\<lambda>_. True) (g_mm st') (g_pt st') b'" by (rule page_invD(2) [OF PI b'(1)])
  have pid: "b_pid b' = t_pid cur" by (rule bt.lookup_key [OF b'(1)])
  have nw: "g_pt st' (t_mm cur, x) \<noteq> None" if "newest (t_pid cur) st = Some x" for x
  proof -
    from that obtain b where b: "buffer_of (t_pid cur) (g_bufs st) = Some b" "b_vma b \<noteq> None" "b_start b = x"
      by (auto simp: newest_def split: option.splits if_splits)
    with age [OF b(1)] sl pid mm show ?thesis by (auto simp: slots_ok_def slot_ok_def)
  qed
  have own: "own_page mm_of st' (t_pid cur) x" if o: "own_page mm_of st (t_pid cur) x" for x
    unfolding own_page_def
  proof (intro allI impI)
    fix y assume y: "g_pt st' (mm_of (t_pid cur), x) = Some y"
    show "\<exists>b. buffer_of (t_pid cur) (g_bufs st') = Some b \<and> y \<in> set (frames_of b)"
    proof (cases "x = a")
      case True
      with y f(2) mm b' show ?thesis by (simp add: frames_member)
    next
      case False
      with keep y have "g_pt st (mm_of (t_pid cur), x) = Some y" by simp
      with o obtain b where "buffer_of (t_pid cur) (g_bufs st) = Some b" "y \<in> set (frames_of b)"
        by (auto simp: own_page_def)
      with age b' show ?thesis by (auto simp: frames_member)
    qed
  qed
  have "newest (t_pid cur) st' = Some a" using b' by (simp add: newest_def)
  then show thesis by (rule that [OF v(1) f(1) t fault_keeps_mm [OF f(1) P] f(2) _ nw own])
qed

section \<open>Two pages, and three\<close>

lemma two_pages:
  assumes "net_inv mm_of st" and "inj mm_of" and "env_ok E" and "insert_total E" and "t_mm cur = mm_of (t_pid cur)"
    and "set pages \<subseteq> {x, y}" and "\<forall>a\<in>set pages. usable (g_mm st) (t_mm cur) (g_areas st) a"
  shows "\<exists>st'. access_within 2 E net_ops cur pages st = Some (Inr (Completed, st')) \<and> net_inv mm_of st' \<and>
    net_view mm_of st' = net_view mm_of st \<and> g_areas st' = g_areas st \<and> g_mm st' = g_mm st \<and>
    (\<forall>a\<in>set pages. g_pt st' (t_mm cur, a) \<noteq> None) \<and>
    (\<forall>a. own_page mm_of st (t_pid cur) a \<longrightarrow> own_page mm_of st' (t_pid cur) a)"
proof (cases "\<forall>a\<in>set pages. g_pt st (t_mm cur, a) \<noteq> None")
  case True
  with access_within_completes [of pages st cur] assms(1) show ?thesis by (intro exI [of _ st]) simp
next
  case False
  then obtain a where a: "find (\<lambda>a. g_pt st (t_mm cur, a) = None) pages = Some a" "a \<in> set pages" "g_pt st (t_mm cur, a) = None"
    by (rule find_missing)
  obtain v f st1 where f: "vma_at (g_mm st) (t_mm cur) a = Some v"
    "generic_malloc_vm_fault E net_ops cur v a st = Inr (FaultDone f, st1)"
    and st1: "net_inv mm_of st1" "net_view mm_of st1 = net_view mm_of st" "g_areas st1 = g_areas st" "g_mm st1 = g_mm st"
    "g_pt st1 (t_mm cur, a) = Some f" "newest (t_pid cur) st1 = Some a"
    and own1: "\<And>x. own_page mm_of st (t_pid cur) x \<Longrightarrow> own_page mm_of st1 (t_pid cur) x"
    using fault_on [OF assms(1-5) _ a(3)] assms(7) a(2) by metis
  note r1 = access_within_restarts [OF a(1) f, of 1, unfolded Suc_1]
  show ?thesis
  proof (cases "\<forall>a\<in>set pages. g_pt st1 (t_mm cur, a) \<noteq> None")
    case True
    with access_within_completes [OF this] r1 st1(1-4) own1 show ?thesis by (intro exI [of _ st1]) simp
  next
    case False
    then obtain b where b: "find (\<lambda>a. g_pt st1 (t_mm cur, a) = None) pages = Some b" "b \<in> set pages" "g_pt st1 (t_mm cur, b) = None"
      by (rule find_missing)
    have u: "usable (g_mm st1) (t_mm cur) (g_areas st1) b" using assms(7) b(2) st1(3,4) by simp
    obtain w g st2 where g: "vma_at (g_mm st1) (t_mm cur) b = Some w"
      "generic_malloc_vm_fault E net_ops cur w b st1 = Inr (FaultDone g, st2)"
      and st2: "net_inv mm_of st2" "net_view mm_of st2 = net_view mm_of st1" "g_areas st2 = g_areas st1" "g_mm st2 = g_mm st1"
      "g_pt st2 (t_mm cur, b) = Some g" "g_pt st2 (t_mm cur, a) \<noteq> None"
      and own2: "\<And>x. own_page mm_of st1 (t_pid cur) x \<Longrightarrow> own_page mm_of st2 (t_pid cur) x"
      using fault_on [OF st1(1) assms(2-5) u b(3)] st1(6) by metis
    have "a \<noteq> b" using st1(5) b(3) by auto
    then have "set pages \<subseteq> {a, b}" using assms(6) a(2) b(2) by blast
    then have "\<forall>a\<in>set pages. g_pt st2 (t_mm cur, a) \<noteq> None" using st2(5,6) by auto
    with access_within_completes [OF this] r1 access_within_restarts [OF b(1) g, of 0, unfolded One_nat_def [symmetric]] st1(2-4) st2 own1 own2 show ?thesis
      by (intro exI [of _ st2]) simp
  qed
qed

text \<open>
  C7. An instruction on at most two pages of the module always completes: after at most two faults
  both pages are mapped at the same time, because a fault puts away the older of the two resident
  pages, never the one that was brought in last.  Nothing any process sees has changed.
  (\<open>src/test/test2.c\<close> marks a copy across the border of two pages as a bug.  With one resident page it would be
  one; with the two that \<open>mapped_buffer.c\<close> keeps it is not, and \<open>my_strcpy_copies\<close> shows it for the copy.)
\<close>

theorem two_page_access_completes:
  assumes "net_inv mm_of st" and "inj mm_of" and "env_ok E" and "insert_total E" and "t_mm cur = mm_of (t_pid cur)"
    and "set pages \<subseteq> {x, y}" and "\<forall>a\<in>set pages. usable (g_mm st) (t_mm cur) (g_areas st) a"
  shows "\<exists>st'. access_within 2 E net_ops cur pages st = Some (Inr (Completed, st')) \<and>
    access E net_ops cur pages st = Some (Inr (Completed, st')) \<and> net_inv mm_of st' \<and>
    net_view mm_of st' = net_view mm_of st \<and> g_areas st' = g_areas st \<and> g_mm st' = g_mm st \<and>
    (\<forall>a\<in>set pages. g_pt st' (t_mm cur, a) \<noteq> None) \<and>
    (\<forall>a. own_page mm_of st (t_pid cur) a \<longrightarrow> own_page mm_of st' (t_pid cur) a)"
proof -
  from two_pages [OF assms] obtain st' where
    r: "access_within 2 E net_ops cur pages st = Some (Inr (Completed, st'))" "net_inv mm_of st'"
      "net_view mm_of st' = net_view mm_of st" "g_areas st' = g_areas st" "g_mm st' = g_mm st"
      "\<forall>a\<in>set pages. g_pt st' (t_mm cur, a) \<noteq> None"
      "\<forall>a. own_page mm_of st (t_pid cur) a \<longrightarrow> own_page mm_of st' (t_pid cur) a" by blast
  with access_within_access [OF r(1)] show ?thesis by (intro exI [of _ st']) simp
qed

theorem two_page_access_completes_witness:
  "\<exists>st'. access linux_ref net_ops demo_cur [4096, 8192] demo_state = Some (Inr (Completed, st')) \<and>
     g_pt st' (7, 4096) \<noteq> None \<and> g_pt st' (7, 8192) \<noteq> None"
proof -
  have "\<forall>a\<in>set [4096, 8192]. usable (g_mm demo_state) (t_mm demo_cur) (g_areas demo_state) a"
    by (simp add: usable_def vma_at_def is_valid_address_def demo_state_def start_def demo_region_def demo_cur_def
        align_floor_def align_ceil_def PAGE_SHIFT_def)
  moreover have "t_mm demo_cur = 7" by (simp add: demo_cur_def)
  ultimately show ?thesis
    using two_page_access_completes [OF demo_inv demo_mm_of(1) linux_ref_env_ok linux_ref_insert_total demo_mm_of(2),
        of "[4096, 8192]" 4096 8192] by auto
qed

lemma three_not_mapped:
  assumes inv: "net_inv mm_of st" and d: "x \<noteq> y" "y \<noteq> z" "x \<noteq> z" and own: "\<forall>a\<in>{x, y, z}. own_page mm_of st p a"
  shows "\<exists>a\<in>{x, y, z}. g_pt st (mm_of p, a) = None"
proof (rule ccontr)
  assume "\<not> ?thesis"
  then have all: "\<exists>f. g_pt st (mm_of p, a) = Some f" if "a \<in> {x, y, z}" for a using that by auto
  note MO = page_invD(3) [OF module_invD(4) [OF inv [unfolded net_inv_def]]]
  from all [of x] own obtain b where b: "buffer_of p (g_bufs st) = Some b" by (auto simp: own_page_def)
  have "a \<in> {b_start b, b_cache_start b}" if "a \<in> {x, y, z}" for a
  proof -
    from all [OF that] obtain f where f: "g_pt st (mm_of p, a) = Some f" by blast
    with own that b have "f \<in> set (frames_of b)" by (auto simp: own_page_def)
    with mappings_okD(2) [OF MO f b] show ?thesis by (auto simp: maps_at_def)
  qed
  then have "x \<in> {b_start b, b_cache_start b}" "y \<in> {b_start b, b_cache_start b}" "z \<in> {b_start b, b_cache_start b}" by simp_all
  with d show False by auto
qed

lemma three_pages_aux:
  assumes "access E' ops cur' pages' st = Some r"
    and "E' = E \<and> ops = net_ops \<and> cur' = cur \<and> pages' = pages" and "net_inv mm_of st"
    and "\<forall>a\<in>set pages. usable (g_mm st) (t_mm cur) (g_areas st) a" and "\<forall>a\<in>set pages. own_page mm_of st (t_pid cur) a"
    and inj: "inj mm_of" and env: "env_ok E" "insert_total E" and mm: "t_mm cur = mm_of (t_pid cur)"
    and sub: "{x, y, z} \<subseteq> set pages" and diff: "x \<noteq> y" "y \<noteq> z" "x \<noteq> z"
  shows "False"
  using assms(1-5)
proof (induction E' ops cur' pages' st r rule: access.raw_induct [rotated, consumes 1])
  case (1 acc E' ops cur' pages' st r)
  have "E' = E" "ops = net_ops" "cur' = cur" "pages' = pages" using 1(3) by simp_all
  note IH = 1(1) and body = 1(2) [unfolded this] and inv = 1(4) and use = 1(5) and own = 1(6)
  have "\<forall>a\<in>{x, y, z}. own_page mm_of st (t_pid cur) a" using own sub by blast
  from three_not_mapped [OF inv diff this] mm sub have "\<not> (\<forall>a\<in>set pages. g_pt st (t_mm cur, a) \<noteq> None)" by auto
  then obtain a where a: "find (\<lambda>a. g_pt st (t_mm cur, a) = None) pages = Some a" "a \<in> set pages" "g_pt st (t_mm cur, a) = None"
    by (rule find_missing)
  obtain v f st1 where f: "vma_at (g_mm st) (t_mm cur) a = Some v"
    "generic_malloc_vm_fault E net_ops cur v a st = Inr (FaultDone f, st1)"
    and st1: "net_inv mm_of st1" "g_areas st1 = g_areas st" "g_mm st1 = g_mm st"
    and own1: "\<And>x. own_page mm_of st (t_pid cur) x \<Longrightarrow> own_page mm_of st1 (t_pid cur) x"
    using fault_on [OF inv inj env mm _ a(3)] use a(2) by metis
  have "acc E net_ops cur pages st1 = Some r" using body a(1) f by simp
  from IH [OF this] st1 use own own1 show ?case by simp
qed

text \<open>
  C8. An instruction that needs three pages of the module at once never completes, however much
  memory there is and however well kernel, network and server work: each fault succeeds and puts away
  a page the instruction needs, and the process spins in the kernel and over the network for ever.
\<close>

theorem three_page_access_never_ends:
  assumes "net_inv mm_of st" and "inj mm_of" and "env_ok E" and "insert_total E" and "t_mm cur = mm_of (t_pid cur)"
    and "{x, y, z} \<subseteq> set pages" and "x \<noteq> y" and "y \<noteq> z" and "x \<noteq> z"
    and "\<forall>a\<in>set pages. usable (g_mm st) (t_mm cur) (g_areas st) a" and "\<forall>a\<in>set pages. own_page mm_of st (t_pid cur) a"
  shows "access E net_ops cur pages st = None"
  using three_pages_aux [OF _ _ assms(1,10,11,2-9), of E net_ops cur pages]
  by (cases "access E net_ops cur pages st") simp_all

text \<open>The example after \<open>netmalloc(10000)\<close>: a region of three pages.\<close>

definition big_region :: region_struct where
  "big_region = \<lparr>r_free = 0, r_size = 10000, virtual_start = 4096\<rparr>"

definition big_state :: "srv net gstate" where
  "big_state = start\<lparr>
     g_mm := \<lparr>vmas = [0 \<mapsto> \<lparr>vm_mm = 7, vm_start = 4096, vm_end = 20480,
         vm_flags = {VM_READ, VM_WRITE, VM_EXEC, VM_MIXEDMAP}, vm_ops = 1\<rparr>],
       mmap = (\<lambda>_. [])(7 := [0]), next_vid = 1\<rparr>,
     g_areas := [\<lparr>a_vma = Some 0, a_pid = 7, a_size = 16384, free_space = 6384,
       head = \<lparr>r_free = 0, r_size = 0, virtual_start = 0\<rparr>, regions = [big_region]\<rparr>]\<rparr>"

lemma big_create:
  "create_region linux_ref (g_mm start) 10000 demo_cur (g_areas start) module_vm_ops =
     Inr (g_mm big_state, g_areas big_state, Some big_region)"
proof -
  have al: "align_ceil 10000 VMA_SHIFT = 16384" by code_simp
  have "add_vma linux_ref empty_mm demo_cur demo_cur 1 16384 = Inr (g_mm big_state, Some 0)"
    by (simp add: add_vma_def create_vm_area_struct_def linux_ref_def empty_mm_free demo_cur_def Let_def)
      (simp add: empty_mm_def ref_insert_def place_vma_def PAGE_SIZE_def big_state_def start_def)
  moreover have "g_mm start = empty_mm" "g_areas start = []" by (simp_all add: start_def)
  ultimately show ?thesis
    by (simp add: create_region_def get_area_container_def add_area_struct_def al module_vm_ops_def Let_def)
      (simp add: linux_ref_def add_region_def get_free_region_def add_region_after_def big_state_def start_def
        big_region_def demo_cur_def Let_def)
qed

lemma big_run: "generic_malloc linux_ref net_ops demo_cur 10000 start = Inr (4096, big_state)"
  by (simp add: generic_malloc_def big_create) (simp add: start_def unmap_page_def big_state_def big_region_def)

lemma big_inv: "net_inv unat big_state"
proof -
  have b: "bounded (g_mm start) 10000" "(0 :: u64) < 10000" by (simp_all add: bounded_def start_def empty_mm_def)
  from net.malloc_spec [OF start_inv [unfolded net_inv_def] demo_mm_of(1) linux_ref_env_ok demo_mm_of(2) b]
  show ?thesis unfolding net_inv_def by cases (simp_all add: big_create big_run)
qed

theorem three_page_access_never_ends_witness:
  "access linux_ref net_ops demo_cur [4096, 8192, 12288] big_state = None"
proof -
  have u: "\<forall>a\<in>set [4096, 8192, 12288]. usable (g_mm big_state) (t_mm demo_cur) (g_areas big_state) a"
    by (simp add: usable_def vma_at_def is_valid_address_def big_state_def start_def big_region_def demo_cur_def
        align_floor_def align_ceil_def PAGE_SHIFT_def)
  have o: "\<forall>a\<in>set [4096, 8192, 12288]. own_page unat big_state (t_pid demo_cur) a"
    by (simp add: own_page_def big_state_def start_def)
  show ?thesis
    by (rule three_page_access_never_ends [OF big_inv demo_mm_of(1) linux_ref_env_ok linux_ref_insert_total demo_mm_of(2),
          of 4096 8192 12288]) (use u o in simp_all)
qed

end
