(* ===== verification/UserMem.thy ===== *)
theory UserMem
  imports Access
begin

text \<open>
  User programs on the memory they are given: loading and storing bytes, faults and all, and the two
  routines of \<open>src/test\<close> that do nothing else, \<open>my_strcpy\<close> of \<open>test2.c\<close> and \<open>dump_buffer\<close> of \<open>test.c\<close>.
\<close>

section \<open>Bytes\<close>

text \<open>The byte process \<open>p\<close> sees at an address.\<close>

definition user_byte :: "(pid_t \<Rightarrow> mmid) \<Rightarrow> srv net gstate \<Rightarrow> pid_t \<Rightarrow> u64 \<Rightarrow> u8" where
  "user_byte mm_of st p a = net_view mm_of st p (align_floor a PAGE_SHIFT) (ucast a)"

lemma same_address:
  assumes "align_floor a PAGE_SHIFT = align_floor c PAGE_SHIFT" and "(ucast a :: 12 word) = ucast c"
  shows "a = (c :: u64)"
proof -
  have "unat a mod 4096 = unat c mod 4096"
    using arg_cong [OF assms(2), of unat] by (simp add: unsigned_ucast_eq take_bit_eq_mod)
  moreover have "unat a div 4096 * 4096 = unat c div 4096 * 4096"
    using arg_cong [OF assms(1), of unat] by (simp only: unat_align_floor_page)
  ultimately have "unat a = unat c" by (metis div_mult_mod_eq)
  then show ?thesis by (simp add: word_unat_eq_iff)
qed

text \<open>Storing a byte and loading one: an instruction on one page.\<close>

definition store_byte ::
  "kenv \<Rightarrow> 's storage_ops \<Rightarrow> task \<Rightarrow> u64 \<Rightarrow> u8 \<Rightarrow> 's gstate \<Rightarrow> (kfault + outcome \<times> 's gstate) option" where
  "store_byte E ops cur a b st =
     (case access E ops cur [align_floor a PAGE_SHIFT] st of
        None \<Rightarrow> None
      | Some (Inl e) \<Rightarrow> Some (Inl e)
      | Some (Inr (Killed, st1)) \<Rightarrow> Some (Inr (Killed, st1))
      | Some (Inr (Completed, st1)) \<Rightarrow>
          (case g_pt st1 (t_mm cur, align_floor a PAGE_SHIFT) of
             None \<Rightarrow> Some (Inr (Killed, st1))
           | Some f \<Rightarrow> Some (Inr (Completed, st1\<lparr>g_mem := (g_mem st1)\<lparr>content :=
                 (content (g_mem st1))(f := (content (g_mem st1) f)(ucast a := b))\<rparr>\<rparr>))))"

definition load_byte ::
  "kenv \<Rightarrow> 's storage_ops \<Rightarrow> task \<Rightarrow> u64 \<Rightarrow> 's gstate \<Rightarrow> (kfault + u8 option \<times> 's gstate) option" where
  "load_byte E ops cur a st =
     (case access E ops cur [align_floor a PAGE_SHIFT] st of
        None \<Rightarrow> None
      | Some (Inl e) \<Rightarrow> Some (Inl e)
      | Some (Inr (Killed, st1)) \<Rightarrow> Some (Inr (None, st1))
      | Some (Inr (Completed, st1)) \<Rightarrow>
          (case g_pt st1 (t_mm cur, align_floor a PAGE_SHIFT) of
             None \<Rightarrow> Some (Inr (None, st1))
           | Some f \<Rightarrow> Some (Inr (Some (content (g_mem st1) f (ucast a)), st1))))"

text \<open>What a user program relies on at an address.\<close>

definition good_address :: "(pid_t \<Rightarrow> mmid) \<Rightarrow> 's gstate \<Rightarrow> pid_t \<Rightarrow> u64 \<Rightarrow> bool" where
  "good_address mm_of st p a \<longleftrightarrow> usable (g_mm st) (mm_of p) (g_areas st) (align_floor a PAGE_SHIFT) \<and>
     own_page mm_of st p (align_floor a PAGE_SHIFT)"

definition same_layout :: "(pid_t \<Rightarrow> mmid) \<Rightarrow> task \<Rightarrow> srv net gstate \<Rightarrow> srv net gstate \<Rightarrow> bool" where
  "same_layout mm_of cur st st' \<longleftrightarrow> net_inv mm_of st' \<and> g_areas st' = g_areas st \<and> g_mm st' = g_mm st \<and>
     (\<forall>a. good_address mm_of st (t_pid cur) a \<longrightarrow> good_address mm_of st' (t_pid cur) a)"

lemma same_layout_trans: "same_layout mm_of cur st st1 \<Longrightarrow> same_layout mm_of cur st1 st2 \<Longrightarrow> same_layout mm_of cur st st2"
  by (simp add: same_layout_def)

lemma access_one:
  assumes inv: "net_inv mm_of st" and inj: "inj mm_of" and env: "env_ok E" "insert_total E" and mm: "t_mm cur = mm_of (t_pid cur)"
    and a: "good_address mm_of st (t_pid cur) a"
  obtains st1 f b where "access E net_ops cur [align_floor a PAGE_SHIFT] st = Some (Inr (Completed, st1))"
    "same_layout mm_of cur st st1" "net_view mm_of st1 = net_view mm_of st"
    "g_pt st1 (mm_of (t_pid cur), align_floor a PAGE_SHIFT) = Some f"
    "buffer_of (t_pid cur) (g_bufs st1) = Some b" "f \<in> set (frames_of b)"
proof -
  let ?a = "align_floor a PAGE_SHIFT"
  have "\<forall>x\<in>set [?a]. usable (g_mm st) (t_mm cur) (g_areas st) x" using a mm by (simp add: good_address_def)
  from two_pages [OF inv inj env mm, of "[?a]" ?a ?a, OF _ this] obtain st1 where
    w: "access_within 2 E net_ops cur [?a] st = Some (Inr (Completed, st1))"
    and r: "net_inv mm_of st1" "net_view mm_of st1 = net_view mm_of st"
      "g_areas st1 = g_areas st" "g_mm st1 = g_mm st" "g_pt st1 (t_mm cur, ?a) \<noteq> None"
    and own: "\<forall>x. own_page mm_of st (t_pid cur) x \<longrightarrow> own_page mm_of st1 (t_pid cur) x" by auto
  note r = access_within_access [OF w] r
  from r(6) obtain f where f: "g_pt st1 (mm_of (t_pid cur), ?a) = Some f" using mm by auto
  from own a have "own_page mm_of st1 (t_pid cur) ?a" by (simp add: good_address_def)
  with f obtain b where "buffer_of (t_pid cur) (g_bufs st1) = Some b" "f \<in> set (frames_of b)" by (auto simp: own_page_def)
  moreover have "same_layout mm_of cur st st1" using r(2,4,5) own by (simp add: same_layout_def good_address_def)
  ultimately show thesis using r(1,3) f by (intro that)
qed

lemma write_inv:
  "net_inv mm_of st \<Longrightarrow> net_inv mm_of (st\<lparr>g_mem := (g_mem st)\<lparr>content := (content (g_mem st))(f := pg)\<rparr>\<rparr>)"
  by (simp add: net_inv_def module_inv_def page_inv_def mappings_ok_def)

lemma write_layout:
  assumes "same_layout mm_of cur st st1"
  shows "same_layout mm_of cur st (st1\<lparr>g_mem := (g_mem st1)\<lparr>content := (content (g_mem st1))(f := pg)\<rparr>\<rparr>)"
  using assms write_inv [of mm_of st1 f pg] by (simp add: same_layout_def good_address_def own_page_def)

section \<open>Memory is an array of bytes\<close>

lemma store_byte_ok:
  assumes "net_inv mm_of st" and "inj mm_of" and "env_ok E" and "insert_total E" and "t_mm cur = mm_of (t_pid cur)"
    and "good_address mm_of st (t_pid cur) a"
  shows "\<exists>st'. store_byte E net_ops cur a b st = Some (Inr (Completed, st')) \<and> same_layout mm_of cur st st' \<and>
    (\<forall>q c. user_byte mm_of st' q c = (if q = t_pid cur \<and> c = a then b else user_byte mm_of st q c))"
proof -
  let ?a = "align_floor a PAGE_SHIFT" and ?p = "t_pid cur"
  obtain st1 f bf where r: "access E net_ops cur [?a] st = Some (Inr (Completed, st1))"
    and l: "same_layout mm_of cur st st1" and v: "net_view mm_of st1 = net_view mm_of st"
    and f: "g_pt st1 (mm_of ?p, ?a) = Some f" "buffer_of ?p (g_bufs st1) = Some bf" "f \<in> set (frames_of bf)"
    by (rule access_one [OF assms])
  define pg where "pg = (content (g_mem st1) f)(ucast a := b)"
  define st' where "st' = st1\<lparr>g_mem := (g_mem st1)\<lparr>content := (content (g_mem st1))(f := pg)\<rparr>\<rparr>"
  have run: "store_byte E net_ops cur a b st = Some (Inr (Completed, st'))"
    using r f(1) assms(5) by (simp add: store_byte_def pg_def st'_def)
  have inv1: "net_inv mm_of st1" using l by (simp add: same_layout_def)
  have c: "content (g_mem st1) f = net_view mm_of st ?p ?a"
    unfolding v [symmetric] using f(1) by (simp add: net_view_def page_view_def)
  have w: "net_view mm_of st' q c = (if q = ?p \<and> c = ?a then pg else net_view mm_of st q c)" for q c
    using net.write_view [OF module_invD(4) [OF inv1 [unfolded net_inv_def]] assms(2) f, of pg q c] v
    by (simp add: st'_def net_view_def)
  have "user_byte mm_of st' q c = (if q = ?p \<and> c = a then b else user_byte mm_of st q c)" for q c
    using same_address [of c a] by (auto simp: user_byte_def w pg_def c)
  with run write_layout [OF l] show ?thesis by (intro exI [of _ st']) (simp add: st'_def)
qed

text \<open>
  C15. What a user program stores it loads again: a store at an address of a region in use completes
  and changes this byte of this process and no other byte of any process, whatever pages have to be
  brought in and put away on the server for it.
\<close>

theorem store_byte_correct:
  assumes "net_inv mm_of st" and "inj mm_of" and "env_ok E" and "insert_total E" and "t_mm cur = mm_of (t_pid cur)"
    and "good_address mm_of st (t_pid cur) a"
  shows "\<exists>st'. store_byte E net_ops cur a b st = Some (Inr (Completed, st')) \<and> same_layout mm_of cur st st' \<and>
    (\<forall>q c. user_byte mm_of st' q c = (if q = t_pid cur \<and> c = a then b else user_byte mm_of st q c))"
  by (rule store_byte_ok [OF assms])

text \<open>The addresses of the example region are good.\<close>

lemma demo_good:
  assumes "a \<in> {4096..<12288}"
  shows "good_address unat demo_state (t_pid demo_cur) a"
proof -
  have "unat (align_floor a PAGE_SHIFT) \<in> {4096, 8192}"
  proof -
    have "4096 \<le> unat a" "unat a < 12288" using assms by (simp_all add: word_le_nat_alt word_less_nat_alt)
    then have "unat a div 4096 = 1 \<or> unat a div 4096 = 2" by linarith
    then show ?thesis by (auto simp: unat_align_floor_page)
  qed
  then have "align_floor a PAGE_SHIFT \<in> {4096, 8192}" by (auto simp: word_unat_eq_iff)
  then show ?thesis
    by (auto simp: good_address_def own_page_def usable_def vma_at_def is_valid_address_def demo_state_def start_def demo_region_def
        demo_cur_def) (simp_all add: align_floor_def align_ceil_def PAGE_SHIFT_def)
qed

theorem store_byte_correct_witness:
  "\<exists>st'. store_byte linux_ref net_ops demo_cur 9000 65 demo_state = Some (Inr (Completed, st')) \<and>
     user_byte unat st' 7 9000 = 65 \<and> user_byte unat st' 7 9001 = user_byte unat demo_state 7 9001"
proof -
  have "good_address unat demo_state (t_pid demo_cur) 9000" by (rule demo_good) simp
  from store_byte_correct [OF demo_inv demo_mm_of(1) linux_ref_env_ok linux_ref_insert_total demo_mm_of(2) this, of 65]
  show ?thesis by (auto simp: demo_cur_def)
qed

text \<open>
  A load at an address of a region in use completes with the byte the process sees there, and
  changes no byte of any process.
\<close>

theorem load_byte_correct:
  assumes "net_inv mm_of st" and "inj mm_of" and "env_ok E" and "insert_total E" and "t_mm cur = mm_of (t_pid cur)"
    and "good_address mm_of st (t_pid cur) a"
  shows "\<exists>st'. load_byte E net_ops cur a st = Some (Inr (Some (user_byte mm_of st (t_pid cur) a), st')) \<and>
    same_layout mm_of cur st st' \<and> user_byte mm_of st' = user_byte mm_of st"
proof -
  let ?a = "align_floor a PAGE_SHIFT" and ?p = "t_pid cur"
  obtain st1 f bf where r: "access E net_ops cur [?a] st = Some (Inr (Completed, st1))"
    and l: "same_layout mm_of cur st st1" and v: "net_view mm_of st1 = net_view mm_of st"
    and f: "g_pt st1 (mm_of ?p, ?a) = Some f" "buffer_of ?p (g_bufs st1) = Some bf" "f \<in> set (frames_of bf)"
    by (rule access_one [OF assms])
  have c: "content (g_mem st1) f = net_view mm_of st ?p ?a"
    unfolding v [symmetric] using f(1) by (simp add: net_view_def page_view_def)
  have "load_byte E net_ops cur a st = Some (Inr (Some (user_byte mm_of st ?p a), st1))"
    using r f(1) assms(5) by (simp add: load_byte_def user_byte_def c)
  moreover have "user_byte mm_of st1 = user_byte mm_of st" by (simp add: fun_eq_iff user_byte_def v)
  ultimately show ?thesis using l by (intro exI [of _ st1]) simp
qed

section \<open>Two test programs\<close>

text \<open>\<open>my_strcpy\<close>: the source is a string of the program, the destination memory of the module.\<close>

fun my_strcpy ::
  "kenv \<Rightarrow> 's storage_ops \<Rightarrow> task \<Rightarrow> u64 \<Rightarrow> u8 list \<Rightarrow> 's gstate \<Rightarrow> (kfault + outcome \<times> 's gstate) option" where
  "my_strcpy E ops cur s [] st = Some (Inr (Completed, st))"
| "my_strcpy E ops cur s (c # s2) st =
     (if c = 0 then Some (Inr (Completed, st))
      else (case store_byte E ops cur s c st of
              None \<Rightarrow> None
            | Some (Inl e) \<Rightarrow> Some (Inl e)
            | Some (Inr (Killed, st1)) \<Rightarrow> Some (Inr (Killed, st1))
            | Some (Inr (Completed, st1)) \<Rightarrow> my_strcpy E ops cur (s + 1) s2 st1))"

text \<open>\<open>dump_buffer\<close>: what it prints.\<close>

datatype printed = NewLine | Marker string | Chr u8

definition before_char :: "string \<Rightarrow> nat \<Rightarrow> printed list" where
  "before_char page_marker i =
     (if i mod 30 = 0 then [NewLine] else []) @ (if i mod 4096 = 0 then [Marker page_marker] else [])"

text \<open>The loop, from \<open>i\<close> on with \<open>n\<close> bytes to go; \<open>None\<close> in the result when the process is killed.\<close>

fun dump_loop ::
  "kenv \<Rightarrow> 's storage_ops \<Rightarrow> task \<Rightarrow> u64 \<Rightarrow> string \<Rightarrow> nat \<Rightarrow> nat \<Rightarrow> printed list \<Rightarrow> 's gstate
     \<Rightarrow> (kfault + printed list option \<times> 's gstate) option" where
  "dump_loop E ops cur buffer page_marker i 0 out st = Some (Inr (Some (out @ [NewLine]), st))"
| "dump_loop E ops cur buffer page_marker i (Suc n) out st =
     (case load_byte E ops cur (buffer + of_nat i) st of
        None \<Rightarrow> None
      | Some (Inl e) \<Rightarrow> Some (Inl e)
      | Some (Inr (None, st1)) \<Rightarrow> Some (Inr (None, st1))
      | Some (Inr (Some c, st1)) \<Rightarrow>
          dump_loop E ops cur buffer page_marker (Suc i) n (out @ before_char page_marker i @ [Chr c]) st1)"

definition dump_buffer ::
  "kenv \<Rightarrow> 's storage_ops \<Rightarrow> task \<Rightarrow> u64 \<Rightarrow> nat \<Rightarrow> string \<Rightarrow> 's gstate \<Rightarrow> (kfault + printed list option \<times> 's gstate) option" where
  "dump_buffer E ops cur buffer sz page_marker st = dump_loop E ops cur buffer page_marker 0 sz [] st"

lemma next_address: "Suc i < 2 ^ 64 \<Longrightarrow> (s :: u64) + 1 + of_nat i \<noteq> s"
proof -
  assume i: "Suc i < 2 ^ 64"
  have "(of_nat (Suc i) :: u64) \<noteq> 0"
    using i nat_dvd_not_less [of "Suc i" "2 ^ 64"] by (simp add: word_of_nat_eq_0_iff del: of_nat_Suc)
  then show ?thesis by (simp add: add.assoc add.commute)
qed

text \<open>
  C35. \<open>my_strcpy\<close> into a region in use completes wherever the destination lies, across the border of
  two pages for instance: the bytes of the string are there, and no other byte of any process has
  changed.  This includes the byte behind the copy: the terminating 0 is not copied.
\<close>

theorem my_strcpy_copies:
  assumes "net_inv mm_of st" and "inj mm_of" and "env_ok E" and "insert_total E" and "t_mm cur = mm_of (t_pid cur)"
    and "\<forall>i<length cs. good_address mm_of st (t_pid cur) (s + of_nat i)" and "0 \<notin> set cs" and "length cs < 2 ^ 64"
  shows "\<exists>st'. my_strcpy E net_ops cur s (cs @ 0 # rest) st = Some (Inr (Completed, st')) \<and> same_layout mm_of cur st st' \<and>
    (\<forall>i<length cs. user_byte mm_of st' (t_pid cur) (s + of_nat i) = cs ! i) \<and>
    (\<forall>q c. q \<noteq> t_pid cur \<or> (\<forall>i<length cs. c \<noteq> s + of_nat i) \<longrightarrow> user_byte mm_of st' q c = user_byte mm_of st q c)"
  using assms(1,6-8)
proof (induction cs arbitrary: s st)
  case Nil
  then show ?case by (intro exI [of _ st]) (simp add: same_layout_def)
next
  case (Cons b cs)
  have "good_address mm_of st (t_pid cur) s" using spec [OF Cons.prems(2), of 0] by simp
  from store_byte_ok [OF Cons.prems(1) assms(2-5) this, of b] obtain st1 where
    st1: "store_byte E net_ops cur s b st = Some (Inr (Completed, st1))" "same_layout mm_of cur st st1"
      "\<forall>q c. user_byte mm_of st1 q c = (if q = t_pid cur \<and> c = s then b else user_byte mm_of st q c)" by blast
  have inv1: "net_inv mm_of st1" using st1(2) by (simp add: same_layout_def)
  have good1: "\<forall>i<length cs. good_address mm_of st1 (t_pid cur) (s + 1 + of_nat i)"
  proof (intro allI impI)
    fix i assume "i < length cs"
    then have "good_address mm_of st (t_pid cur) (s + of_nat (Suc i))" using Cons.prems(2) by (metis Suc_less_eq length_Cons)
    with st1(2) show "good_address mm_of st1 (t_pid cur) (s + 1 + of_nat i)" by (simp add: same_layout_def add.assoc)
  qed
  have "0 \<notin> set cs" "length cs < 2 ^ 64" using Cons.prems(3,4) by simp_all
  from Cons.IH [OF inv1 good1 this] obtain st' where
    st': "my_strcpy E net_ops cur (s + 1) (cs @ 0 # rest) st1 = Some (Inr (Completed, st'))" "same_layout mm_of cur st1 st'"
    and new: "\<And>i. i < length cs \<Longrightarrow> user_byte mm_of st' (t_pid cur) (s + 1 + of_nat i) = cs ! i"
    and old: "\<And>q c. q \<noteq> t_pid cur \<or> (\<forall>i<length cs. c \<noteq> s + 1 + of_nat i) \<Longrightarrow> user_byte mm_of st' q c = user_byte mm_of st1 q c"
    by blast
  have "\<forall>i<length cs. s \<noteq> s + 1 + of_nat i" using next_address [of _ s] Cons.prems(4) by fastforce
  then have here: "user_byte mm_of st' (t_pid cur) s = b" using old [of "t_pid cur" s] st1(3) by simp
  have "my_strcpy E net_ops cur s ((b # cs) @ 0 # rest) st = Some (Inr (Completed, st'))"
    using Cons.prems(3) st1(1) st'(1) by auto
  moreover have "user_byte mm_of st' (t_pid cur) (s + of_nat i) = (b # cs) ! i" if "i < length (b # cs)" for i
    using that here new [of "i - 1"] by (cases i) (simp_all add: add.assoc)
  moreover have "user_byte mm_of st' q c = user_byte mm_of st q c"
    if q: "q \<noteq> t_pid cur \<or> (\<forall>i<length (b # cs). c \<noteq> s + of_nat i)" for q c
  proof -
    have "q \<noteq> t_pid cur \<or> c \<noteq> s \<and> (\<forall>i<length cs. c \<noteq> s + 1 + of_nat i)"
    proof (cases "q = t_pid cur")
      case True
      with q have c: "c \<noteq> s + of_nat i" if "i < Suc (length cs)" for i using that by simp
      have "c \<noteq> s + 1 + of_nat i" if "i < length cs" for i using c [of "Suc i"] that by (simp add: add.assoc)
      then show ?thesis using c [of 0] by simp
    qed simp
    with old [of q c] st1(3) show ?thesis by auto
  qed
  ultimately show ?case using same_layout_trans [OF st1(2) st'(2)] by blast
qed

theorem my_strcpy_copies_witness:
  "\<exists>st'. my_strcpy linux_ref net_ops demo_cur 8190 [102, 111, 111, 98, 97, 114, 0] demo_state = Some (Inr (Completed, st')) \<and>
     user_byte unat st' 7 8190 = 102 \<and> user_byte unat st' 7 8195 = 114"
proof -
  let ?cs = "[102, 111, 111, 98, 97, 114] :: u8 list"
  have g: "good_address unat demo_state (t_pid demo_cur) (8190 + of_nat i)" if "i < length ?cs" for i
  proof (rule demo_good)
    have "i \<in> {0, 1, 2, 3, 4, 5}" using that by auto
    then show "8190 + of_nat i \<in> {4096..<12288 :: u64}" by auto
  qed
  have p: "t_pid demo_cur = 7" by (simp add: demo_cur_def)
  from my_strcpy_copies [OF demo_inv demo_mm_of(1) linux_ref_env_ok linux_ref_insert_total demo_mm_of(2), of ?cs 8190 "[]"] g
  obtain st' where s: "my_strcpy linux_ref net_ops demo_cur 8190 (?cs @ [0]) demo_state = Some (Inr (Completed, st'))"
    "\<forall>i<length ?cs. user_byte unat st' 7 (8190 + of_nat i) = ?cs ! i"
    unfolding p by auto
  from spec [OF s(2), of 0] spec [OF s(2), of 5] s(1) show ?thesis by (intro exI [of _ st']) simp
qed

lemma dump_loop_prints:
  assumes "net_inv mm_of st" and "inj mm_of" and "env_ok E" and "insert_total E" and "t_mm cur = mm_of (t_pid cur)"
    and "\<forall>j. i \<le> j \<and> j < i + n \<longrightarrow> good_address mm_of st (t_pid cur) (buffer + of_nat j)"
  shows "\<exists>st'. dump_loop E net_ops cur buffer m i n out st = Some (Inr (Some (out @
      concat (map (\<lambda>j. before_char m j @ [Chr (user_byte mm_of st (t_pid cur) (buffer + of_nat j))]) [i..<i + n]) @ [NewLine]), st')) \<and>
    same_layout mm_of cur st st' \<and> user_byte mm_of st' = user_byte mm_of st"
  using assms(1,6)
proof (induction n arbitrary: i out st)
  case 0
  then show ?case by (intro exI [of _ st]) (simp add: same_layout_def)
next
  case (Suc n)
  have "good_address mm_of st (t_pid cur) (buffer + of_nat i)" using Suc.prems(2) by simp
  from load_byte_correct [OF Suc.prems(1) assms(2-5) this] obtain st1 where
    st1: "load_byte E net_ops cur (buffer + of_nat i) st = Some (Inr (Some (user_byte mm_of st (t_pid cur) (buffer + of_nat i)), st1))"
      "same_layout mm_of cur st st1" "user_byte mm_of st1 = user_byte mm_of st" by blast
  have inv1: "net_inv mm_of st1" using st1(2) by (simp add: same_layout_def)
  have good1: "\<forall>j. Suc i \<le> j \<and> j < Suc i + n \<longrightarrow> good_address mm_of st1 (t_pid cur) (buffer + of_nat j)"
    using st1(2) Suc.prems(2) by (auto simp: same_layout_def)
  from Suc.IH [OF inv1 good1, of "out @ before_char m i @ [Chr (user_byte mm_of st (t_pid cur) (buffer + of_nat i))]"]
  obtain st' where st': "dump_loop E net_ops cur buffer m (Suc i) n (out @ before_char m i @
        [Chr (user_byte mm_of st (t_pid cur) (buffer + of_nat i))]) st1 = Some (Inr (Some ((out @ before_char m i @
        [Chr (user_byte mm_of st (t_pid cur) (buffer + of_nat i))]) @
      concat (map (\<lambda>j. before_char m j @ [Chr (user_byte mm_of st (t_pid cur) (buffer + of_nat j))]) [Suc i..<Suc i + n]) @ [NewLine]), st'))"
    "same_layout mm_of cur st1 st'" "user_byte mm_of st' = user_byte mm_of st"
    unfolding st1(3) by blast
  have "[i..<i + Suc n] = i # [Suc i..<Suc i + n]" by (simp add: upt_conv_Cons)
  with st1(1) st' same_layout_trans [OF st1(2) st'(2)] show ?case by (intro exI [of _ st']) simp
qed

text \<open>
  \<open>dump_buffer\<close> prints the bytes the process sees, in order and each once, with a line break
  before every thirtieth and the marker before every page; it changes none of them.
\<close>

theorem dump_prints_memory:
  assumes "net_inv mm_of st" and "inj mm_of" and "env_ok E" and "insert_total E" and "t_mm cur = mm_of (t_pid cur)"
    and "\<forall>j<n. good_address mm_of st (t_pid cur) (buffer + of_nat j)"
  shows "\<exists>st'. dump_buffer E net_ops cur buffer n m st = Some (Inr (Some (
      concat (map (\<lambda>j. before_char m j @ [Chr (user_byte mm_of st (t_pid cur) (buffer + of_nat j))]) [0..<n]) @ [NewLine]), st')) \<and>
    same_layout mm_of cur st st' \<and> user_byte mm_of st' = user_byte mm_of st"
  using dump_loop_prints [OF assms(1-5), of 0 n buffer m "[]"] assms(6) by (simp add: dump_buffer_def)

theorem dump_prints_memory_witness:
  "\<exists>st'. dump_buffer linux_ref net_ops demo_cur 8191 2 ''t1'' demo_state =
     Some (Inr (Some [NewLine, Marker ''t1'', Chr 0, Chr 0, NewLine], st'))"
proof -
  have g: "\<forall>j<2. good_address unat demo_state (t_pid demo_cur) (8191 + of_nat j)"
  proof (intro allI impI)
    fix j :: nat assume "j < 2"
    then have "j \<in> {0, 1}" by auto
    then show "good_address unat demo_state (t_pid demo_cur) (8191 + of_nat j)" by (intro demo_good) auto
  qed
  have "user_byte unat demo_state 7 a = 0" for a
    by (simp add: user_byte_def net_view_def page_view_def demo_state_def start_def zero_page_def)
  with dump_prints_memory [OF demo_inv demo_mm_of(1) linux_ref_env_ok linux_ref_insert_total demo_mm_of(2) g, of "''t1''"]
  show ?thesis by (auto simp: before_char_def demo_cur_def upt_rec)
qed

end
