(* ===== verification/ListHead.thy ===== *)
theory ListHead
  imports GenericMalloc
begin

text \<open>
  The list of regions as C has it: cells in memory, each with an embedded \<open>struct list_head\<close>, in a ring
  through a head that lies inside the area.  The other theories use HOL lists and cursors instead;
  here the three routines that walk or cut the ring by hand, \<open>can_remove_page\<close>,
  \<open>merge_neighbors_region\<close> and the access to the last entry, are modelled on pointers and shown to
  do what the list versions do.  \<open><linux/list.h>\<close> is a parameter with the laws of a ring.
\<close>

section \<open>The kernel's lists\<close>

type_synonym addr = nat

record 'l list_api =
  list_next :: "'l \<Rightarrow> addr \<Rightarrow> addr"   \<comment> \<open>\<open>list->next\<close>\<close>
  list_prev :: "'l \<Rightarrow> addr \<Rightarrow> addr"   \<comment> \<open>\<open>list->prev\<close>\<close>
  list_del :: "addr \<Rightarrow> 'l \<Rightarrow> 'l"

text \<open>\<open>ring L h xs\<close>: in memory \<open>L\<close> the entries \<open>xs\<close> are linked, in this order, into the list with head \<open>h\<close>.\<close>

locale kernel_list =
  fixes A :: "'l list_api" and ring :: "'l \<Rightarrow> addr \<Rightarrow> addr list \<Rightarrow> bool"
  assumes entries: "ring L h xs \<Longrightarrow> distinct (h # xs)"
    and next_ring: "ring L h xs \<Longrightarrow> map (list_next A L) (h # xs) = xs @ [h]"
    and prev_ring: "ring L h xs \<Longrightarrow> map (list_prev A L) (xs @ [h]) = h # xs"
    and del_ring: "ring L h (pre @ x # post) \<Longrightarrow> ring (list_del A x L) h (pre @ post)"

section \<open>Routines on pointers\<close>

text \<open>
  \<open>list_entry\<close> goes from the embedded \<open>list_head\<close> to the region around it, so an address stands for
  both.  The head has the fields of a region, too, but it is not an object of \<open>kmalloc\<close>.
\<close>

record 'l rheap =
  links :: 'l
  cells :: "addr \<Rightarrow> region_struct option"

definition list_is_first :: "'l list_api \<Rightarrow> 'l \<Rightarrow> addr \<Rightarrow> addr \<Rightarrow> bool" where
  "list_is_first A L item hed \<longleftrightarrow> list_next A L hed = item"

definition list_last_entry :: "'l list_api \<Rightarrow> 'l \<Rightarrow> addr \<Rightarrow> addr" where
  "list_last_entry A L hed = list_prev A L hed"

definition kfree_region :: "addr \<Rightarrow> addr \<Rightarrow> 'l rheap \<Rightarrow> kfault + 'l rheap" where
  "kfree_region first p H =
     (if p = first then Inl BadFree
      else if cells H p = None then Inl UseAfterFree
      else Inr (H\<lparr>cells := (cells H)(p := None)\<rparr>))"

text \<open>
  The two search loops of \<open>can_remove_page\<close>; they go round a ring, so that they end is part of what
  is proved.  The pointers they follow are never NULL.
\<close>

partial_function (option) scan_free ::
  "(addr \<Rightarrow> addr) \<Rightarrow> (addr \<Rightarrow> region_struct option) \<Rightarrow> addr \<Rightarrow> addr \<Rightarrow> addr \<Rightarrow> (kfault + addr) option" where
  "scan_free step cls hed item cur =
     (let item' = step item in
      if item' = hed then Some (Inr cur)
      else (case cls item' of
              None \<Rightarrow> Some (Inl UseAfterFree)
            | Some r \<Rightarrow> if r_free r \<noteq> 0 then scan_free step cls hed item' item' else Some (Inr item')))"

definition can_remove_page_ptr ::
  "'l list_api \<Rightarrow> u64 \<Rightarrow> addr \<Rightarrow> addr \<Rightarrow> 'l rheap \<Rightarrow> (kfault + bool) option" where
  "can_remove_page_ptr A address region rgns H =
     (let look = (\<lambda>found test. case found of None \<Rightarrow> None | Some (Inl e) \<Rightarrow> Some (Inl e)
           | Some (Inr p) \<Rightarrow> (case cells H p of None \<Rightarrow> Some (Inl UseAfterFree) | Some r \<Rightarrow> Some (Inr (test r))))
      in case (if list_is_first A (links H) region rgns then Some (Inr False)
               else look (scan_free (list_prev A (links H)) (cells H) rgns region region)
                      (\<lambda>prev. align_ceil (virtual_start prev + r_size prev) PAGE_SHIFT > address)) of
           None \<Rightarrow> None
         | Some (Inl e) \<Rightarrow> Some (Inl e)
         | Some (Inr True) \<Rightarrow> Some (Inr False)
         | Some (Inr False) \<Rightarrow>
             (case (if list_next A (links H) region = rgns then Some (Inr False)
                    else look (scan_free (list_next A (links H)) (cells H) rgns region region)
                           (\<lambda>next. align_floor (virtual_start next) PAGE_SHIFT < address + PAGE_SIZE)) of
                None \<Rightarrow> None
              | Some (Inl e) \<Rightarrow> Some (Inl e)
              | Some (Inr b) \<Rightarrow> Some (Inr (\<not> b))))"

text \<open>\<open>merge_neighbors_region\<close> in its three steps; \<open>first\<close> is the list head, which \<open>kfree\<close> must not get.\<close>

definition merge_next_ptr :: "'l list_api \<Rightarrow> addr \<Rightarrow> addr \<Rightarrow> 'l rheap \<Rightarrow> kfault + 'l rheap" where
  "merge_next_ptr A region first H =
     (let nxt = list_next A (links H) region in
      if nxt \<noteq> first then
        kbind (deref (cells H) nxt) (\<lambda>n.
          if r_free n = 1 then
            kbind (deref (cells H) region) (\<lambda>r.
              kfree_region first nxt
                (H\<lparr>links := list_del A nxt (links H),
                   cells := (cells H)(region \<mapsto> r\<lparr>r_size := r_size r + r_size n\<rparr>)\<rparr>))
          else Inr H)
      else Inr H)"

definition merge_prev_ptr :: "'l list_api \<Rightarrow> addr \<Rightarrow> addr \<Rightarrow> 'l rheap \<Rightarrow> kfault + addr \<times> 'l rheap" where
  "merge_prev_ptr A region first H =
     (let prev = list_prev A (links H) region in
      if region \<noteq> first then
        kbind (deref (cells H) prev) (\<lambda>p.
          if r_free p = 1 then
            kbind (deref (cells H) region) (\<lambda>r.
              kbind (kfree_region first region
                       (H\<lparr>links := list_del A region (links H),
                          cells := (cells H)(prev \<mapsto> p\<lparr>r_size := r_size p + r_size r\<rparr>)\<rparr>))
                (\<lambda>H'. Inr (prev, H')))
          else Inr (region, H))
      else Inr (region, H))"

definition remove_if_last_ptr :: "'l list_api \<Rightarrow> addr \<Rightarrow> addr \<Rightarrow> 'l rheap \<Rightarrow> kfault + 'l rheap" where
  "remove_if_last_ptr A region first H =
     (if list_next A (links H) region = first
      then kfree_region first region (H\<lparr>links := list_del A region (links H)\<rparr>)
      else Inr H)"

definition merge_neighbors_ptr :: "'l list_api \<Rightarrow> addr \<Rightarrow> addr \<Rightarrow> 'l rheap \<Rightarrow> kfault + 'l rheap" where
  "merge_neighbors_ptr A region first H =
     kbind (merge_next_ptr A region first H) (\<lambda>H1.
     kbind (merge_prev_ptr A region first H1) (\<lambda>(region', H2).
       remove_if_last_ptr A region' first H2))"

section \<open>What the pointers stand for\<close>

text \<open>The cells \<open>xs\<close> of the ring through \<open>h\<close> are the regions of an area, and \<open>h\<close> is its list head.\<close>

definition rep :: "('l \<Rightarrow> addr \<Rightarrow> addr list \<Rightarrow> bool) \<Rightarrow> 'l rheap \<Rightarrow> addr \<Rightarrow> addr list \<Rightarrow> region_struct \<Rightarrow> region_struct list \<Rightarrow> bool" where
  "rep ring H h xs hr rs \<longleftrightarrow> ring (links H) h xs \<and> cells H h = Some hr \<and> map (cells H) xs = map Some rs"

text \<open>
  What an operation that turns the list \<open>xs\<close> into \<open>ys\<close> does to the memory: the cells it takes out are
  freed, and nothing outside the list changes.
\<close>

definition tidy :: "addr \<Rightarrow> addr list \<Rightarrow> addr list \<Rightarrow> 'l rheap \<Rightarrow> 'l rheap \<Rightarrow> bool" where
  "tidy h xs ys H H' \<longleftrightarrow> set ys \<subseteq> set xs \<and> h \<notin> set xs \<and>
     (\<forall>p. p \<notin> set (h # xs) \<longrightarrow> cells H' p = cells H p) \<and> (\<forall>p\<in>set xs - set ys. cells H' p = None)"

lemma tidy_refl: "h \<notin> set xs \<Longrightarrow> tidy h xs xs H H"
  by (simp add: tidy_def)

lemma tidy_trans:
  assumes "tidy h xs ys H H'" and "tidy h ys zs H' H''"
  shows "tidy h xs zs H H''"
proof -
  have "cells H'' p = None" if p: "p \<in> set xs - set zs" for p
  proof (cases "p \<in> set ys")
    case False
    then have "cells H'' p = cells H' p" and "cells H' p = None" using p assms by (auto simp: tidy_def)
    then show ?thesis by simp
  qed (use p assms in \<open>auto simp: tidy_def\<close>)
  moreover have "cells H'' p = cells H p" if "p \<notin> set (h # xs)" for p
  proof -
    have "p \<notin> set (h # ys)" using that assms(1) by (auto simp: tidy_def)
    then have "cells H'' p = cells H' p" and "cells H' p = cells H p" using that assms by (simp_all add: tidy_def)
    then show ?thesis by simp
  qed
  ultimately show ?thesis using assms by (auto simp: tidy_def)
qed

lemma scan_free_step:
  "step item = x \<Longrightarrow> x \<noteq> hed \<Longrightarrow> cls x = Some r \<Longrightarrow>
     scan_free step cls hed item cur = (if r_free r \<noteq> 0 then scan_free step cls hed x x else Some (Inr x))"
  by (subst scan_free.simps) (simp add: Let_def)

text \<open>The search along a path \<open>xs\<close> that ends at the head is the search in the list.\<close>

lemma scan_free_path:
  assumes "map step (item # xs) = xs @ [hed]" and "hed \<notin> set xs"
    and "map cls xs = map Some rs" and "cls cur = Some c"
  shows "\<exists>p. scan_free step cls hed item cur = Some (Inr p) \<and> cls p = Some (scan_used c rs)"
  using assms
proof (induction xs arbitrary: item cur c rs)
  case Nil
  then show ?case by (subst scan_free.simps) simp
next
  case (Cons x xs)
  obtain r rs' where rs: "rs = r # rs'" "cls x = Some r" "map cls xs = map Some rs'" using Cons.prems(3) by (cases rs) auto
  have s: "step item = x" "map step (x # xs) = xs @ [hed]" using Cons.prems(1) by simp_all
  have x: "x \<noteq> hed" "hed \<notin> set xs" using Cons.prems(2) by auto
  note step = scan_free_step [where step = step and cls = cls, OF s(1) x(1) rs(2), of cur]
  show ?case
  proof (cases "r_free r = 0")
    case True
    then show ?thesis using step rs by simp
  next
    case False
    from Cons.IH [OF s(2) x(2) rs(3,2)] step False rs show ?thesis by simp
  qed
qed

section \<open>The routines on any such list\<close>

lemma map_split:
  assumes "map f (h # pre @ x # post) = (pre @ x # post) @ [h]"
  shows "map f (h # pre) = pre @ [x]" and "map f (x # post) = post @ [h]"
proof -
  have "map f (h # pre) @ map f (x # post) = (pre @ [x]) @ (post @ [h])" using assms by simp
  then have "map f (h # pre) = pre @ [x] \<and> map f (x # post) = post @ [h]"
    by (subst (asm) append_eq_append_conv) simp_all
  then show "map f (h # pre) = pre @ [x]" and "map f (x # post) = post @ [h]" by simp_all
qed

lemma map_split_back:
  assumes "map f ((pre @ x # post) @ [h]) = h # pre @ x # post"
  shows "map f (pre @ [x]) = h # pre" and "map f (post @ [h]) = x # post"
proof -
  have "map f (pre @ [x]) @ map f (post @ [h]) = (h # pre) @ (x # post)" using assms by simp
  then have "map f (pre @ [x]) = h # pre \<and> map f (post @ [h]) = x # post"
    by (subst (asm) append_eq_append_conv) simp_all
  then show "map f (pre @ [x]) = h # pre" and "map f (post @ [h]) = x # post" by simp_all
qed

lemma map_snoc_last: "map f (pre @ [x]) = h # pre \<Longrightarrow> f x = last (h # pre)"
  by (metis last_ConsR last_map last_snoc map_is_Nil_conv snoc_eq_iff_butlast)

context kernel_list begin

lemma at_entry:
  assumes "ring L h (pre @ x # post)"
  shows "list_next A L x = hd (post @ [h])" and "list_prev A L x = last (h # pre)"
    and "map (list_next A L) (x # post) = post @ [h]" and "map (list_prev A L) (x # rev pre) = rev pre @ [h]"
    and "x \<noteq> h" and "h \<notin> set pre" and "h \<notin> set post" and "x \<notin> set pre" and "x \<notin> set post"
proof -
  note n = map_split (2) [OF next_ring [OF assms]]
  note p = map_split_back (1) [OF prev_ring [OF assms]]
  show "map (list_next A L) (x # post) = post @ [h]" by (rule n)
  have "rev (map (list_prev A L) (pre @ [x])) = rev (h # pre)" by (simp only: p)
  then show "map (list_prev A L) (x # rev pre) = rev pre @ [h]" by (simp add: rev_map)
  show "list_next A L x = hd (post @ [h])" using n by (cases post) auto
  show "list_prev A L x = last (h # pre)" by (rule map_snoc_last [OF p])
qed (use entries [OF assms] in auto)

lemma first_entry: "ring L h (pre @ x # post) \<Longrightarrow> list_is_first A L x h \<longleftrightarrow> pre = []"
  using next_ring [of L h "pre @ x # post"] at_entry(8) [of L h pre x post]
  by (cases pre) (auto simp: list_is_first_def)

lemma last_next: "ring L h (pre @ x # post) \<Longrightarrow> list_next A L x = h \<longleftrightarrow> post = []"
  using at_entry(1,7) [of L h pre x post] by (cases post) auto

lemma last_entry: "ring L h xs \<Longrightarrow> list_last_entry A L h = last (h # xs)"
  using prev_ring [of L h xs] map_snoc_last [of "list_prev A L" xs h h] by (simp add: list_last_entry_def)

lemma rep_parts:
  assumes "rep ring H h (ps @ x # qs) hr (pre @ r # post)" and "length ps = length pre"
  shows "ring (links H) h (ps @ x # qs)" and "cells H h = Some hr" and "cells H x = Some r"
    and "map (cells H) ps = map Some pre" and "map (cells H) qs = map Some post"
proof -
  have m: "map (cells H) ps @ cells H x # map (cells H) qs = map Some pre @ Some r # map Some post"
    using assms(1) by (simp add: rep_def)
  have "map (cells H) ps = map Some pre \<and> cells H x # map (cells H) qs = Some r # map Some post"
    using m assms(2) by (subst (asm) append_eq_append_conv) simp_all
  then show "cells H x = Some r" "map (cells H) ps = map Some pre" "map (cells H) qs = map Some post" by simp_all
qed (use assms(1) in \<open>auto simp: rep_def\<close>)

lemma rep_del:
  assumes "rep ring H h (ps @ x # qs) hr (pre @ r # post)" and "length ps = length pre"
  shows "rep ring (H\<lparr>links := list_del A x (links H), cells := (cells H)(x := None)\<rparr>) h (ps @ qs) hr (pre @ post)"
    and "tidy h (ps @ x # qs) (ps @ qs) H (H\<lparr>links := list_del A x (links H), cells := (cells H)(x := None)\<rparr>)"
proof -
  note p = rep_parts [OF assms] and e = at_entry (5-) [OF rep_parts (1) [OF assms]]
  have m: "map ((cells H)(x := None)) ys = map (cells H) ys" if "x \<notin> set ys" for ys using that by (intro map_cong) auto
  show "rep ring (H\<lparr>links := list_del A x (links H), cells := (cells H)(x := None)\<rparr>) h (ps @ qs) hr (pre @ post)"
    using p e del_ring [OF p(1)] by (simp add: rep_def m)
  show "tidy h (ps @ x # qs) (ps @ qs) H (H\<lparr>links := list_del A x (links H), cells := (cells H)(x := None)\<rparr>)"
    using e by (auto simp: tidy_def)
qed

lemma rep_set:
  assumes "rep ring H h (ps @ x # qs) hr (pre @ r # post)" and "length ps = length pre"
  shows "rep ring (H\<lparr>cells := (cells H)(x \<mapsto> r')\<rparr>) h (ps @ x # qs) hr (pre @ r' # post)"
    and "tidy h (ps @ x # qs) (ps @ x # qs) H (H\<lparr>cells := (cells H)(x \<mapsto> r')\<rparr>)"
proof -
  note p = rep_parts [OF assms] and e = at_entry (5-) [OF rep_parts (1) [OF assms]]
  have m: "map ((cells H)(x \<mapsto> r')) ys = map (cells H) ys" if "x \<notin> set ys" for ys using that by (intro map_cong) auto
  show "rep ring (H\<lparr>cells := (cells H)(x \<mapsto> r')\<rparr>) h (ps @ x # qs) hr (pre @ r' # post)"
    using p e by (simp add: rep_def m)
  show "tidy h (ps @ x # qs) (ps @ x # qs) H (H\<lparr>cells := (cells H)(x \<mapsto> r')\<rparr>)"
    using e by (auto simp: tidy_def)
qed

lemma rep_set_head:
  assumes "rep ring H h xs hr rs"
  shows "rep ring (H\<lparr>cells := (cells H)(h \<mapsto> hr')\<rparr>) h xs hr' rs"
    and "tidy h xs xs H (H\<lparr>cells := (cells H)(h \<mapsto> hr')\<rparr>)"
proof -
  have h: "h \<notin> set xs" using assms entries [of "links H" h xs] by (simp add: rep_def)
  have m: "map ((cells H)(h \<mapsto> hr')) xs = map (cells H) xs" using h by (intro map_cong) auto
  show "rep ring (H\<lparr>cells := (cells H)(h \<mapsto> hr')\<rparr>) h xs hr' rs" using assms by (simp add: rep_def m)
  show "tidy h xs xs H (H\<lparr>cells := (cells H)(h \<mapsto> hr')\<rparr>)" using h by (auto simp: tidy_def)
qed

theorem can_remove_page_ptr_eq:
  assumes "rep ring H h (ps @ x # qs) hr (pre @ r # post)" and "length ps = length pre"
  shows "can_remove_page_ptr A address x h H = Some (Inr (can_remove_page address (pre, r, post)))"
proof -
  note p = rep_parts [OF assms] and e = at_entry [OF rep_parts (1) [OF assms]]
  have r: "map (cells H) (rev ps) = map Some (rev pre)" using p(4) by (metis rev_map)
  from scan_free_path [OF e(4) _ r p(3)] e(6) obtain f where
    f: "scan_free (list_prev A (links H)) (cells H) h x x = Some (Inr f)" "cells H f = Some (scan_used r (rev pre))" by auto
  from scan_free_path [OF e(3) e(7) p(5) p(3)] obtain g where
    g: "scan_free (list_next A (links H)) (cells H) h x x = Some (Inr g)" "cells H g = Some (scan_used r post)" by auto
  have n: "ps = [] \<longleftrightarrow> pre = []" "qs = [] \<longleftrightarrow> post = []" using assms(2) p(5) by auto
  show ?thesis
    by (simp add: can_remove_page_ptr_def can_remove_page_def first_entry [OF p(1)] last_next [OF p(1)] f g n Let_def)
qed

lemma merge_next_ptr_ok:
  assumes "rep ring H h (ps @ x # qs) hr (pre @ r # post)" and "length ps = length pre"
    and "merge_next r post = (r', post')"
  obtains H' qs' where "merge_next_ptr A x h H = Inr H'" and "rep ring H' h (ps @ x # qs') hr (pre @ r' # post')"
    and "tidy h (ps @ x # qs) (ps @ x # qs') H H'"
proof (cases "\<exists>n rest. post = n # rest \<and> r_free n = 1")
  case True
  then obtain n rest where n: "post = n # rest" "r_free n = 1" by blast
  then have r': "r' = r\<lparr>r_size := r_size r + r_size n\<rparr>" "post' = rest" using assms(3) by (simp_all add: merge_next_def)
  obtain y qs' where qs: "qs = y # qs'" using rep_parts (5) [OF assms(1,2)] n(1) by (cases qs) auto
  note p = rep_parts [OF assms(1,2)] and e = at_entry [OF rep_parts (1) [OF assms(1,2)]]
  let ?H = "H\<lparr>cells := (cells H)(x \<mapsto> r')\<rparr>"
  let ?H' = "?H\<lparr>links := list_del A y (links ?H), cells := (cells ?H)(y := None)\<rparr>"
  note s = rep_set [OF assms(1,2), of r']
  have l: "length (ps @ [x]) = length (pre @ [r'])" using assms(2) by simp
  have s': "rep ring ?H h ((ps @ [x]) @ y # qs') hr ((pre @ [r']) @ n # rest)" using s(1) by (simp add: qs n(1))
  note d = rep_del [OF s' l]
  have y: "y \<noteq> h" "y \<noteq> x" "cells H y = Some n" "list_next A (links H) x = y" using e p(5) by (auto simp: qs n(1))
  have "merge_next_ptr A x h H = Inr ?H'" using y p(3) n(2) by (simp add: merge_next_ptr_def kfree_region_def r' Let_def)
  moreover have "rep ring ?H' h (ps @ x # qs') hr (pre @ r' # post')" using d(1) by (simp add: r'(2))
  moreover have "tidy h (ps @ x # qs) (ps @ x # qs') H ?H'"
    by (rule tidy_trans [OF s(2)]) (use d(2) in \<open>simp add: qs\<close>)
  ultimately show thesis by (rule that)
next
  case False
  then have r': "r' = r" "post' = post" using assms(3) by (auto simp: merge_next_def split: list.splits if_splits)
  note p = rep_parts [OF assms(1,2)] and e = at_entry [OF rep_parts (1) [OF assms(1,2)]]
  have "merge_next_ptr A x h H = Inr H"
  proof (cases qs)
    case (Cons y qs')
    then obtain n rest where n: "post = n # rest" "cells H y = Some n" using p(5) by (cases post) auto
    then show ?thesis using Cons False e(1) by (simp add: merge_next_ptr_def)
  qed (simp add: merge_next_ptr_def e(1))
  moreover have "tidy h (ps @ x # qs) (ps @ x # qs) H H" using e(5-7) by (intro tidy_refl) auto
  ultimately show thesis using that [of H qs] assms(1) by (simp add: r')
qed

lemma remove_if_last_ptr_ok:
  assumes "rep ring H h (ps @ x # qs) hr (pre @ r # post)" and "length ps = length pre"
  obtains H' ys where "remove_if_last_ptr A x h H = Inr H'" and "rep ring H' h ys hr (remove_if_last pre r post)"
    and "tidy h (ps @ x # qs) ys H H'"
proof (cases "post = []")
  case True
  then have qs: "qs = []" using rep_parts (5) [OF assms] by simp
  note p = rep_parts [OF assms] and e = at_entry [OF rep_parts (1) [OF assms]]
  let ?H' = "H\<lparr>links := list_del A x (links H), cells := (cells H)(x := None)\<rparr>"
  have "remove_if_last_ptr A x h H = Inr ?H'"
    using p(3) e(1,5) by (simp add: remove_if_last_ptr_def kfree_region_def qs)
  then show thesis using that [of ?H' ps] rep_del [OF assms] True qs by (simp add: remove_if_last_def)
next
  case False
  then have "remove_if_last_ptr A x h H = Inr H"
    using last_next [OF rep_parts (1) [OF assms]] rep_parts (5) [OF assms] by (auto simp: remove_if_last_ptr_def)
  moreover have "tidy h (ps @ x # qs) (ps @ x # qs) H H"
    using at_entry (5-7) [OF rep_parts (1) [OF assms]] by (intro tidy_refl) auto
  ultimately show thesis using that [of H "ps @ x # qs"] assms(1) False by (simp add: remove_if_last_def)
qed

lemma merge_prev_ptr_keep:
  assumes "rep ring H h (ps @ x # qs) hr (pre @ r # post)" and "length ps = length pre"
    and "r_free (last (hr # pre)) \<noteq> 1"
  shows "merge_prev_ptr A x h H = Inr (x, H)"
proof -
  note p = rep_parts [OF assms(1,2)] and e = at_entry [OF rep_parts (1) [OF assms(1,2)]]
  have "map (cells H) (h # ps) = map Some (hr # pre)" using p by simp
  then have "cells H (last (h # ps)) = Some (last (hr # pre))" by (metis last_map list.distinct(1))
  then show ?thesis using assms(3) by (simp only: merge_prev_ptr_def Let_def e(2)) simp
qed

lemma merge_prev_ptr_join:
  assumes "rep ring H h ((ps @ [y]) @ x # qs) hr ((pre @ [p]) @ r # post)" and "length ps = length pre" and "r_free p = 1"
  obtains H' where "merge_prev_ptr A x h H = Inr (y, H')"
    and "rep ring H' h (ps @ y # qs) hr (pre @ p\<lparr>r_size := r_size p + r_size r\<rparr> # post)"
    and "tidy h (ps @ y # x # qs) (ps @ y # qs) H H'"
proof -
  have l: "length (ps @ [y]) = length (pre @ [p])" using assms(2) by simp
  note q = rep_parts [OF assms(1) l] and e = at_entry [OF rep_parts (1) [OF assms(1) l]]
  have as: "rep ring H h (ps @ y # x # qs) hr (pre @ p # r # post)" using assms(1) by simp
  let ?p = "p\<lparr>r_size := r_size p + r_size r\<rparr>"
  let ?H = "H\<lparr>cells := (cells H)(y \<mapsto> ?p)\<rparr>"
  let ?H' = "?H\<lparr>links := list_del A x (links ?H), cells := (cells ?H)(x := None)\<rparr>"
  note s = rep_set [OF as assms(2), of ?p]
  have s': "rep ring ?H h ((ps @ [y]) @ x # qs) hr ((pre @ [?p]) @ r # post)" using s(1) by simp
  have l': "length (ps @ [y]) = length (pre @ [?p])" using assms(2) by simp
  note d = rep_del [OF s' l']
  have y: "y \<noteq> x" "cells H y = Some p" "list_prev A (links H) x = y" using e rep_parts (3) [OF as assms(2)] by auto
  have "merge_prev_ptr A x h H = Inr (y, ?H')"
    using y q(3) e(5) assms(3) by (simp add: merge_prev_ptr_def kfree_region_def Let_def)
  moreover have "tidy h (ps @ y # x # qs) (ps @ y # qs) H ?H'"
    by (rule tidy_trans [OF s(2)]) (use d(2) in simp)
  ultimately show thesis using that [of ?H'] d(1) by simp
qed

lemma merge_prev_ptr_head:
  assumes "rep ring H h (x # qs) hr (r # post)" and "r_free hr = 1"
  obtains H' where "merge_prev_ptr A x h H = Inr (h, H')"
    and "rep ring H' h qs (hr\<lparr>r_size := r_size hr + r_size r\<rparr>) post"
    and "tidy h (x # qs) qs H H'"
proof -
  have as: "rep ring H h ([] @ x # qs) hr ([] @ r # post)" using assms(1) by simp
  have l: "length ([] :: addr list) = length ([] :: region_struct list)" by simp
  note q = rep_parts [OF as l] and e = at_entry [OF rep_parts (1) [OF as l]]
  let ?hr = "hr\<lparr>r_size := r_size hr + r_size r\<rparr>"
  let ?H = "H\<lparr>cells := (cells H)(h \<mapsto> ?hr)\<rparr>"
  let ?H' = "?H\<lparr>links := list_del A x (links ?H), cells := (cells ?H)(x := None)\<rparr>"
  note s = rep_set_head [OF as, of ?hr]
  note d = rep_del [OF s(1) l]
  have "merge_prev_ptr A x h H = Inr (h, ?H')"
    using q(2,3) e(2,5) assms(2) by (simp add: merge_prev_ptr_def kfree_region_def Let_def)
  moreover have "tidy h (x # qs) qs H ?H'"
    by (rule tidy_trans [where ys = "x # qs"]) (use s(2) d(2) in simp_all)
  ultimately show thesis using that [of ?H'] d(1) by simp
qed

lemma remove_if_last_ptr_head:
  assumes "rep ring H h xs hr rs"
  shows "remove_if_last_ptr A h h H = (if rs = [] then Inl BadFree else Inr H)"
proof -
  have "xs = [] \<longleftrightarrow> rs = []" using assms by (auto simp: rep_def)
  moreover have "list_next A (links H) h = h \<longleftrightarrow> xs = []"
    using assms next_ring [of "links H" h xs] entries [of "links H" h xs] by (cases xs) (auto simp: rep_def)
  ultimately show ?thesis by (auto simp: remove_if_last_ptr_def kfree_region_def)
qed

theorem merge_neighbors_ptr_ok:
  assumes rep: "rep ring H h (ps @ x # qs) (head area) (pre @ r # post)" and len: "length ps = length pre"
  shows "case merge_neighbors_region area pre r post of
           Inl e \<Rightarrow> merge_neighbors_ptr A x h H = Inl e
         | Inr area' \<Rightarrow> \<exists>H' ys. merge_neighbors_ptr A x h H = Inr H' \<and>
             rep ring H' h ys (head area') (regions area') \<and> tidy h (ps @ x # qs) ys H H'"
proof -
  obtain r' post' where m: "merge_next r post = (r', post')" by fastforce
  from merge_next_ptr_ok [OF rep len m] obtain H1 qs' where
    1: "merge_next_ptr A x h H = Inr H1" "rep ring H1 h (ps @ x # qs') (head area) (pre @ r' # post')"
       "tidy h (ps @ x # qs) (ps @ x # qs') H H1" by blast
  show ?thesis
  proof (cases "r_free (last (head area # pre)) = 1")
    case False
    from remove_if_last_ptr_ok [OF 1(2) len] obtain H2 ys where
      2: "remove_if_last_ptr A x h H1 = Inr H2" "rep ring H2 h ys (head area) (remove_if_last pre r' post')"
         "tidy h (ps @ x # qs') ys H1 H2" by blast
    have "merge_neighbors_ptr A x h H = Inr H2"
      using 1(1) 2(1) merge_prev_ptr_keep [OF 1(2) len False] by (simp add: merge_neighbors_ptr_def)
    then show ?thesis using False 2(2) tidy_trans [OF 1(3) 2(3)]
      by (auto simp: merge_neighbors_region_def m split: if_splits)
  next
    case True
    show ?thesis
    proof (cases "pre = []")
      case [simp]: True
      then have [simp]: "ps = []" using len by simp
      have f: "r_free (head area) = 1" using \<open>r_free (last (head area # pre)) = 1\<close> by simp
      have h: "rep ring H1 h (x # qs') (head area) (r' # post')" using 1(2) by simp
      from merge_prev_ptr_head [OF h f] obtain H2 where
        2: "merge_prev_ptr A x h H1 = Inr (h, H2)" "tidy h (x # qs') qs' H1 H2"
           "rep ring H2 h qs' ((head area)\<lparr>r_size := r_size (head area) + r_size r'\<rparr>) post'" by blast
      have 3: "merge_neighbors_ptr A x h H = (if post' = [] then Inl BadFree else Inr H2)"
        using 1(1) 2(1) remove_if_last_ptr_head [OF 2(3)] by (simp add: merge_neighbors_ptr_def)
      have "tidy h (x # qs) qs' H H2" by (rule tidy_trans [OF _ 2(2)]) (use 1(3) in simp)
      then show ?thesis using 2(3) 3 f by (auto simp: merge_neighbors_region_def m)
    next
      case False
      then obtain pre0 p where pre: "pre = pre0 @ [p]" by (metis rev_exhaust)
      then obtain ps0 y where ps: "ps = ps0 @ [y]" using len by (metis length_0_conv rev_exhaust snoc_eq_iff_butlast)
      have l0: "length ps0 = length pre0" using len by (simp add: pre ps)
      have f: "r_free p = 1" using True pre by simp
      from merge_prev_ptr_join [OF 1(2) [unfolded pre ps] l0 f] obtain H2 where
        2: "merge_prev_ptr A x h H1 = Inr (y, H2)" "tidy h (ps0 @ y # x # qs') (ps0 @ y # qs') H1 H2"
           "rep ring H2 h (ps0 @ y # qs') (head area) (pre0 @ p\<lparr>r_size := r_size p + r_size r'\<rparr> # post')" by blast
      from remove_if_last_ptr_ok [OF 2(3) l0] obtain H3 ys where
        3: "remove_if_last_ptr A y h H2 = Inr H3" "tidy h (ps0 @ y # qs') ys H2 H3"
           "rep ring H3 h ys (head area) (remove_if_last pre0 (p\<lparr>r_size := r_size p + r_size r'\<rparr>) post')" by blast
      have "merge_neighbors_ptr A x h H = Inr H3"
        using 1(1) 2(1) 3(1) by (simp add: merge_neighbors_ptr_def)
      moreover have "tidy h (ps @ x # qs) ys H H3"
        by (rule tidy_trans [OF 1(3) tidy_trans [OF _ 3(2)]]) (use 2(2) in \<open>simp add: ps\<close>)
      ultimately show ?thesis using 3(3) f by (auto simp: merge_neighbors_region_def m pre)
    qed
  qed
qed

end

section \<open>The rings of \<open><linux/list.h>\<close>\<close>

text \<open>Two pointers per entry; \<open>list_del\<close> joins the neighbours and poisons the pointers of the entry.\<close>

record ring_mem =
  nxt :: "addr \<Rightarrow> addr"
  prv :: "addr \<Rightarrow> addr"

definition LIST_POISON1 :: addr where "LIST_POISON1 = 0xdead000000100100"
definition LIST_POISON2 :: addr where "LIST_POISON2 = 0xdead000000200200"

definition linux_list :: "ring_mem list_api" where
  "linux_list = \<lparr>list_next = nxt, list_prev = prv,
     list_del = (\<lambda>x L. L\<lparr>nxt := (nxt L)(prv L x := nxt L x, x := LIST_POISON1),
                           prv := (prv L)(nxt L x := prv L x, x := LIST_POISON2)\<rparr>)\<rparr>"

definition linux_ring :: "ring_mem \<Rightarrow> addr \<Rightarrow> addr list \<Rightarrow> bool" where
  "linux_ring L h xs \<longleftrightarrow> distinct (h # xs) \<and> map (nxt L) (h # xs) = xs @ [h] \<and> map (prv L) (xs @ [h]) = h # xs"

lemma map_fun_upd_notin: "x \<notin> set xs \<Longrightarrow> map (f(x := y)) xs = map f xs"
  by (intro map_cong) auto

text \<open>\<open>list_del\<close> in a path: the pointer of the entry before \<open>x\<close> skips it.\<close>

lemma map_skip:
  assumes "map f (h # pre) = pre @ [x]" and "map f (x # post) = post @ [h]" and "distinct (h # pre @ x # post)"
  shows "map (f(last (h # pre) := f x, x := z)) (h # pre @ post) = (pre @ post) @ [h]"
proof -
  obtain us u where u: "h # pre = us @ [u]" by (metis rev_exhaust list.distinct(1))
  have d: "distinct ((us @ [u]) @ x # post)" using assms(3) unfolding u [symmetric] by simp
  have f: "map f us = pre" using assms(1) unfolding u by simp
  have "map (f(u := f x, x := z)) ((us @ [u]) @ post) = map f us @ map f (x # post)"
    using d by (auto simp: map_fun_upd_notin)
  then show ?thesis using assms(2) f u by (simp flip: append_Cons)
qed

interpretation linux: kernel_list linux_list linux_ring
proof
  fix L :: ring_mem and h x xs pre post
  show "linux_ring L h xs \<Longrightarrow> distinct (h # xs)" by (simp add: linux_ring_def)
  show "linux_ring L h xs \<Longrightarrow> map (list_next linux_list L) (h # xs) = xs @ [h]"
    by (simp add: linux_ring_def linux_list_def)
  show "linux_ring L h xs \<Longrightarrow> map (list_prev linux_list L) (xs @ [h]) = h # xs"
    by (simp add: linux_ring_def linux_list_def)
  assume "linux_ring L h (pre @ x # post)"
  then have d: "distinct (h # pre @ x # post)"
    and n: "map (nxt L) (h # pre @ x # post) = (pre @ x # post) @ [h]"
    and p: "map (prv L) ((pre @ x # post) @ [h]) = h # pre @ x # post" by (simp_all add: linux_ring_def)
  note n' = map_split [OF n] and p' = map_split_back [OF p]
  have px: "prv L x = last (h # pre)" by (rule map_snoc_last [OF p'(1)])
  have nx: "nxt L x = last (h # rev post)" using n'(2) by (cases post) auto
  have pn: "map (prv L) (h # rev post) = rev post @ [x]"
    using arg_cong [OF p'(2), of rev] by (simp add: rev_map)
  have pp: "map (prv L) (x # rev pre) = rev pre @ [h]"
    using arg_cong [OF p'(1), of rev] by (simp add: rev_map)
  have d': "distinct (h # rev post @ x # rev pre)" using d by auto
  have "rev (map ((prv L)(last (h # rev post) := prv L x, x := LIST_POISON2)) (h # rev post @ rev pre)) = rev ((rev post @ rev pre) @ [h])"
    by (simp only: map_skip [OF pn pp d'])
  then have b: "map ((prv L)(nxt L x := prv L x, x := LIST_POISON2)) ((pre @ post) @ [h]) = h # pre @ post"
    unfolding nx by (simp add: rev_map)
  show "linux_ring (list_del linux_list x L) h (pre @ post)"
    using map_skip [OF n' d, of LIST_POISON1] b d by (simp add: linux_ring_def linux_list_def px)
qed

section \<open>Correctness on pointers\<close>

text \<open>
  C25. On the list of cells in memory, \<open>can_remove_page\<close> returns, it follows no pointer to freed
  memory, and it answers what the search over the list of regions answers.
\<close>

theorem can_remove_page_on_pointers:
  assumes "rep linux_ring H h (ps @ x # qs) hr (pre @ r # post)" and "length ps = length pre"
  shows "can_remove_page_ptr linux_list address x h H = Some (Inr (can_remove_page address (pre, r, post)))"
  by (rule linux.can_remove_page_ptr_eq [OF assms])

text \<open>Three regions in the cells 101, 102 and 103 of a list with head 100; the first and the last are free.\<close>

definition demo_ring :: "ring_mem rheap" where
  "demo_ring = \<lparr>links = \<lparr>nxt = (\<lambda>_. 0)(100 := 101, 101 := 102, 102 := 103, 103 := 100),
                          prv = (\<lambda>_. 0)(100 := 103, 101 := 100, 102 := 101, 103 := 102)\<rparr>,
     cells = [100 \<mapsto> \<lparr>r_free = 0, r_size = 0, virtual_start = 0\<rparr>,
              101 \<mapsto> \<lparr>r_free = 1, r_size = 100, virtual_start = 0x10000\<rparr>,
              102 \<mapsto> \<lparr>r_free = 0, r_size = 200, virtual_start = 0x10064\<rparr>,
              103 \<mapsto> \<lparr>r_free = 1, r_size = 300, virtual_start = 0x1012c\<rparr>]\<rparr>"

lemma demo_ring_rep:
  "rep linux_ring demo_ring 100 ([101] @ 102 # [103]) \<lparr>r_free = 0, r_size = 0, virtual_start = 0\<rparr>
     ([\<lparr>r_free = 1, r_size = 100, virtual_start = 0x10000\<rparr>] @ \<lparr>r_free = 0, r_size = 200, virtual_start = 0x10064\<rparr> #
      [\<lparr>r_free = 1, r_size = 300, virtual_start = 0x1012c\<rparr>])"
  by (simp add: rep_def linux_ring_def demo_ring_def)

theorem can_remove_page_on_pointers_witness:
  "can_remove_page_ptr linux_list 0x20000 102 100 demo_ring = Some (Inr (can_remove_page 0x20000
     ([\<lparr>r_free = 1, r_size = 100, virtual_start = 0x10000\<rparr>], \<lparr>r_free = 0, r_size = 200, virtual_start = 0x10064\<rparr>,
      [\<lparr>r_free = 1, r_size = 300, virtual_start = 0x1012c\<rparr>])))"
  by (rule can_remove_page_on_pointers [OF demo_ring_rep]) simp

text \<open>
  C18. On the list of cells in memory, \<open>merge_neighbors_region\<close> does what its version on lists
  does: the cells that are linked afterwards hold the merged list, the cells that were taken out are
  freed, each once and none is lost, and no other memory changes; the one failure is the \<open>kfree\<close> of the
  list head, in the same situation.
\<close>

theorem merge_neighbors_on_pointers:
  assumes "rep linux_ring H h (ps @ x # qs) (head area) (pre @ r # post)" and "length ps = length pre"
  shows "case merge_neighbors_region area pre r post of
           Inl e \<Rightarrow> merge_neighbors_ptr linux_list x h H = Inl e
         | Inr area' \<Rightarrow> \<exists>H' ys. merge_neighbors_ptr linux_list x h H = Inr H' \<and>
             rep linux_ring H' h ys (head area') (regions area') \<and> tidy h (ps @ x # qs) ys H H'"
  by (rule linux.merge_neighbors_ptr_ok [OF assms])

text \<open>All three become one, the last of the area, and are freed.\<close>

theorem merge_neighbors_on_pointers_witness:
  "\<exists>H'. merge_neighbors_ptr linux_list 102 100 demo_ring = Inr H' \<and>
     rep linux_ring H' 100 [] \<lparr>r_free = 0, r_size = 0, virtual_start = 0\<rparr> [] \<and> tidy 100 [101, 102, 103] [] demo_ring H'"
proof -
  let ?a = "\<lparr>a_vma = None, a_pid = 0, a_size = 0, free_space = 0,
             head = \<lparr>r_free = 0, r_size = 0, virtual_start = 0\<rparr>, regions = []\<rparr>"
  have "rep linux_ring demo_ring 100 ([101] @ 102 # [103]) (head ?a)
     ([\<lparr>r_free = 1, r_size = 100, virtual_start = 0x10000\<rparr>] @ \<lparr>r_free = 0, r_size = 200, virtual_start = 0x10064\<rparr> #
      [\<lparr>r_free = 1, r_size = 300, virtual_start = 0x1012c\<rparr>])" using demo_ring_rep by simp
  from merge_neighbors_on_pointers [OF this] show ?thesis
    by (auto simp: merge_neighbors_region_def merge_next_def remove_if_last_def rep_def)
qed

end
