(* ===== verification/Spec2Isabelle.thy ===== *)
theory Spec2Isabelle
  imports AreaProps2 Netmalloc Findings Heap Survival Wire Locking Threads Dump UserMem ListHead
begin

text \<open>
  netmalloc: memory allocation over the network.

  The program.  A Linux kernel module gives user programs two system calls, \<open>netmalloc\<close> and
  \<open>netfree\<close>.  The bytes of an allocated region live on a server; at most two pages of a process
  are in kernel memory at a time and are moved in and out by the page fault handler.
  \<open>src/src/netmalloc.c\<close> loads the module: it patches two entries of the table of system calls
  (\<open>syscall.c\<close>) and starts the allocator (\<open>generic_malloc.c\<close>) with the network storage
  (\<open>storage.c\<close>, over \<open>socket.c\<close> and \<open>protocol.h\<close>).  The allocator keeps three global lists:
  the areas, one for each VMA of the module, with the regions handed out inside it (\<open>area.c\<close>,
  over \<open>vma.c\<close> and \<open>kutils.h\<close>); the index of the pages that are in the storage
  (\<open>stored_page.c\<close>); and for each process a buffer with its two resident pages
  (\<open>mapped_buffer.c\<close>).  \<open>src/server/server.py\<close> is the peer of the network storage.

  How the model is built.  A struct is a record, a linked list a list, a pointer into a list an
  index, a pointer to a kernel object a number looked up in a map (a freed object has left the
  map).  \<open>unsigned long\<close> is \<open>64 word\<close>, so all address and size arithmetic wraps as in C.  Every
  operation that dereferences a pointer returns \<open>kfault + 'a\<close>: \<open>Inl\<close> is the death of the kernel
  thread (NULL, use after free, bad free, write to a read-only page); error codes and NULL
  results are values inside \<open>Inr\<close>.  Allocation failures are choices of the environment.

  Theories and sources.

  \<^item> \<open>Prelude\<close>: machine types, the result type with \<open>kbind\<close>, \<open>deref\<close>, word and list lemmas.
  \<^item> \<open>Kutils\<close>: \<open>kutils.h\<close>, the two alignment functions.
  \<^item> \<open>Kernel\<close>: the kernel as a record of functions \<open>kenv\<close>, what its documentation promises
    (\<open>insert_vm_ok\<close>, \<open>munmap_ok\<close>, \<open>paging_ok\<close>) and one environment that keeps it, \<open>linux_ref\<close>.
  \<^item> \<open>Vma\<close>: \<open>vma.c\<close>, the search for free address space, creating and removing VMAs.
  \<^item> \<open>Region\<close>, \<open>Area\<close>: \<open>area.c\<close>, regions inside one area, then the list of areas; the invariant
    \<open>areas_ok\<close>.  \<open>AreaProps\<close> and \<open>AreaProps2\<close> hold their properties.
  \<^item> \<open>StoredPage\<close>: \<open>stored_page.c\<close>, with the locale \<open>page_index\<close> (a finite set of keys).
  \<^item> \<open>MappedBuffer\<close>: \<open>mapped_buffer.c\<close>, with the locale \<open>keyed_table\<close> and the invariant \<open>buffers_ok\<close>.
  \<^item> \<open>Protocol\<close>, \<open>Socket\<close>, \<open>Server\<close>: \<open>protocol.h\<close>, \<open>socket.c\<close>, \<open>recvall\<close> and the request loop of
    \<open>server.py\<close>.
  \<^item> \<open>Storage\<close>: \<open>storage.c\<close>, both storages behind the table \<open>storage_ops\<close>.  \<open>StorageSpec\<close>: the
    locale \<open>storage\<close>, the contract of such a table, with the kernel storage and, by way of the
    locale \<open>page_server\<close>, the network storage over the modelled server as its instances.  It also
    holds \<open>page_store\<close>, the weaker contract of a table whose calls may fail.
  \<^item> \<open>Failing\<close>: the instances of \<open>page_store\<close> that do fail: the network storage over a connection
    whose calls do the whole job or report an error (locale \<open>lossy_server\<close>) and a kernel storage short of pages.
  \<^item> \<open>Clients\<close>: several threads of the server on one dictionary, each request one step.
    \<open>Threads\<close>: the same at the grain of single accesses to the dictionaries, which are objects in a
    heap there.  \<open>Wire\<close>: the bytes the module
    puts on the connection, read by the request loop of the server.
  \<^item> \<open>GenericMalloc\<close>: \<open>generic_malloc.c\<close>; the state is the record \<open>gstate\<close>.
  \<^item> \<open>PageInv\<close>, \<open>Paging\<close>: the invariant that ties page tables, buffers, index and storage
    together, and its preservation by unmapping, mapping and the fault handler.  The invariant has
    a part that survives failures (\<open>page_safe\<close>) and one that does not (\<open>index_exact\<close>).
  \<^item> \<open>Homes\<close>, \<open>MallocFree\<close>, \<open>Sharing\<close>, \<open>Close\<close>: the address spaces of the areas, the two system
    calls, pages shared by regions, the close handler.  \<open>Owners\<close>, \<open>Exit\<close>: every buffer belongs to a
    process with an area, so the exit of a process, which closes all its VMAs, frees its buffer.  What needs only the weak contract is
    proved in the context of \<open>page_store\<close>, the rest in that of its instance \<open>storage\<close>, so all of it
    holds for both storages.
  \<^item> \<open>Module\<close>: the state machine \<open>module_step\<close> and its invariant; \<open>ModuleProps\<close>, \<open>Lifetime\<close>: the
    properties of the module with the network storage; \<open>Heap\<close>: the abstract heap it refines;
    \<open>Findings\<close>: inputs on which the whole module goes wrong.  \<open>Survival\<close>: the module when
    allocations, page pinning and the connection fail.
  \<^item> \<open>Access\<close>, \<open>UserMem\<close>: what the processor does with the module: an instruction faults and starts
    again until all its pages are mapped; loads and stores of bytes; \<open>my_strcpy\<close> of
    \<open>src/test/test2.c\<close> and \<open>dump_buffer\<close> of \<open>src/test/test.c\<close> as programs over them.
  \<^item> \<open>ListHead\<close>: the list of regions as cells in memory with \<open>next\<close> and \<open>prev\<close> pointers, the routines
    of \<open>area.c\<close> and \<open>generic_malloc.c\<close> that follow and cut these pointers by hand, and the list helpers of
    \<open>kutils.h\<close>; the locale \<open>kernel_list\<close> (a ring of entries) with the lists of Linux as its instance.
  \<^item> \<open>Syscall\<close>, \<open>Netmalloc\<close>: \<open>syscall.c\<close> and \<open>netmalloc.c\<close>, loading and unloading.
  \<^item> \<open>Locking\<close>: the two system calls and the fault handler broken up at the calls they make, with
    the \<open>down\<close> and every \<open>up\<close> of the semaphore where the code has them, run by threads that
    interleave at these points; the locale \<open>counting_sem\<close> is what they rely on of the semaphore.
    \<open>Dump\<close>: the dump functions, as the list of lines they print.

  What is shown.  \<open>module_inv\<close> holds in every state that allocations, frees, faults, writes and exits of
  single-threaded processes can reach while memory is available, sizes are positive and bounded, no
  VMA is refused and the uninitialised list head of an area holds no 1 (\<open>head_clean\<close>, which is luck),
  and in those states no operation makes the kernel thread die (\<open>module_never_oops\<close>); the live regions
  of an area are disjoint and a process has at most two pages in the module (\<open>live_regions_disjoint\<close>,
  \<open>two_resident_pages\<close>).  What a process sees (\<open>net_view\<close>: the mapped page, else the stored
  one, else zeroes) is untouched by faults and allocations of anybody and by frees of others; a
  free spares the pages it shares with other regions of the area; the exit of a process takes away everything that is its own and
  nothing else (\<open>exit_correct\<close>); the run as a whole refines a
  heap per process.  For a program the memory is an array of bytes (\<open>store_byte_correct\<close>): an
  instruction on two pages completes after at most two faults, because a fault evicts the older resident page; one that needs
  three pages at once never does (\<open>two_page_access_completes\<close>, \<open>three_page_access_never_ends\<close>).  The lists are
  justified on pointers: merging and searching the ring of cells does what the list versions do,
  every cell taken out is freed once, and no other memory changes (\<open>merge_neighbors_on_pointers\<close>).  The components are specified one by one: first fit in the address space,
  placement and accounting of regions, the index as a set, the buffers as a table that owns its
  frames, the storages as maps, the server as a refinement of one map for every request sequence
  and every cutting of its byte stream.  The error properties state, with an input each, where the
  code does not do this.

  Under failures the module keeps \<open>module_safe\<close>: in a run in which the connection is reset at any
  time, pages cannot be mapped into the kernel, or memory for the first page of a buffer and for the index
  runs out, every fault, every allocation, every exit and every sound free
  (\<open>free_sound\<close>: the buffered pages could be put away, or the area stays) returns without killing the
  kernel thread, and leaves page tables, buffers and areas consistent (\<open>failures_never_oops\<close>,
  \<open>fault_survives_failures\<close>, \<open>malloc_survives_failures\<close>); faults and allocations then lose no byte.
  Other failures do harm, and the theorems exclude them by name (\<open>Survival\<close> has the list): no memory
  for the second page of a buffer kills a fault (\<open>cache_page_oom_bad_free\<close>), no memory for an area or
  region kills an allocation, and pages are lost by \<open>failed_pin_loses_page\<close>,
  \<open>closed_connection_serves_stale\<close> and \<open>free_ignores_failed_save\<close>.

  Under concurrency the semaphore makes the two system calls and the fault handler atomic as long as
  no wait is interrupted (\<open>calls_serialise\<close>), and no longer than that
  (\<open>interrupted_wait_breaks_exclusion\<close>).  The threads of the server share dictionaries without a lock.
  They linearise when no two connections serve the same process and none sends \<open>RELEASE\<close>
  (\<open>threads_linearise\<close>); otherwise a page is lost or a lookup fails (\<open>racing_requests\<close>).

  Bounds.  Sizes are assumed positive and far below the end of the address space (\<open>bounded\<close>) where
  a theorem needs it; \<open>huge_request_shrinks_vma\<close> shows what happens otherwise.  Where regions are
  added up, \<open>18446744073709547520\<close> is the last page boundary of the address space, below which
  rounding up to a page does not wrap.  The copy of a string is shorter than \<open>2 ^ 64\<close>.  No fuel is used:
  the restarts of an instruction and the searches round a ring are partial functions into option,
  where \<open>None\<close> is a loop that does not end, and the theorems say which of the two it is; the loop over the pages of a region stops
  where its counter would wrap (it cannot, its end is a page boundary), the free-space search and
  the request loop of the server have termination proofs.

  Parameters.  Kernel functions (\<open>kenv\<close>), the socket layer and the world behind it (\<open>netenv\<close>),
  symbols and page table entries (\<open>sysenv\<close>).  \<open>server_env\<close> instantiates the socket layer by a
  lossless connection to the modelled server; \<open>linux_ref\<close> the kernel.

  Not modelled.  The text of the messages of \<open>PR_DEBUG\<close> and \<open>PR_WARNING\<close>: they only print.
  \<open>mmap_sem\<close> and the reference counts of page structures (\<open>get_page\<close>, \<open>put_page\<close>, \<open>kunmap\<close>):
  they are obligations to the rest of the kernel, which is a parameter here.  Interleavings inside
  an operation outside \<open>Locking\<close>: elsewhere an operation of the module is one step, which
  \<open>calls_serialise\<close> justifies for the two system calls and the fault handler; the close handler,
  which takes no lock, is not part of that.  On the side of the server a \<open>send\<close> that takes
  only part of a page, on the side of the module a receive that returns only part of one where
  \<open>server_env\<close> is used (\<open>short_read_keeps_old_bytes\<close> is what happens then).  The
  start-up and the command line of the server, and the main programs and scripts under \<open>src/test\<close>, which
  call library functions of C (\<open>sprintf\<close>, \<open>memset\<close>, threads).
\<close>

end
